(* ===== verification/AegisPrelude.thy ===== *)
theory AegisPrelude
  imports Main "HOL-Library.Word" "HOL-Library.Monad_Syntax" "HOL-Library.Sublist"
begin

text \<open>
  Shared vocabulary of the development: the C++ standard-library primitives the sources
  use on byte ranges (\<open>std::find\<close>, \<open>std::search\<close>, \<open>std::copy\<close>, \<open>vector::resize\<close>),
  labelled runs of a step relation with the invariant rule every state machine of the
  development uses, and generic list facts. A byte is an Isabelle \<open>char\<close> (256 values), so
  \<open>string\<close> is \<open>std::string\<close>; a pointer into a byte array is its offset. \<open>size_t\<close> is
  \<open>nat\<close>: the sizes are sizes of objects in memory, and the subtractions of the sources
  are proved not to wrap.
\<close>

section \<open>Types and limits\<close>

type_synonym byte = char
type_synonym bytes = "char list"
type_synonym fd = int
type_synonym errno = nat

definition SIZE_MAX :: nat where
  "SIZE_MAX = 2 ^ 64 - 1"

definition INT64_MAX :: int where
  "INT64_MAX = 2 ^ 63 - 1"

definition EAGAIN :: errno where "EAGAIN = 11"
definition EWOULDBLOCK :: errno where "EWOULDBLOCK = 11"
definition EPIPE :: errno where "EPIPE = 32"
definition ECONNRESET :: errno where "ECONNRESET = 104"

lemmas errno_defs = EAGAIN_def EWOULDBLOCK_def EPIPE_def ECONNRESET_def

text \<open>The two control characters of HTTP framing and the fill byte of a fresh vector.\<close>

definition CR :: byte where "CR = CHR 0x0D"
definition LF :: byte where "LF = CHR 0x0A"
definition HTAB :: byte where "HTAB = CHR 0x09"
definition NUL :: byte where "NUL = CHR 0x00"

abbreviation SP :: byte where "SP \<equiv> CHR '' ''"

definition kCRLF :: bytes where
  "kCRLF = [CR, LF]"

text \<open>The numeric value of an \<open>unsigned char\<close>.\<close>

definition ord :: "byte \<Rightarrow> nat" where
  "ord c = of_char c"

section \<open>Byte ranges\<close>

text \<open>\<open>slice xs i j\<close> is the range \<open>[i, j)\<close> of an array.\<close>

definition slice :: "'a list \<Rightarrow> nat \<Rightarrow> nat \<Rightarrow> 'a list" where
  "slice xs i j = take (j - i) (drop i xs)"

text \<open>\<open>std::copy(src, src + n, dst + i)\<close> into the array \<open>dst\<close>.\<close>

definition blit :: "'a list \<Rightarrow> nat \<Rightarrow> 'a list \<Rightarrow> 'a list" where
  "blit dst i src = take i dst @ src @ drop (i + length src) dst"

text \<open>\<open>std::vector::resize(n)\<close>: truncates, or grows with value-initialised elements.\<close>

definition resize :: "byte list \<Rightarrow> nat \<Rightarrow> byte list" where
  "resize xs n = take n xs @ replicate (n - length xs) NUL"

text \<open>\<open>std::find\<close> over a range: the index of the first hit, or the length.\<close>

fun std_find :: "'a list \<Rightarrow> 'a \<Rightarrow> nat" where
  "std_find [] c = 0"
| "std_find (x # xs) c = (if x = c then 0 else Suc (std_find xs c))"

text \<open>\<open>std::search\<close> over a range: the start of the first occurrence of the pattern, or the length.\<close>

fun std_search :: "'a list \<Rightarrow> 'a list \<Rightarrow> nat" where
  "std_search [] pat = 0"
| "std_search (x # xs) pat =
     (if take (length pat) (x # xs) = pat then 0 else Suc (std_search xs pat))"

section \<open>Decimal numbers\<close>

text \<open>\<open>std::to_string\<close> of an unsigned value, and the value of a run of decimal digits.\<close>

fun to_string :: "nat \<Rightarrow> bytes" where
  "to_string n =
     (if n < 10 then [char_of (48 + n)] else to_string (n div 10) @ [char_of (48 + n mod 10)])"

declare to_string.simps [simp del]

definition isdigit :: "byte \<Rightarrow> bool" where
  "isdigit c \<longleftrightarrow> 48 \<le> ord c \<and> ord c \<le> 57"

definition decimal :: "bytes \<Rightarrow> nat" where
  "decimal ds = foldl (\<lambda>acc c. acc * 10 + (ord c - 48)) 0 ds"

text \<open>\<open>std::to_string\<close> of a signed value.\<close>

definition to_string_int :: "int \<Rightarrow> bytes" where
  "to_string_int i = (if i < 0 then CHR ''-'' # to_string (nat (- i)) else to_string (nat i))"

section \<open>Runs of a step relation\<close>

inductive run :: "('s \<Rightarrow> 'e \<Rightarrow> 's \<Rightarrow> bool) \<Rightarrow> 's \<Rightarrow> 'e list \<Rightarrow> 's \<Rightarrow> bool"
  for step where
  run_nil: "run step s [] s"
| run_cons: "step s e t \<Longrightarrow> run step t es u \<Longrightarrow> run step s (e # es) u"

inductive_simps run_nil_iff [simp]: "run step s [] t"
inductive_simps run_cons_iff: "run step s (e # es) u"

lemma run_append:
  "run step s es t \<Longrightarrow> run step t fs u \<Longrightarrow> run step s (es @ fs) u"
  by (induction rule: run.induct) (auto intro: run.intros)

lemma run_snoc: "run step s es t \<Longrightarrow> step t e u \<Longrightarrow> run step s (es @ [e]) u"
  by (erule run_append) (auto intro: run.intros)

text \<open>An invariant of a step relation holds along every run.\<close>

locale step_invariant =
  fixes step :: "'s \<Rightarrow> 'e \<Rightarrow> 's \<Rightarrow> bool"
    and inv :: "'s \<Rightarrow> bool"
  assumes inv_step: "inv s \<Longrightarrow> step s e t \<Longrightarrow> inv t"
begin

lemma inv_run: "run step s es t \<Longrightarrow> inv s \<Longrightarrow> inv t"
  by (induction rule: run.induct) (auto dest: inv_step)

end

text \<open>Operations that return the new state and what they did, run one after the other.\<close>

primrec run_ops :: "('a \<Rightarrow> 's \<Rightarrow> 's \<times> 'k list) \<Rightarrow> 'a list \<Rightarrow> 's \<Rightarrow> 's \<times> 'k list" where
  "run_ops act [] s = (s, [])"
| "run_ops act (a # as) s =
     (let (s1, ks1) = act a s; (s2, ks2) = run_ops act as s1 in (s2, ks1 @ ks2))"

lemma run_ops_append:
  "run_ops act (as @ bs) s =
     (let (s1, ks1) = run_ops act as s; (s2, ks2) = run_ops act bs s1 in (s2, ks1 @ ks2))"
  by (induction as arbitrary: s) (auto simp: Let_def split: prod.splits)

locale op_invariant =
  fixes act :: "'a \<Rightarrow> 's \<Rightarrow> 's \<times> 'k list"
    and inv :: "'s \<Rightarrow> bool"
  assumes inv_act: "inv s \<Longrightarrow> inv (fst (act a s))"
begin

lemma inv_ops: "inv s \<Longrightarrow> inv (fst (run_ops act as s))"
proof (induction as arbitrary: s)
  case (Cons a as)
  from Cons.IH [of "fst (act a s)"] inv_act [OF Cons.prems, of a] show ?case
    by (auto simp: Let_def split: prod.splits)
qed simp

end

section \<open>Generic lemmas\<close>

lemma ord_less [simp]: "ord c < 256"
  by (simp add: ord_def)

lemma ord_inj: "ord c = ord d \<longleftrightarrow> c = d"
  by (simp add: ord_def)

lemma ord_char_of: "ord (char_of n) = n mod 256"
  by (simp add: ord_def)

lemma ord_eq_CHR: "c = d \<longleftrightarrow> ord c = ord d"
  by (simp add: ord_inj)

lemma ord_digit [simp]: "d < 10 \<Longrightarrow> ord (char_of (48 + d)) = 48 + d"
  by (simp add: ord_char_of)

lemma to_string_digits: "list_all isdigit (to_string n)"
proof (induction n rule: to_string.induct)
  case (1 n)
  then show ?case
    by (cases "n < 10") (simp_all add: to_string.simps [of n] isdigit_def)
qed

lemma to_string_nonempty [simp]: "to_string n \<noteq> []"
  by (subst to_string.simps) simp

lemma decimal_snoc: "decimal (ds @ [c]) = decimal ds * 10 + (ord c - 48)"
  by (simp add: decimal_def)

lemma decimal_to_string [simp]: "decimal (to_string n) = n"
proof (induction n rule: to_string.induct)
  case (1 n)
  show ?case
  proof (cases "n < 10")
    case True
    then show ?thesis by (simp add: to_string.simps [of n] decimal_def)
  next
    case False
    with 1 show ?thesis by (simp add: to_string.simps [of n] decimal_snoc)
  qed
qed

lemma to_string_inject [simp]: "to_string m = to_string n \<longleftrightarrow> m = n"
  by (metis decimal_to_string)

lemma subseq_set: "subseq xs ys \<Longrightarrow> set xs \<subseteq> set ys"
  by (induction rule: list_emb.induct) auto

lemma length_slice: "j \<le> length xs \<Longrightarrow> length (slice xs i j) = j - i"
  by (simp add: slice_def)

lemma slice_empty [simp]: "slice xs i i = []"
  by (simp add: slice_def)

lemma slice_alt: "slice xs i j = drop i (take j xs)"
  by (simp add: slice_def drop_take)

lemma slice_append: "i \<le> j \<Longrightarrow> j \<le> k \<Longrightarrow> slice xs i k = slice xs i j @ slice xs j k"
proof -
  assume le: "i \<le> j" "j \<le> k"
  then have "k - i = (j - i) + (k - j)" by simp
  then have "slice xs i k = take (j - i) (drop i xs) @ take (k - j) (drop (j - i) (drop i xs))"
    by (simp add: slice_def take_add)
  with le show ?thesis by (simp add: slice_def)
qed

lemma take_slice: "i + n \<le> j \<Longrightarrow> take n (slice xs i j) = slice xs i (i + n)"
  by (simp add: slice_def min_def)

lemma drop_slice: "drop n (slice xs i j) = slice xs (i + n) j"
  by (simp add: slice_alt add.commute)

lemma length_blit [simp]: "i + length src \<le> length dst \<Longrightarrow> length (blit dst i src) = length dst"
  by (simp add: blit_def)

lemma slice_blit_same:
  "i + length src \<le> length dst \<Longrightarrow> slice (blit dst i src) i (i + length src) = src"
  by (simp add: slice_def blit_def)

lemma slice_blit_before:
  "k \<le> i \<Longrightarrow> i \<le> length dst \<Longrightarrow> slice (blit dst i src) j k = slice dst j k"
  by (simp add: slice_alt blit_def)

lemma slice_blit_after:
  assumes "i + length src \<le> j" "i \<le> length dst"
  shows "slice (blit dst i src) j k = slice dst j k"
proof -
  have "drop j (blit dst i src) = drop j dst"
    using assms by (simp add: blit_def)
  then show ?thesis by (simp add: slice_def)
qed

lemma length_resize [simp]: "length (resize xs n) = n"
  by (simp add: resize_def)

lemma slice_resize: "k \<le> n \<Longrightarrow> k \<le> length xs \<Longrightarrow> slice (resize xs n) j k = slice xs j k"
  by (simp add: slice_alt resize_def)

lemma std_find_le [simp]: "std_find xs c \<le> length xs"
  by (induction xs) auto

lemma std_find_less_iff: "std_find xs c < length xs \<longleftrightarrow> c \<in> set xs"
  by (induction xs) auto

lemma std_find_eq_length_iff: "std_find xs c = length xs \<longleftrightarrow> c \<notin> set xs"
  by (induction xs) auto

lemma std_find_nth: "c \<in> set xs \<Longrightarrow> xs ! std_find xs c = c"
  by (induction xs) auto

lemma std_find_take: "take (std_find xs c) xs = takeWhile (\<lambda>x. x \<noteq> c) xs"
  by (induction xs) auto

lemma std_find_drop: "drop (std_find xs c) xs = dropWhile (\<lambda>x. x \<noteq> c) xs"
  by (induction xs) auto

lemma std_find_append:
  "std_find (xs @ ys) c = (if c \<in> set xs then std_find xs c else length xs + std_find ys c)"
  by (induction xs) auto

lemma std_search_le [simp]: "std_search xs pat \<le> length xs"
  by (induction xs) auto

lemma std_search_match:
  assumes "std_search xs pat < length xs"
  shows "take (length pat) (drop (std_search xs pat) xs) = pat"
  using assms by (induction xs) (auto split: if_splits)

lemma std_search_bound:
  assumes "std_search xs pat < length xs"
  shows "std_search xs pat + length pat \<le> length xs"
proof -
  have "length (take (length pat) (drop (std_search xs pat) xs)) = length pat"
    using std_search_match [OF assms] by simp
  then show ?thesis using assms by simp
qed

lemma std_search_least:
  "i < std_search xs pat \<Longrightarrow> take (length pat) (drop i xs) \<noteq> pat"
proof (induction xs arbitrary: i)
  case Nil
  then show ?case by simp
next
  case (Cons x xs)
  then show ?case by (cases i) (auto split: if_splits)
qed

text \<open>A hit of the search is final: more input behind it does not move it.\<close>

lemma std_search_append_hit:
  assumes "std_search xs pat < length xs"
  shows "std_search (xs @ ys) pat = std_search xs pat"
  using assms
proof (induction xs)
  case Nil
  then show ?case by simp
next
  case (Cons x xs)
  show ?case
  proof (cases "take (length pat) (x # xs) = pat")
    case True
    then have "length pat \<le> length (x # xs)"
      by (metis length_take min.absorb_iff2 min.commute)
    then have "take (length pat) (x # xs @ ys) = take (length pat) (x # xs)"
      by (cases "length pat") auto
    with True show ?thesis by simp
  next
    case False
    then have less: "std_search xs pat < length xs" using Cons.prems by simp
    then have "length pat \<le> length (x # xs)" using std_search_bound by fastforce
    then have "take (length pat) (x # xs @ ys) = take (length pat) (x # xs)"
      by (cases "length pat") auto
    with False Cons.IH [OF less] show ?thesis by simp
  qed
qed

lemma std_search_miss_iff:
  assumes "pat \<noteq> []"
  shows "std_search xs pat = length xs \<longleftrightarrow> (\<forall>i. take (length pat) (drop i xs) \<noteq> pat)"
  using std_search_least [of _ xs pat] std_search_match [of xs pat] assms
  by (metis drop_all le_less_linear nat_less_le std_search_le take_Nil)

end
