(* ===== verification/Buffer.thy ===== *)
theory Buffer
  imports AegisPrelude
begin

text \<open>
  The growable byte buffer of \<open>src/src/tcp/Buffer.h\<close> and \<open>Buffer.cpp\<close>: one vector with a
  read and a write position. The record has the three data members; \<open>peek\<close> and
  \<open>beginWrite\<close> are offsets into the vector. Operations that the source guards with
  \<open>assert\<close>, or that read at a caller-supplied length, return an option: \<open>None\<close> is the
  failed assertion or the read outside the vector. \<open>readFd\<close> takes the system call
  \<open>readv\<close> as a parameter. The abstraction \<open>Buffer_content\<close> is the readable region; the
  locales \<open>byte_queue\<close> and \<open>line_queue\<close> are the contracts the parsers and the connection
  rely on, interpreted here on the model.
\<close>

section \<open>State\<close>

record Buffer =
  storage :: bytes
  readIndex :: nat
  writeIndex :: nat

definition kCheapPrepend :: nat where "kCheapPrepend = 8"
definition kInitialSize :: nat where "kInitialSize = 1024"

definition Buffer_new :: "nat \<Rightarrow> Buffer" where
  "Buffer_new initialSize =
     \<lparr>storage = replicate (kCheapPrepend + initialSize) NUL,
      readIndex = kCheapPrepend, writeIndex = kCheapPrepend\<rparr>"

definition readableBytes :: "Buffer \<Rightarrow> nat" where
  "readableBytes b = writeIndex b - readIndex b"

definition writableBytes :: "Buffer \<Rightarrow> nat" where
  "writableBytes b = length (storage b) - writeIndex b"

definition prependableBytes :: "Buffer \<Rightarrow> nat" where
  "prependableBytes b = readIndex b"

definition peek :: "Buffer \<Rightarrow> nat" where
  "peek b = readIndex b"

definition beginWrite :: "Buffer \<Rightarrow> nat" where
  "beginWrite b = writeIndex b"

text \<open>\<open>std::string(p, q)\<close> for two pointers into the buffer's storage.\<close>

definition Buffer_text :: "Buffer \<Rightarrow> nat \<Rightarrow> nat \<Rightarrow> bytes" where
  "Buffer_text b p q = slice (storage b) p q"

section \<open>Operations\<close>

definition Buffer_retrieveAll :: "Buffer \<Rightarrow> Buffer" where
  "Buffer_retrieveAll b = b\<lparr>readIndex := kCheapPrepend, writeIndex := kCheapPrepend\<rparr>"

definition Buffer_retrieve :: "Buffer \<Rightarrow> nat \<Rightarrow> Buffer" where
  "Buffer_retrieve b len =
     (if len < readableBytes b then b\<lparr>readIndex := readIndex b + len\<rparr>
      else Buffer_retrieveAll b)"

definition Buffer_retrieveAsString :: "Buffer \<Rightarrow> nat \<Rightarrow> (bytes \<times> Buffer) option" where
  "Buffer_retrieveAsString b len =
     (if peek b + len \<le> length (storage b)
      then Some (Buffer_text b (peek b) (peek b + len), Buffer_retrieve b len)
      else None)"

definition Buffer_retrieveAllAsString :: "Buffer \<Rightarrow> (bytes \<times> Buffer) option" where
  "Buffer_retrieveAllAsString b = Buffer_retrieveAsString b (readableBytes b)"

definition Buffer_findCRLF :: "Buffer \<Rightarrow> nat option" where
  "Buffer_findCRLF b =
     (let crlf = peek b + std_search (Buffer_text b (peek b) (beginWrite b)) kCRLF
      in if crlf = beginWrite b then None else Some crlf)"

definition Buffer_retrieveUntil :: "Buffer \<Rightarrow> nat \<Rightarrow> Buffer option" where
  "Buffer_retrieveUntil b end_ptr =
     (if peek b \<le> end_ptr \<and> end_ptr \<le> beginWrite b
      then Some (Buffer_retrieve b (end_ptr - peek b)) else None)"

definition Buffer_makeSpace :: "Buffer \<Rightarrow> nat \<Rightarrow> Buffer" where
  "Buffer_makeSpace b len =
     (if writableBytes b + prependableBytes b < len + kCheapPrepend
      then b\<lparr>storage := resize (storage b) (writeIndex b + len)\<rparr>
      else let readable = readableBytes b in
        b\<lparr>storage := blit (storage b) kCheapPrepend
                      (Buffer_text b (readIndex b) (writeIndex b)),
          readIndex := kCheapPrepend,
          writeIndex := kCheapPrepend + readable\<rparr>)"

definition Buffer_append :: "Buffer \<Rightarrow> bytes \<Rightarrow> Buffer" where
  "Buffer_append b data =
     (let len = length data;
          b' = (if writableBytes b < len then Buffer_makeSpace b len else b)
      in b'\<lparr>storage := blit (storage b') (beginWrite b') data,
            writeIndex := writeIndex b' + len\<rparr>)"

text \<open>
  \<open>readv\<close> fills the writable region first and then the 65536 bytes of \<open>extrabuf\<close>, which is
  passed only when the writable region is smaller than it. The parameter maps the offered
  capacity to the outcome: \<open>Inl errno\<close>, or \<open>Inr data\<close> with the bytes delivered. The result
  is the outcome the caller sees (\<open>n\<close> is the length of the data) and the new buffer.
\<close>

definition extrabuf_size :: nat where "extrabuf_size = 65536"

definition readFd_capacity :: "Buffer \<Rightarrow> nat" where
  "readFd_capacity b =
     (let writable = writableBytes b
      in if writable < extrabuf_size then writable + extrabuf_size else writable)"

definition Buffer_readFd ::
    "(nat \<Rightarrow> errno + bytes) \<Rightarrow> Buffer \<Rightarrow> (errno + nat) \<times> Buffer" where
  "Buffer_readFd readv b =
     (let writable = writableBytes b in
      case readv (readFd_capacity b) of
        Inl err \<Rightarrow> (Inl err, b)
      | Inr data \<Rightarrow>
          let n = length data;
              b1 = b\<lparr>storage := blit (storage b) (beginWrite b) (take writable data)\<rparr>;
              extrabuf = (if writable < extrabuf_size then drop writable data else [])
          in (Inr n,
              if n \<le> writable then b1\<lparr>writeIndex := writeIndex b1 + n\<rparr>
              else Buffer_append (b1\<lparr>writeIndex := length (storage b1)\<rparr>)
                     (take (n - writable) extrabuf)))"

text \<open>
  What \<open>readv\<close> promises: at most as many bytes as the two vectors offer.
\<close>

definition readv_ok :: "(nat \<Rightarrow> errno + bytes) \<Rightarrow> bool" where
  "readv_ok readv \<longleftrightarrow> (\<forall>cap data. readv cap = Inr data \<longrightarrow> length data \<le> cap)"

text \<open>The network byte order conversions of \<open>memcpy\<close> with \<open>ntohl\<close> and \<open>htonl\<close>.\<close>

definition be32_decode :: "bytes \<Rightarrow> 32 word" where
  "be32_decode bs = of_nat (foldl (\<lambda>acc c. acc * 256 + ord c) 0 bs)"

definition be32_encode :: "32 word \<Rightarrow> bytes" where
  "be32_encode x = map (\<lambda>k. char_of (unat x div 256 ^ k)) [3, 2, 1, 0]"

definition sizeof_int32 :: nat where "sizeof_int32 = 4"

definition Buffer_peekInt32 :: "Buffer \<Rightarrow> 32 word option" where
  "Buffer_peekInt32 b =
     (if sizeof_int32 \<le> readableBytes b
      then Some (be32_decode (Buffer_text b (peek b) (peek b + sizeof_int32))) else None)"

definition Buffer_readInt32 :: "Buffer \<Rightarrow> (32 word \<times> Buffer) option" where
  "Buffer_readInt32 b =
     (case Buffer_peekInt32 b of
        None \<Rightarrow> None
      | Some result \<Rightarrow> Some (result, Buffer_retrieve b sizeof_int32))"

definition Buffer_prepend :: "Buffer \<Rightarrow> bytes \<Rightarrow> Buffer option" where
  "Buffer_prepend b data =
     (if length data \<le> prependableBytes b
      then Some (b\<lparr>readIndex := readIndex b - length data,
                   storage := blit (storage b) (readIndex b - length data) data\<rparr>)
      else None)"

definition Buffer_prependInt32 :: "Buffer \<Rightarrow> 32 word \<Rightarrow> Buffer option" where
  "Buffer_prependInt32 b x = Buffer_prepend b (be32_encode x)"

section \<open>Invariant and abstraction\<close>

definition Buffer_ok :: "Buffer \<Rightarrow> bool" where
  "Buffer_ok b \<longleftrightarrow>
     readIndex b \<le> writeIndex b \<and> writeIndex b \<le> length (storage b) \<and>
     kCheapPrepend \<le> length (storage b)"

definition Buffer_content :: "Buffer \<Rightarrow> bytes" where
  "Buffer_content b = Buffer_text b (readIndex b) (writeIndex b)"

lemmas buffer_access =
  readableBytes_def writableBytes_def prependableBytes_def peek_def beginWrite_def Buffer_text_def

text \<open>The first line of a byte stream: what precedes the first CRLF, and what follows it.\<close>

definition split_line :: "bytes \<Rightarrow> (bytes \<times> bytes) option" where
  "split_line cs =
     (let k = std_search cs kCRLF
      in if k = length cs then None else Some (take k cs, drop (k + 2) cs))"

text \<open>
  A producer and a consumer on one queue: each entry appends bytes or takes some out; the
  result is everything taken out, in order, and the final queue.
\<close>

primrec transfer ::
    "('b \<Rightarrow> bytes) \<Rightarrow> ('b \<Rightarrow> bytes \<Rightarrow> 'b) \<Rightarrow> ('b \<Rightarrow> nat \<Rightarrow> 'b) \<Rightarrow> 'b \<Rightarrow> (bytes + nat) list \<Rightarrow> bytes \<times> 'b" where
  "transfer con app ret b [] = ([], b)"
| "transfer con app ret b (x # xs) =
     (case x of
        Inl data \<Rightarrow> transfer con app ret (app b data) xs
      | Inr n \<Rightarrow>
          (let (out, b') = transfer con app ret (ret b n) xs
           in (take n (con b) @ out, b')))"

definition appended :: "(bytes + nat) list \<Rightarrow> bytes" where
  "appended xs = concat (map (\<lambda>x. case x of Inl d \<Rightarrow> d | Inr _ \<Rightarrow> []) xs)"

section \<open>Interfaces\<close>

text \<open>A FIFO of bytes, as its clients see it.\<close>

locale byte_queue =
  fixes invar :: "'b \<Rightarrow> bool"
    and content :: "'b \<Rightarrow> bytes"
    and append :: "'b \<Rightarrow> bytes \<Rightarrow> 'b"
    and retrieve :: "'b \<Rightarrow> nat \<Rightarrow> 'b"
  assumes invar_append: "invar b \<Longrightarrow> invar (append b xs)"
    and content_append: "invar b \<Longrightarrow> content (append b xs) = content b @ xs"
    and invar_retrieve: "invar b \<Longrightarrow> invar (retrieve b n)"
    and content_retrieve: "invar b \<Longrightarrow> content (retrieve b n) = drop n (content b)"
begin

lemmas queue_laws = invar_append content_append invar_retrieve content_retrieve

lemma append_append_content:
  "invar b \<Longrightarrow> content (append (append b xs) ys) = content (append b (xs @ ys))"
  by (simp add: queue_laws)

lemma retrieve_prefix_append:
  assumes "invar b" "n \<le> length (content b)"
  shows "content (append (retrieve b n) xs) = content (retrieve (append b xs) n)"
  using assms by (simp add: queue_laws)

lemma transfer_stream:
  assumes "invar b" "transfer content append retrieve b xs = (out, b')"
  shows "out @ content b' = content b @ appended xs \<and> invar b'"
  using assms
proof (induction xs arbitrary: b out)
  case Nil
  then show ?case by (simp add: appended_def)
next
  case (Cons x xs)
  show ?case
  proof (cases x)
    case (Inl d)
    with Cons.IH [of "append b d"] Cons.prems show ?thesis
      by (simp add: queue_laws appended_def)
  next
    case (Inr n)
    with Cons.prems obtain o' where t: "transfer content append retrieve (retrieve b n) xs = (o', b')"
      and out: "out = take n (content b) @ o'" by (auto split: prod.splits)
    from Cons.IH [OF _ t] Cons.prems(1) have "o' @ content b' = drop n (content b) @ appended xs"
      and "invar b'" by (simp_all add: queue_laws)
    then show ?thesis using Inr out by (simp add: appended_def)
  qed
qed

end

text \<open>A byte queue read line by line, as the HTTP parsers read it.\<close>

locale line_queue = byte_queue invar content append retrieve
  for invar :: "'b \<Rightarrow> bool"
    and content :: "'b \<Rightarrow> bytes"
    and append :: "'b \<Rightarrow> bytes \<Rightarrow> 'b"
    and retrieve :: "'b \<Rightarrow> nat \<Rightarrow> 'b" +
  fixes pos :: "'b \<Rightarrow> nat"
    and findCRLF :: "'b \<Rightarrow> nat option"
    and retrieveUntil :: "'b \<Rightarrow> nat \<Rightarrow> 'b option"
  assumes find_None: "invar b \<Longrightarrow> findCRLF b = None \<longleftrightarrow> split_line (content b) = None"
    and find_Some: "invar b \<Longrightarrow> findCRLF b = Some p \<Longrightarrow>
          \<exists>line rest. split_line (content b) = Some (line, rest) \<and> p = pos b + length line"
    and until_Some: "invar b \<Longrightarrow> n \<le> length (content b) \<Longrightarrow>
          retrieveUntil b (pos b + n) = Some (retrieve b n)"

section \<open>Lemmas\<close>

lemma split_line_Some_iff:
  "split_line cs = Some (line, rest) \<longleftrightarrow>
     cs = line @ kCRLF @ rest \<and> std_search (line @ kCRLF) kCRLF = length line"
proof
  assume *: "split_line cs = Some (line, rest)"
  define k where "k = std_search cs kCRLF"
  from * have k: "k < length cs" and line: "line = take k cs" and rest: "rest = drop (k + 2) cs"
    using std_search_le [of cs kCRLF]
    by (auto simp: split_line_def k_def Let_def le_neq_implies_less split: if_splits)
  have hit: "take 2 (drop k cs) = kCRLF"
    using std_search_match [of cs kCRLF] k by (simp add: k_def kCRLF_def numeral_2_eq_2)
  have "cs = take k cs @ take 2 (drop k cs) @ drop 2 (drop k cs)"
    by (simp only: append_take_drop_id)
  then have cs: "cs = line @ kCRLF @ rest" using hit line rest by (simp add: add.commute)
  have "std_search (line @ kCRLF) kCRLF = length line"
  proof (rule ccontr)
    assume ne: "std_search (line @ kCRLF) kCRLF \<noteq> length line"
    have at: "take (length kCRLF) (drop (length line) (line @ kCRLF)) = kCRLF" by simp
    have "\<not> length line < std_search (line @ kCRLF) kCRLF"
      using std_search_least [of "length line" "line @ kCRLF" kCRLF] at by blast
    with ne have "std_search (line @ kCRLF) kCRLF < length line" by simp
    moreover from this have "std_search ((line @ kCRLF) @ rest) kCRLF = std_search (line @ kCRLF) kCRLF"
      by (intro std_search_append_hit) (simp add: kCRLF_def)
    ultimately have "k < length line" using cs by (simp add: k_def)
    then show False using line k by simp
  qed
  with cs show "cs = line @ kCRLF @ rest \<and> std_search (line @ kCRLF) kCRLF = length line" by simp
next
  assume *: "cs = line @ kCRLF @ rest \<and> std_search (line @ kCRLF) kCRLF = length line"
  then have "std_search ((line @ kCRLF) @ rest) kCRLF = length line"
    by (subst std_search_append_hit) (auto simp: kCRLF_def)
  with * show "split_line cs = Some (line, rest)"
    by (simp add: split_line_def Let_def kCRLF_def)
qed

lemma split_line_length: "split_line cs = Some (line, rest) \<Longrightarrow> length rest < length cs"
  by (simp add: split_line_Some_iff kCRLF_def)

text \<open>Once a line is complete, later input only extends the rest.\<close>

lemma split_line_append:
  "split_line cs = Some (line, rest) \<Longrightarrow> split_line (cs @ ds) = Some (line, rest @ ds)"
  by (simp add: split_line_Some_iff)

lemma split_line_None_iff: "split_line cs = None \<longleftrightarrow> (\<forall>i. take 2 (drop i cs) \<noteq> kCRLF)"
  using std_search_miss_iff [of kCRLF cs]
  by (auto simp: split_line_def Let_def kCRLF_def numeral_2_eq_2)

text \<open>A line without a carriage return is found as it stands.\<close>

lemma std_search_no_CR: "CR \<notin> set line \<Longrightarrow> std_search (line @ kCRLF) kCRLF = length line"
  by (induction line) (auto simp: kCRLF_def)

lemma split_line_no_CR: "CR \<notin> set line \<Longrightarrow> split_line (line @ kCRLF @ rest) = Some (line, rest)"
  by (simp add: split_line_Some_iff std_search_no_CR)

lemma Buffer_ok_new [simp]: "Buffer_ok (Buffer_new n)"
  by (simp add: Buffer_ok_def Buffer_new_def)

lemma Buffer_content_new [simp]: "Buffer_content (Buffer_new n) = []"
  by (simp add: Buffer_content_def Buffer_new_def buffer_access)

lemma length_content: "Buffer_ok b \<Longrightarrow> length (Buffer_content b) = readableBytes b"
  by (simp add: Buffer_ok_def Buffer_content_def buffer_access length_slice)

lemma Buffer_ok_retrieveAll: "Buffer_ok b \<Longrightarrow> Buffer_ok (Buffer_retrieveAll b)"
  by (simp add: Buffer_ok_def Buffer_retrieveAll_def)

lemma Buffer_content_retrieveAll [simp]: "Buffer_content (Buffer_retrieveAll b) = []"
  by (simp add: Buffer_content_def Buffer_retrieveAll_def buffer_access)

lemma Buffer_ok_retrieve: "Buffer_ok b \<Longrightarrow> Buffer_ok (Buffer_retrieve b n)"
  by (auto simp: Buffer_retrieve_def Buffer_ok_retrieveAll) (simp add: Buffer_ok_def buffer_access)

lemma Buffer_content_retrieve:
  assumes "Buffer_ok b"
  shows "Buffer_content (Buffer_retrieve b n) = drop n (Buffer_content b)"
proof (cases "n < readableBytes b")
  case True
  then show ?thesis
    by (simp add: Buffer_retrieve_def Buffer_content_def buffer_access drop_slice)
next
  case False
  then show ?thesis using length_content [OF assms] by (simp add: Buffer_retrieve_def)
qed

text \<open>
  Making room: whichever branch runs, the readable bytes stay, the invariant stays, and
  \<open>len\<close> bytes fit behind the write position. The move is never to the right: it runs only
  when the read position is at least \<open>kCheapPrepend\<close>, which is what \<open>std::copy\<close> needs.
\<close>

lemma makeSpace_resize:
  assumes "Buffer_ok b" "writableBytes b < len"
    and "writableBytes b + prependableBytes b < len + kCheapPrepend"
  shows "Buffer_ok (Buffer_makeSpace b len)"
    and "Buffer_content (Buffer_makeSpace b len) = Buffer_content b"
    and "writeIndex (Buffer_makeSpace b len) + len = length (storage (Buffer_makeSpace b len))"
  using assms
  by (auto simp: Buffer_makeSpace_def Buffer_ok_def Buffer_content_def buffer_access slice_resize)

lemma makeSpace_moves_left:
  assumes "writableBytes b < len"
    and "\<not> writableBytes b + prependableBytes b < len + kCheapPrepend"
  shows "kCheapPrepend < readIndex b"
  using assms by (simp add: buffer_access)

lemma makeSpace_move:
  assumes ok: "Buffer_ok b" and w: "writableBytes b < len"
    and m: "\<not> writableBytes b + prependableBytes b < len + kCheapPrepend"
  shows "Buffer_ok (Buffer_makeSpace b len)"
    and "Buffer_content (Buffer_makeSpace b len) = Buffer_content b"
    and "writeIndex (Buffer_makeSpace b len) + len \<le> length (storage (Buffer_makeSpace b len))"
proof -
  let ?c = "Buffer_text b (readIndex b) (writeIndex b)"
  have len: "length ?c = readableBytes b"
    using length_content [OF ok] by (simp add: Buffer_content_def)
  have fits: "kCheapPrepend + length ?c \<le> length (storage b)"
    using makeSpace_moves_left [OF w m] ok len
    unfolding Buffer_ok_def readableBytes_def by linarith
  then show "Buffer_ok (Buffer_makeSpace b len)"
    using m ok len by (simp add: Buffer_makeSpace_def Buffer_ok_def Let_def)
  show "Buffer_content (Buffer_makeSpace b len) = Buffer_content b"
    using m slice_blit_same [OF fits] len
    by (simp add: Buffer_makeSpace_def Let_def Buffer_content_def) (simp add: Buffer_text_def)
  show "writeIndex (Buffer_makeSpace b len) + len \<le> length (storage (Buffer_makeSpace b len))"
    using m fits len ok by (simp add: Buffer_makeSpace_def Let_def Buffer_ok_def buffer_access)
qed

lemma makeSpace_fits:
  assumes "Buffer_ok b" "writableBytes b < len"
  shows "Buffer_ok (Buffer_makeSpace b len)"
    and "Buffer_content (Buffer_makeSpace b len) = Buffer_content b"
    and "writeIndex (Buffer_makeSpace b len) + len \<le> length (storage (Buffer_makeSpace b len))"
  using makeSpace_resize [OF assms] makeSpace_move [OF assms] by fastforce+

lemma append_in_place:
  assumes ok: "Buffer_ok b" and fits: "writeIndex b + length xs \<le> length (storage b)"
  defines "b' \<equiv> b\<lparr>storage := blit (storage b) (writeIndex b) xs, writeIndex := writeIndex b + length xs\<rparr>"
  shows "Buffer_ok b'" and "Buffer_content b' = Buffer_content b @ xs"
proof -
  show "Buffer_ok b'" using ok fits by (simp add: Buffer_ok_def b'_def)
  have "slice (storage b') (readIndex b) (writeIndex b + length xs) =
        slice (storage b') (readIndex b) (writeIndex b) @
        slice (storage b') (writeIndex b) (writeIndex b + length xs)"
    using ok by (intro slice_append) (simp_all add: Buffer_ok_def)
  then show "Buffer_content b' = Buffer_content b @ xs"
    using ok fits
    by (simp add: Buffer_content_def Buffer_text_def b'_def slice_blit_before slice_blit_same Buffer_ok_def)
qed

lemma append_correct:
  assumes "Buffer_ok b"
  shows "Buffer_ok (Buffer_append b xs)" and "Buffer_content (Buffer_append b xs) = Buffer_content b @ xs"
proof -
  define b' where "b' = (if writableBytes b < length xs then Buffer_makeSpace b (length xs) else b)"
  have b': "Buffer_ok b'" "Buffer_content b' = Buffer_content b"
    "writeIndex b' + length xs \<le> length (storage b')"
    using makeSpace_fits [OF assms] assms by (auto simp: b'_def Buffer_ok_def buffer_access)
  have eq: "Buffer_append b xs =
     b'\<lparr>storage := blit (storage b') (writeIndex b') xs, writeIndex := writeIndex b' + length xs\<rparr>"
    by (simp add: Buffer_append_def Let_def b'_def beginWrite_def)
  show "Buffer_ok (Buffer_append b xs)" "Buffer_content (Buffer_append b xs) = Buffer_content b @ xs"
    using append_in_place [OF b'(1,3)] b'(2) eq by simp_all
qed

lemma retrieveUntil_correct:
  assumes "Buffer_ok b" "n \<le> length (Buffer_content b)"
  shows "Buffer_retrieveUntil b (peek b + n) = Some (Buffer_retrieve b n)"
proof -
  have "peek b + n \<le> beginWrite b"
    using assms length_content [OF assms(1)]
    unfolding Buffer_ok_def readableBytes_def peek_def beginWrite_def by linarith
  then show ?thesis by (simp add: Buffer_retrieveUntil_def)
qed

lemma findCRLF_split:
  assumes "Buffer_ok b"
  shows "Buffer_findCRLF b = map_option (\<lambda>(line, _). peek b + length line) (split_line (Buffer_content b))"
proof -
  let ?k = "std_search (Buffer_content b) kCRLF"
  have txt_eq: "Buffer_text b (peek b) (beginWrite b) = Buffer_content b"
    by (simp add: Buffer_content_def peek_def beginWrite_def)
  have "peek b + ?k = beginWrite b \<longleftrightarrow> ?k = length (Buffer_content b)"
    using length_content [OF assms] assms
    unfolding Buffer_ok_def readableBytes_def peek_def beginWrite_def by linarith
  then show ?thesis
    by (simp add: Buffer_findCRLF_def txt_eq split_line_def Let_def min_absorb2)
qed

interpretation buf: byte_queue Buffer_ok Buffer_content Buffer_append Buffer_retrieve
  by unfold_locales
    (simp_all add: append_correct Buffer_ok_retrieve Buffer_content_retrieve)

interpretation bufl: line_queue Buffer_ok Buffer_content Buffer_append Buffer_retrieve
    peek Buffer_findCRLF Buffer_retrieveUntil
  by unfold_locales (auto simp: findCRLF_split retrieveUntil_correct)

lemma text_peek:
  assumes "Buffer_ok b" "n \<le> readableBytes b"
  shows "Buffer_text b (peek b) (peek b + n) = take n (Buffer_content b)"
proof -
  have "readIndex b + n \<le> writeIndex b"
    using assms unfolding Buffer_ok_def readableBytes_def by linarith
  then show ?thesis by (simp add: Buffer_content_def Buffer_text_def peek_def take_slice)
qed

lemma line_content:
  assumes "Buffer_ok b" "Buffer_findCRLF b = Some crlf"
  obtains line rest where "Buffer_content b = line @ kCRLF @ rest"
    and "split_line (Buffer_content b) = Some (line, rest)"
    and "crlf = peek b + length line"
    and "Buffer_text b (peek b) crlf = line"
    and "Buffer_retrieveUntil b (crlf + 2) = Some (Buffer_retrieve b (length line + 2))"
    and "Buffer_content (Buffer_retrieve b (length line + 2)) = rest"
proof -
  from bufl.find_Some [OF assms] obtain line rest where
    sl: "split_line (Buffer_content b) = Some (line, rest)" and crlf: "crlf = peek b + length line"
    by blast
  from sl have c: "Buffer_content b = line @ kCRLF @ rest" by (simp add: split_line_Some_iff)
  have u: "Buffer_retrieveUntil b (crlf + 2) = Some (Buffer_retrieve b (length line + 2))"
    using bufl.until_Some [OF assms(1), of "length line + 2"] c crlf
    by (simp add: kCRLF_def add.assoc)
  have "Buffer_text b (peek b) crlf = take (length line) (Buffer_content b)"
    using crlf c length_content [OF assms(1)] by (simp add: text_peek [OF assms(1)])
  then have t: "Buffer_text b (peek b) crlf = line" using c by simp
  have "Buffer_content (Buffer_retrieve b (length line + 2)) = rest"
    using buf.content_retrieve [OF assms(1)] c by (simp add: kCRLF_def)
  with that c sl crlf t u show thesis by blast
qed

lemma be32_fold:
  fixes n :: nat
  assumes n: "n < 2 ^ 32"
  shows "foldl (\<lambda>acc c. acc * 256 + ord c) 0 (map (\<lambda>k. char_of (n div 256 ^ k)) [3, 2, 1, 0]) = n"
proof -
  have q: "n div 256 ^ 2 = n div 256 div 256" "n div 256 ^ 3 = n div 256 div 256 div 256"
    by (simp_all add: div_mult2_eq [symmetric] power2_eq_square power3_eq_cube)
  have q3: "n div 256 div 256 div 256 mod 256 = n div 256 div 256 div 256"
    using n by (simp add: div_mult2_eq [symmetric])
  have "((n div 256 ^ 3 mod 256 * 256 + n div 256 ^ 2 mod 256) * 256 + n div 256 mod 256) * 256
          + n mod 256 = n"
    by (simp only: q q3 div_mult_mod_eq)
  then show ?thesis
    by (simp only: list.map foldl_Nil foldl_Cons ord_char_of mult_zero_left add_0 power_0
        power_one_right div_by_1)
qed

lemma be32_decode_encode: "be32_decode (be32_encode x) = x"
proof -
  have "unat x < 2 ^ 32" using unsigned_less [of x] by simp
  from be32_fold [OF this] show ?thesis
    by (simp only: be32_decode_def be32_encode_def) simp
qed

lemma length_be32_encode [simp]: "length (be32_encode x) = 4"
  by (simp add: be32_encode_def)

lemma prepend_correct:
  assumes ok: "Buffer_ok b" and room: "length xs \<le> prependableBytes b"
  obtains b' where "Buffer_prepend b xs = Some b'" "Buffer_ok b'"
    "Buffer_content b' = xs @ Buffer_content b"
proof -
  let ?i = "readIndex b - length xs"
  let ?b = "b\<lparr>readIndex := ?i, storage := blit (storage b) ?i xs\<rparr>"
  have i: "?i + length xs = readIndex b" using room by (simp add: prependableBytes_def)
  have len: "?i + length xs \<le> length (storage b)" using ok i by (simp add: Buffer_ok_def)
  have "slice (storage ?b) ?i (writeIndex b) =
        slice (storage ?b) ?i (?i + length xs) @ slice (storage ?b) (?i + length xs) (writeIndex b)"
    using ok i by (intro slice_append) (simp_all add: Buffer_ok_def)
  moreover have "slice (storage ?b) ?i (?i + length xs) = xs"
    using slice_blit_same [OF len] by simp
  moreover have "slice (storage ?b) (?i + length xs) (writeIndex b) =
                 slice (storage b) (?i + length xs) (writeIndex b)"
    using len by (simp add: slice_blit_after)
  ultimately have "Buffer_content ?b = xs @ Buffer_content b"
    using i by (simp add: Buffer_content_def Buffer_text_def)
  moreover have "Buffer_ok ?b"
    using ok len diff_le_self [of "readIndex b" "length xs"] by (auto simp: Buffer_ok_def intro: le_trans)
  moreover have "Buffer_prepend b xs = Some ?b" using room by (simp add: Buffer_prepend_def)
  ultimately show thesis using that by blast
qed

lemma peekInt32_content:
  "Buffer_ok b \<Longrightarrow> 4 \<le> length (Buffer_content b) \<Longrightarrow>
     Buffer_peekInt32 b = Some (be32_decode (take 4 (Buffer_content b)))"
  by (simp add: Buffer_peekInt32_def sizeof_int32_def length_content text_peek)

lemma readFd_correct:
  assumes ok: "Buffer_ok b" and rd: "readv (readFd_capacity b) = Inr data"
    and len: "length data \<le> readFd_capacity b"
  obtains b' where "Buffer_readFd readv b = (Inr (length data), b')" "Buffer_ok b'"
    "Buffer_content b' = Buffer_content b @ data"
proof -
  let ?w = "writableBytes b"
  let ?in = "take ?w data"
  let ?b1 = "b\<lparr>storage := blit (storage b) (writeIndex b) ?in\<rparr>"
  let ?b2 = "?b1\<lparr>writeIndex := writeIndex b + length ?in\<rparr>"
  have fits: "writeIndex b + length ?in \<le> length (storage b)"
    using ok by (auto simp: Buffer_ok_def writableBytes_def min_def)
  note b2 = append_in_place [OF ok fits]
  have eq2: "b\<lparr>storage := blit (storage b) (writeIndex b) ?in, writeIndex := writeIndex b + length ?in\<rparr> = ?b2"
    by simp
  show thesis
  proof (cases "length data \<le> ?w")
    case True
    then have "Buffer_readFd readv b = (Inr (length data), ?b2)"
      using rd by (simp add: Buffer_readFd_def beginWrite_def Let_def)
    with that b2 True show thesis by simp
  next
    case False
    then have full: "writeIndex b + length ?in = length (storage ?b1)"
      using ok fits by (simp add: Buffer_ok_def writableBytes_def)
    have "?w < extrabuf_size"
      using False len by (simp add: readFd_capacity_def Let_def split: if_splits)
    then have "Buffer_readFd readv b = (Inr (length data), Buffer_append ?b2 (drop ?w data))"
      using rd False full by (simp add: Buffer_readFd_def beginWrite_def Let_def)
    moreover have "Buffer_content (Buffer_append ?b2 (drop ?w data)) = Buffer_content b @ data"
      using buf.content_append [of ?b2] b2 by (simp add: append_assoc)
    ultimately show thesis using that buf.invar_append b2 by (metis eq2)
  qed
qed

section \<open>Every reachable buffer\<close>

text \<open>The mutators of the class as labels; a step is one call that returns.\<close>

datatype buffer_call =
    Append bytes | Retrieve nat | RetrieveAll | RetrieveUntil nat | RetrieveAsString nat
  | ReadFd "nat \<Rightarrow> errno + bytes" | ReadInt32 | Prepend bytes | PrependInt32 "32 word"

inductive Buffer_step :: "Buffer \<Rightarrow> buffer_call \<Rightarrow> Buffer \<Rightarrow> bool" where
  "Buffer_step b (Append xs) (Buffer_append b xs)"
| "Buffer_step b (Retrieve n) (Buffer_retrieve b n)"
| "Buffer_step b RetrieveAll (Buffer_retrieveAll b)"
| "Buffer_retrieveUntil b p = Some b' \<Longrightarrow> Buffer_step b (RetrieveUntil p) b'"
| "Buffer_retrieveAsString b n = Some (s, b') \<Longrightarrow> Buffer_step b (RetrieveAsString n) b'"
| "readv_ok readv \<Longrightarrow> Buffer_readFd readv b = (n, b') \<Longrightarrow> Buffer_step b (ReadFd readv) b'"
| "Buffer_readInt32 b = Some (x, b') \<Longrightarrow> Buffer_step b ReadInt32 b'"
| "Buffer_prepend b xs = Some b' \<Longrightarrow> Buffer_step b (Prepend xs) b'"
| "Buffer_prependInt32 b x = Some b' \<Longrightarrow> Buffer_step b (PrependInt32 x) b'"

lemma Buffer_prepend_ok: "Buffer_ok b \<Longrightarrow> Buffer_prepend b xs = Some b' \<Longrightarrow> Buffer_ok b'"
  by (erule prepend_correct [of b xs]) (auto simp: Buffer_prepend_def split: if_splits)

lemma Buffer_readFd_ok:
  assumes "Buffer_ok b" "readv_ok readv" "Buffer_readFd readv b = (r, b')"
  shows "Buffer_ok b'"
proof (cases "readv (readFd_capacity b)")
  case Inl
  with assms show ?thesis by (simp add: Buffer_readFd_def Let_def)
next
  case (Inr data)
  then show ?thesis
    by (rule readFd_correct [OF assms(1)]) (use assms Inr in \<open>auto simp: readv_ok_def\<close>)
qed

lemma Buffer_step_ok: "Buffer_ok b \<Longrightarrow> Buffer_step b c b' \<Longrightarrow> Buffer_ok b'"
  by (erule Buffer_step.cases)
    (auto simp: append_correct Buffer_ok_retrieve Buffer_ok_retrieveAll Buffer_retrieveUntil_def
      Buffer_retrieveAsString_def Buffer_readInt32_def Buffer_prependInt32_def
      split: if_splits option.splits dest: Buffer_prepend_ok Buffer_readFd_ok)

interpretation bufs: step_invariant Buffer_step Buffer_ok
  by unfold_locales (rule Buffer_step_ok)

section \<open>Properties\<close>

text \<open>\<open>append\<close> refines concatenation: on a well-formed buffer the readable bytes become the
  old ones followed by the data, whether the data fits, the readable region is moved to the
  front, or the vector grows; the invariant is kept, and the write stays inside the vector.\<close>

lemma Buffer_append_refines:
  assumes "Buffer_ok b"
  shows "Buffer_ok (Buffer_append b data)
       \<and> Buffer_content (Buffer_append b data) = Buffer_content b @ data
       \<and> readableBytes (Buffer_append b data) = readableBytes b + length data
       \<and> writeIndex (Buffer_append b data) \<le> length (storage (Buffer_append b data))"
  using append_correct [OF assms, of data] length_content [of "Buffer_append b data"]
    length_content [OF assms] by (simp add: Buffer_ok_def)

text \<open>No sequence of calls breaks the buffer: from the constructor on, whatever members are
  called with whatever arguments (and whatever \<open>readv\<close> delivers within its capacity), the
  read position stays at or below the write position and the write position inside the vector.\<close>

lemma Buffer_reachable_ok:
  assumes "run Buffer_step (Buffer_new n) calls b"
  shows "readIndex b \<le> writeIndex b \<and> writeIndex b \<le> length (storage b)
       \<and> kCheapPrepend \<le> length (storage b)"
  using bufs.inv_run [OF assms Buffer_ok_new] by (simp add: Buffer_ok_def)

text \<open>C35. The buffer is a FIFO: for every interleaving of appends and retrieves, the bytes taken
  out followed by the bytes left are exactly the bytes initially readable followed by those
  appended, in order.\<close>

theorem Buffer_fifo:
  assumes "Buffer_ok b"
    and "transfer Buffer_content Buffer_append Buffer_retrieve b ops = (out, b')"
  shows "out @ Buffer_content b' = Buffer_content b @ appended ops"
  using buf.transfer_stream [OF assms] by simp

theorem Buffer_fifo_witness:
  "let (out, b') = transfer Buffer_content Buffer_append Buffer_retrieve (Buffer_new 4)
                     [Inl ''abcdef'', Inr 4, Inl ''ghi'', Inr 1]
   in out @ Buffer_content b' = ''abcdefghi''"
  using Buffer_fifo [of "Buffer_new 4" "[Inl ''abcdef'', Inr 4, Inl ''ghi'', Inr 1]"]
  by (auto simp: appended_def split: prod.splits)

text \<open>\<open>readFd\<close> loses nothing: when the system call delivers data within the capacity offered,
  the caller sees its length and the buffer gains exactly that data, also when part of it
  landed in the stack buffer; an error leaves the buffer as it was.\<close>

lemma Buffer_readFd_delivers:
  assumes "Buffer_ok b" "readv_ok readv"
  shows "case readv (readFd_capacity b) of
           Inl err \<Rightarrow> Buffer_readFd readv b = (Inl err, b)
         | Inr data \<Rightarrow> fst (Buffer_readFd readv b) = Inr (length data)
             \<and> Buffer_ok (snd (Buffer_readFd readv b))
             \<and> Buffer_content (snd (Buffer_readFd readv b)) = Buffer_content b @ data"
proof (cases "readv (readFd_capacity b)")
  case (Inl err)
  then show ?thesis by (simp add: Buffer_readFd_def Let_def)
next
  case (Inr data)
  moreover have "length data \<le> readFd_capacity b" using assms(2) Inr by (simp add: readv_ok_def)
  ultimately show ?thesis by (auto elim: readFd_correct [OF assms(1), of readv])
qed

text \<open>A length field put in front of the readable bytes is read back: with four bytes of
  room, \<open>prependInt32\<close> then \<open>readInt32\<close> gives the number and leaves the payload, and
  \<open>peekInt32\<close> in between does not consume.\<close>

lemma Buffer_int32_roundtrip:
  assumes "Buffer_ok b" "4 \<le> prependableBytes b"
  shows "\<exists>b1 b2. Buffer_prependInt32 b x = Some b1 \<and> Buffer_peekInt32 b1 = Some x
           \<and> Buffer_readInt32 b1 = Some (x, b2) \<and> Buffer_ok b2
           \<and> Buffer_content b2 = Buffer_content b"
proof -
  from assms have "length (be32_encode x) \<le> prependableBytes b" by simp
  with assms(1) obtain b1 where b1: "Buffer_prepend b (be32_encode x) = Some b1" "Buffer_ok b1"
    "Buffer_content b1 = be32_encode x @ Buffer_content b" by (rule prepend_correct)
  from b1 have p: "Buffer_peekInt32 b1 = Some x"
    by (simp add: peekInt32_content be32_decode_encode)
  with b1 buf.queue_laws show ?thesis
    by (auto simp: Buffer_prependInt32_def Buffer_readInt32_def sizeof_int32_def)
qed

text \<open>Line framing: \<open>findCRLF\<close> answers null exactly when no CRLF is readable; otherwise it
  points behind the first line, the text up to it is that line, and retrieving two bytes past
  it leaves exactly the bytes after the line, with no assertion failing.\<close>

lemma Buffer_line_framing:
  assumes "Buffer_ok b"
  shows "case Buffer_findCRLF b of
           None \<Rightarrow> (\<forall>i. take 2 (drop i (Buffer_content b)) \<noteq> kCRLF)
         | Some crlf \<Rightarrow> (\<exists>line rest b'. Buffer_content b = line @ kCRLF @ rest
             \<and> (\<forall>i < length line. take 2 (drop i (line @ kCRLF)) \<noteq> kCRLF)
             \<and> Buffer_text b (peek b) crlf = line
             \<and> Buffer_retrieveUntil b (crlf + 2) = Some b' \<and> Buffer_ok b' \<and> Buffer_content b' = rest)"
proof (cases "Buffer_findCRLF b")
  case None
  with bufl.find_None [OF assms] split_line_None_iff show ?thesis by simp
next
  case (Some crlf)
  from assms Some show ?thesis
  proof (rule line_content)
    fix line rest
    assume *: "split_line (Buffer_content b) = Some (line, rest)"
      "Buffer_content b = line @ kCRLF @ rest" "Buffer_text b (peek b) crlf = line"
      "Buffer_retrieveUntil b (crlf + 2) = Some (Buffer_retrieve b (length line + 2))"
      "Buffer_content (Buffer_retrieve b (length line + 2)) = rest"
    then have "\<forall>i < length line. take 2 (drop i (line @ kCRLF)) \<noteq> kCRLF"
      using std_search_least [of _ "line @ kCRLF" kCRLF]
      by (simp add: split_line_Some_iff kCRLF_def numeral_2_eq_2)
    with * Some buf.invar_retrieve [OF assms] show ?thesis by auto
  qed
qed

end
