(* ===== verification/Channel.thy ===== *)
theory Channel
  imports AegisPrelude
begin

unbundle bit_operations_syntax

text \<open>
  File-descriptor channels and the epoll wrapper: \<open>src/src/net/Channel.h\<close>, \<open>Channel.cpp\<close>,
  \<open>Epoll.h\<close> and \<open>Epoll.cpp\<close>. A channel is a record of its data members; a callback member is
  represented by whether it is set. Every \<open>epoll_ctl\<close> the code issues is an element of the
  call list an operation returns, so the protocol between the library and the kernel is the
  concatenation of these lists; the kernel itself is not modelled. Event dispatch returns the
  callbacks it invokes, in order.
\<close>

section \<open>Event masks\<close>

type_synonym mask = "32 word"

definition EPOLLIN :: mask where "EPOLLIN = 0x001"
definition EPOLLPRI :: mask where "EPOLLPRI = 0x002"
definition EPOLLOUT :: mask where "EPOLLOUT = 0x004"
definition EPOLLERR :: mask where "EPOLLERR = 0x008"
definition EPOLLHUP :: mask where "EPOLLHUP = 0x010"
definition EPOLLRDHUP :: mask where "EPOLLRDHUP = 0x2000"
definition EPOLLET :: mask where "EPOLLET = 0x80000000"

lemmas epoll_bits =
  EPOLLIN_def EPOLLPRI_def EPOLLOUT_def EPOLLERR_def EPOLLHUP_def EPOLLRDHUP_def EPOLLET_def

section \<open>State\<close>

record Channel =
  ch_fd :: fd
  ch_events :: mask
  ch_revents :: mask
  ch_inEpoll :: bool
  ch_tied :: bool
  ch_readCallback :: bool
  ch_writeCallback :: bool
  ch_closeCallback :: bool
  ch_errorCallback :: bool

definition Channel_new :: "fd \<Rightarrow> Channel" where
  "Channel_new fd =
     \<lparr>ch_fd = fd, ch_events = 0, ch_revents = 0, ch_inEpoll = False, ch_tied = False,
      ch_readCallback = False, ch_writeCallback = False, ch_closeCallback = False,
      ch_errorCallback = False\<rparr>"

text \<open>\<open>epoll_ctl(epfd, op, fd, &ev)\<close>, with the events of \<open>ev\<close> (0 where it is null).\<close>

datatype ctl_op = EPOLL_CTL_ADD | EPOLL_CTL_MOD | EPOLL_CTL_DEL

type_synonym ctl_call = "ctl_op \<times> fd \<times> mask"

section \<open>Epoll\<close>

text \<open>The descriptor of the epoll instance, -1 where \<open>epoll_create1\<close> failed (it only reports that); the array of
  events is the room \<open>poll\<close> offers to \<open>epoll_wait\<close>. The destructor returns the descriptors it closes.\<close>

definition MAX_EVENTS :: nat where "MAX_EVENTS = 1000"

record Epoll =
  ep_epfd :: fd
  ep_events :: nat

definition Epoll_new :: "errno + fd \<Rightarrow> Epoll" where
  "Epoll_new created = \<lparr>ep_epfd = (case created of Inr epfd \<Rightarrow> epfd | Inl err \<Rightarrow> -1), ep_events = MAX_EVENTS\<rparr>"

definition Epoll_destroy :: "Epoll \<Rightarrow> fd list" where
  "Epoll_destroy e = (if ep_epfd e \<noteq> -1 then [ep_epfd e] else [])"

definition Epoll_updateChannel :: "Channel \<Rightarrow> Channel \<times> ctl_call list" where
  "Epoll_updateChannel c =
     (if \<not> ch_inEpoll c
      then (c\<lparr>ch_inEpoll := True\<rparr>, [(EPOLL_CTL_ADD, ch_fd c, ch_events c)])
      else (c, [(EPOLL_CTL_MOD, ch_fd c, ch_events c)]))"

definition Epoll_removeChannel :: "Channel \<Rightarrow> Channel \<times> ctl_call list" where
  "Epoll_removeChannel c =
     (if ch_inEpoll c
      then (c\<lparr>ch_inEpoll := False\<rparr>, [(EPOLL_CTL_DEL, ch_fd c, 0)])
      else (c, []))"

text \<open>
  \<open>poll\<close>: the outcome of \<open>epoll_wait\<close> is an error or the ready entries, each the channel
  stored in \<open>data.ptr\<close> with its event mask; channels live in a store indexed by address. The
  result is the updated store and the extended list of active channels.
\<close>

fun poll_entries :: "('a \<Rightarrow> Channel) \<Rightarrow> 'a list \<Rightarrow> ('a \<times> mask) list \<Rightarrow> ('a \<Rightarrow> Channel) \<times> 'a list" where
  "poll_entries chs active [] = (chs, active)"
| "poll_entries chs active ((ptr, events) # es) =
     poll_entries (chs(ptr := (chs ptr)\<lparr>ch_revents := events\<rparr>)) (active @ [ptr]) es"

definition Epoll_poll ::
    "errno + ('a \<times> mask) list \<Rightarrow> ('a \<Rightarrow> Channel) \<Rightarrow> 'a list \<Rightarrow> ('a \<Rightarrow> Channel) \<times> 'a list" where
  "Epoll_poll ready chs active =
     (case ready of Inl err \<Rightarrow> (chs, active) | Inr es \<Rightarrow> poll_entries chs active es)"

section \<open>Channel operations\<close>

definition Channel_update :: "Channel \<Rightarrow> Channel \<times> ctl_call list" where
  "Channel_update c = Epoll_updateChannel c"

definition Channel_enableReading :: "Channel \<Rightarrow> Channel \<times> ctl_call list" where
  "Channel_enableReading c = Channel_update (c\<lparr>ch_events := ch_events c OR EPOLLIN\<rparr>)"

definition Channel_disableReading :: "Channel \<Rightarrow> Channel \<times> ctl_call list" where
  "Channel_disableReading c = Channel_update (c\<lparr>ch_events := ch_events c AND NOT EPOLLIN\<rparr>)"

definition Channel_enableWriting :: "Channel \<Rightarrow> Channel \<times> ctl_call list" where
  "Channel_enableWriting c = Channel_update (c\<lparr>ch_events := ch_events c OR EPOLLOUT\<rparr>)"

definition Channel_disableWriting :: "Channel \<Rightarrow> Channel \<times> ctl_call list" where
  "Channel_disableWriting c = Channel_update (c\<lparr>ch_events := ch_events c AND NOT EPOLLOUT\<rparr>)"

definition Channel_disableAll :: "Channel \<Rightarrow> Channel \<times> ctl_call list" where
  "Channel_disableAll c = Channel_update (c\<lparr>ch_events := 0\<rparr>)"

definition Channel_isWriting :: "Channel \<Rightarrow> bool" where
  "Channel_isWriting c \<longleftrightarrow> ch_events c AND EPOLLOUT \<noteq> 0"

definition Channel_isReading :: "Channel \<Rightarrow> bool" where
  "Channel_isReading c \<longleftrightarrow> ch_events c AND EPOLLIN \<noteq> 0"

definition Channel_remove :: "Channel \<Rightarrow> Channel \<times> ctl_call list" where
  "Channel_remove c =
     (let (c1, calls1) = Channel_disableAll c; (c2, calls2) = Epoll_removeChannel c1
      in (c2, calls1 @ calls2))"

definition Channel_tie :: "Channel \<Rightarrow> Channel" where
  "Channel_tie c = c\<lparr>ch_tied := True\<rparr>"

definition Channel_setReadCallback :: "Channel \<Rightarrow> bool \<Rightarrow> Channel" where
  "Channel_setReadCallback c isSet = c\<lparr>ch_readCallback := isSet\<rparr>"

definition Channel_setWriteCallback :: "Channel \<Rightarrow> bool \<Rightarrow> Channel" where
  "Channel_setWriteCallback c isSet = c\<lparr>ch_writeCallback := isSet\<rparr>"

definition Channel_setCloseCallback :: "Channel \<Rightarrow> bool \<Rightarrow> Channel" where
  "Channel_setCloseCallback c isSet = c\<lparr>ch_closeCallback := isSet\<rparr>"

definition Channel_setErrorCallback :: "Channel \<Rightarrow> bool \<Rightarrow> Channel" where
  "Channel_setErrorCallback c isSet = c\<lparr>ch_errorCallback := isSet\<rparr>"

datatype event_callback = CloseCallback | ErrorCallback | ReadCallback | WriteCallback

definition Channel_handleEventWithGuard :: "Channel \<Rightarrow> event_callback list" where
  "Channel_handleEventWithGuard c =
     (if ch_revents c AND EPOLLHUP \<noteq> 0 \<and> \<not> ch_revents c AND EPOLLIN \<noteq> 0 \<and> ch_closeCallback c
      then [CloseCallback] else []) @
     (if ch_revents c AND EPOLLERR \<noteq> 0 \<and> ch_errorCallback c then [ErrorCallback] else []) @
     (if ch_revents c AND (EPOLLIN OR EPOLLPRI OR EPOLLRDHUP) \<noteq> 0 \<and> ch_readCallback c
      then [ReadCallback] else []) @
     (if ch_revents c AND EPOLLOUT \<noteq> 0 \<and> ch_writeCallback c then [WriteCallback] else [])"

text \<open>\<open>alive\<close> is whether \<open>tie_.lock()\<close> still finds the owner.\<close>

definition Channel_handleEvent :: "bool \<Rightarrow> Channel \<Rightarrow> event_callback list" where
  "Channel_handleEvent alive c =
     (if ch_tied c then (if alive then Channel_handleEventWithGuard c else [])
      else Channel_handleEventWithGuard c)"

section \<open>The protocol with the kernel\<close>

text \<open>
  What the kernel knows of one descriptor after a list of calls, or \<open>None\<close> where a call is
  one that \<open>epoll_ctl\<close> is documented to refuse: adding a registered descriptor, modifying or
  deleting an unregistered one.
\<close>

fun ctl_replay :: "fd \<Rightarrow> mask option \<Rightarrow> ctl_call list \<Rightarrow> mask option option" where
  "ctl_replay fd reg [] = Some reg"
| "ctl_replay fd reg ((op, fd', m) # calls) =
     (if fd' \<noteq> fd then ctl_replay fd reg calls else
      case (op, reg) of
        (EPOLL_CTL_ADD, None) \<Rightarrow> ctl_replay fd (Some m) calls
      | (EPOLL_CTL_MOD, Some _) \<Rightarrow> ctl_replay fd (Some m) calls
      | (EPOLL_CTL_DEL, Some _) \<Rightarrow> ctl_replay fd None calls
      | _ \<Rightarrow> None)"

text \<open>What a channel believes the kernel knows.\<close>

definition Channel_registered :: "Channel \<Rightarrow> mask option" where
  "Channel_registered c = (if ch_inEpoll c then Some (ch_events c) else None)"

datatype channel_call =
  EnableReading | DisableReading | EnableWriting | DisableWriting | DisableAll | Remove

fun Channel_do :: "channel_call \<Rightarrow> Channel \<Rightarrow> Channel \<times> ctl_call list" where
  "Channel_do EnableReading c = Channel_enableReading c"
| "Channel_do DisableReading c = Channel_disableReading c"
| "Channel_do EnableWriting c = Channel_enableWriting c"
| "Channel_do DisableWriting c = Channel_disableWriting c"
| "Channel_do DisableAll c = Channel_disableAll c"
| "Channel_do Remove c = Channel_remove c"

lemmas channel_ops =
  Channel_enableReading_def Channel_disableReading_def Channel_enableWriting_def
  Channel_disableWriting_def Channel_disableAll_def Channel_remove_def
  Channel_update_def Epoll_updateChannel_def Epoll_removeChannel_def

section \<open>Interface\<close>

text \<open>
  What an owner of a channel relies on: each operation moves the kernel's view of the
  descriptor from what the channel believed to what it believes afterwards, and leaves every
  other descriptor alone.
\<close>

locale registration =
  fixes fd_of :: "'c \<Rightarrow> fd"
    and believed :: "'c \<Rightarrow> mask option"
    and act :: "'a \<Rightarrow> 'c \<Rightarrow> 'c \<times> ctl_call list"
  assumes fd_act: "fd_of (fst (act a c)) = fd_of c"
    and replay_act: "ctl_replay (fd_of c) (believed c) (snd (act a c)) = Some (believed (fst (act a c)))"
    and other_act: "(op, fd, m) \<in> set (snd (act a c)) \<Longrightarrow> fd = fd_of c"

lemma ctl_replay_append:
  "ctl_replay fd reg (xs @ ys) = Option.bind (ctl_replay fd reg xs) (\<lambda>reg'. ctl_replay fd reg' ys)"
  by (induction fd reg xs rule: ctl_replay.induct) (auto split: ctl_op.splits option.splits)

context registration
begin

lemma acts_replay:
  assumes "run_ops act as c = (c', calls)"
  shows "fd_of c' = fd_of c \<and> ctl_replay (fd_of c) (believed c) calls = Some (believed c')"
  using assms
proof (induction as arbitrary: c c' calls)
  case Nil
  then show ?case by simp
next
  case (Cons a as)
  from Cons.prems obtain c1 k1 k2 where a: "act a c = (c1, k1)"
    and r: "run_ops act as c1 = (c', k2)" and k: "calls = k1 @ k2"
    by (auto simp: Let_def split: prod.splits)
  from Cons.IH [OF r] fd_act [of a c] replay_act [of c a] a k show ?case
    by (simp add: ctl_replay_append)
qed

lemma acts_other:
  assumes "run_ops act as c = (c', calls)" "(op, fd, m) \<in> set calls"
  shows "fd = fd_of c"
  using assms
proof (induction as arbitrary: c calls)
  case (Cons a as)
  from Cons.prems(1) obtain c1 k1 k2 where a: "act a c = (c1, k1)"
    and r: "run_ops act as c1 = (c', k2)" and k: "calls = k1 @ k2"
    by (auto simp: Let_def split: prod.splits)
  from Cons.IH [OF r] Cons.prems(2) fd_act [of a c] other_act [of op fd m a c] a k show ?case by auto
qed simp

end

section \<open>Lemmas\<close>

lemma isWriting_bits [simp]:
  "(x OR EPOLLOUT) AND EPOLLOUT \<noteq> 0" "(x AND NOT EPOLLOUT) AND EPOLLOUT = 0"
  "(x OR EPOLLIN) AND EPOLLOUT = x AND EPOLLOUT" "(x AND NOT EPOLLIN) AND EPOLLOUT = x AND EPOLLOUT"
  by (simp_all add: epoll_bits bit.conj_disj_distrib2 and.assoc)

lemma isReading_bits [simp]:
  "(x OR EPOLLIN) AND EPOLLIN \<noteq> 0" "(x AND NOT EPOLLIN) AND EPOLLIN = 0"
  "(x OR EPOLLOUT) AND EPOLLIN = x AND EPOLLIN" "(x AND NOT EPOLLOUT) AND EPOLLIN = x AND EPOLLIN"
  by (simp_all add: epoll_bits bit.conj_disj_distrib2 and.assoc)

lemma Channel_do_replay:
  "ctl_replay (ch_fd c) (Channel_registered c) (snd (Channel_do a c)) =
     Some (Channel_registered (fst (Channel_do a c)))"
  by (cases a) (auto simp: channel_ops Channel_registered_def Let_def split: prod.splits)

interpretation chan: registration ch_fd Channel_registered Channel_do
proof
  show "ch_fd (fst (Channel_do a c)) = ch_fd c" for a c
    by (cases a) (auto simp: channel_ops Let_def split: prod.splits)
  show "ctl_replay (ch_fd c) (Channel_registered c) (snd (Channel_do a c)) =
     Some (Channel_registered (fst (Channel_do a c)))" for a c
    by (rule Channel_do_replay)
  show "(op, fd, m) \<in> set (snd (Channel_do a c)) \<Longrightarrow> fd = ch_fd c" for op fd m a c
    by (cases a) (auto simp: channel_ops Let_def split: prod.splits if_splits)
qed

text \<open>Only the two readiness bits are ever asked for.\<close>

definition other_bits :: mask where "other_bits = NOT (EPOLLIN OR EPOLLOUT)"

definition level_triggered :: "Channel \<Rightarrow> bool" where
  "level_triggered c \<longleftrightarrow> ch_events c AND other_bits = 0"

lemma level_bits:
  assumes "x AND other_bits = 0"
  shows "(x OR EPOLLIN) AND other_bits = 0" "(x OR EPOLLOUT) AND other_bits = 0"
    and "(x AND NOT EPOLLIN) AND other_bits = 0" "(x AND NOT EPOLLOUT) AND other_bits = 0"
proof -
  have "EPOLLIN AND other_bits = 0" "EPOLLOUT AND other_bits = 0"
    by (simp_all add: other_bits_def epoll_bits)
  with assms show "(x OR EPOLLIN) AND other_bits = 0" "(x OR EPOLLOUT) AND other_bits = 0"
    by (simp_all add: bit.conj_disj_distrib2)
  have "(x AND y) AND other_bits = 0" for y
  proof -
    have "(x AND y) AND other_bits = (x AND other_bits) AND y" by (simp only: ac_simps)
    then show ?thesis by (simp only: assms) simp
  qed
  then show "(x AND NOT EPOLLIN) AND other_bits = 0" "(x AND NOT EPOLLOUT) AND other_bits = 0"
    by blast+
qed

interpretation chan_level: op_invariant Channel_do level_triggered
proof
  show "level_triggered c \<Longrightarrow> level_triggered (fst (Channel_do a c))" for c a
    by (cases a) (auto simp: channel_ops level_triggered_def level_bits Let_def split: prod.splits)
qed

lemma mask_subset_zero:
  fixes x :: mask
  assumes "x AND m = 0" "k AND m = k"
  shows "x AND k = 0"
proof -
  have "x AND k = x AND (k AND m)" by (simp only: assms)
  also have "\<dots> = (x AND m) AND k" by (simp only: ac_simps)
  finally show ?thesis by (simp only: assms) simp
qed

section \<open>Properties\<close>

text \<open>C38. The channel and the kernel agree: for every sequence of channel operations from the
  constructor on, no \<open>epoll_ctl\<close> is one the kernel refuses (no second ADD, no MOD or DEL of an
  unregistered descriptor), the kernel ends up with the events the channel holds exactly when
  the channel believes itself registered, and no other descriptor is touched.\<close>

theorem Channel_registration_agrees:
  "let (c, calls) = run_ops Channel_do as (Channel_new fd) in
     ctl_replay fd None calls = Some (if ch_inEpoll c then Some (ch_events c) else None)
     \<and> (\<forall>x. x \<in> set calls \<longrightarrow> fst (snd x) = fd)"
proof -
  obtain c calls where r: "run_ops Channel_do as (Channel_new fd) = (c, calls)" by fastforce
  have new: "ch_fd (Channel_new fd) = fd" "Channel_registered (Channel_new fd) = None"
    by (simp_all add: Channel_new_def Channel_registered_def)
  show ?thesis
    using chan.acts_replay [OF r] chan.acts_other [OF r] new r
    by (auto simp: Channel_registered_def)
qed

theorem Channel_registration_agrees_witness:
  "ctl_replay 5 None (snd (run_ops Channel_do [EnableReading, EnableWriting, Remove] (Channel_new 5))) = Some None"
proof -
  have "ch_inEpoll (fst (run_ops Channel_do [EnableReading, EnableWriting, Remove] (Channel_new 5))) = False"
    by (simp add: channel_ops Channel_new_def)
  then show ?thesis
    using Channel_registration_agrees [of "[EnableReading, EnableWriting, Remove]" 5]
    by (auto split: prod.splits)
qed

text \<open>Level-triggered for both directions: whatever operations ran, the interest mask holds no
  bit but \<open>EPOLLIN\<close> and \<open>EPOLLOUT\<close>; in particular \<open>EPOLLET\<close> is never set.\<close>

lemma Channel_level_triggered:
  "let c = fst (run_ops Channel_do as (Channel_new fd)) in
     ch_events c AND NOT (EPOLLIN OR EPOLLOUT) = 0 \<and> ch_events c AND EPOLLET = 0"
proof -
  have "level_triggered (fst (run_ops Channel_do as (Channel_new fd)))"
    by (rule chan_level.inv_ops) (simp add: level_triggered_def Channel_new_def)
  moreover have "EPOLLET AND other_bits = EPOLLET" by (simp add: other_bits_def epoll_bits)
  ultimately show ?thesis
    unfolding Let_def other_bits_def [symmetric] level_triggered_def
    by (blast intro: mask_subset_zero)
qed

text \<open>Dispatch: a channel whose owner is gone runs no callback; otherwise the callbacks run at
  most once each, in the order close, error, read, write, and the close callback runs only on a
  hang-up without readable data, so buffered input is read before the connection is closed.\<close>

lemma Channel_dispatch:
  "(ch_tied c \<longrightarrow> Channel_handleEvent False c = [])
   \<and> subseq (Channel_handleEvent alive c) [CloseCallback, ErrorCallback, ReadCallback, WriteCallback]
   \<and> (CloseCallback \<in> set (Channel_handleEvent alive c) \<longrightarrow>
        ch_revents c AND EPOLLHUP \<noteq> 0 \<and> ch_revents c AND EPOLLIN = 0)
   \<and> (ch_revents c AND EPOLLIN \<noteq> 0 \<and> ch_readCallback c \<and> (ch_tied c \<longrightarrow> alive) \<longrightarrow>
        ReadCallback \<in> set (Channel_handleEvent alive c))"
proof -
  have "ch_revents c AND EPOLLIN = 0" if "ch_revents c AND (EPOLLIN OR EPOLLPRI OR EPOLLRDHUP) = 0"
    using that by (rule mask_subset_zero) (simp add: epoll_bits)
  then show ?thesis
    by (auto simp: Channel_handleEvent_def Channel_handleEventWithGuard_def)
qed

end
