(* ===== verification/InetAddress.thy ===== *)
theory InetAddress
  imports AegisPrelude
begin

unbundle bit_operations_syntax

text \<open>
  IPv4 endpoints: \<open>src/src/net/InetAddress.h\<close> and \<open>InetAddress.cpp\<close>. The record is the
  \<open>sockaddr_in\<close> member; the port is kept in network byte order as in the source. The C
  library's text conversions \<open>inet_pton\<close> and \<open>inet_ntop\<close> and the system call
  \<open>getsockname\<close> are parameters.
\<close>

record InetAddress =
  sin_family :: "16 word"
  sin_port :: "16 word"
  sin_addr :: "32 word"

definition AF_INET :: "16 word" where "AF_INET = 2"

text \<open>\<open>htons\<close> and \<open>ntohs\<close> on a little-endian host swap the two bytes.\<close>

definition htons :: "16 word \<Rightarrow> 16 word" where
  "htons x = push_bit 8 x OR drop_bit 8 x"

definition ntohs :: "16 word \<Rightarrow> 16 word" where
  "ntohs x = push_bit 8 x OR drop_bit 8 x"

definition InetAddress_zero :: InetAddress where
  "InetAddress_zero = \<lparr>sin_family = 0, sin_port = 0, sin_addr = 0\<rparr>"

definition InetAddress_new :: "(bytes \<Rightarrow> 32 word option) \<Rightarrow> bytes \<Rightarrow> 16 word \<Rightarrow> InetAddress" where
  "InetAddress_new inet_pton ip port =
     (let a = InetAddress_zero\<lparr>sin_family := AF_INET, sin_port := htons port\<rparr>
      in case inet_pton ip of Some x \<Rightarrow> a\<lparr>sin_addr := x\<rparr> | None \<Rightarrow> a)"

definition InetAddress_setAddr :: "InetAddress \<Rightarrow> InetAddress \<Rightarrow> InetAddress" where
  "InetAddress_setAddr self addr = addr"

definition InetAddress_toIpPort :: "(32 word \<Rightarrow> bytes) \<Rightarrow> InetAddress \<Rightarrow> bytes" where
  "InetAddress_toIpPort inet_ntop a =
     inet_ntop (sin_addr a) @ '':'' @ to_string (unat (ntohs (sin_port a)))"

text \<open>The outcome of \<open>getsockname\<close> is ignored; on failure the address stays zero.\<close>

definition InetAddress_getLocalAddr :: "(fd \<Rightarrow> InetAddress option) \<Rightarrow> fd \<Rightarrow> InetAddress" where
  "InetAddress_getLocalAddr getsockname sockfd =
     (case getsockname sockfd of Some a \<Rightarrow> a | None \<Rightarrow> InetAddress_zero)"

lemma ntohs_htons: "ntohs (htons x) = x"
  by (rule bit_word_eqI)
    (auto simp: ntohs_def htons_def bit_or_iff bit_push_bit_iff bit_drop_bit_eq not_less
      dest: bit_imp_le_length)

text \<open>An endpoint built from text prints as that text: when the C library's two conversions
  invert each other on the address, \<open>toIpPort\<close> of \<open>InetAddress(ip, port)\<close> is
  \<open>ip:port\<close> for every port, through the two byte-order conversions.\<close>

lemma InetAddress_roundtrip:
  assumes "inet_pton ip = Some x" "inet_ntop x = ip"
  shows "InetAddress_toIpPort inet_ntop (InetAddress_new inet_pton ip port) =
           ip @ '':'' @ to_string (unat port)"
  using assms
  by (simp add: InetAddress_toIpPort_def InetAddress_new_def InetAddress_zero_def ntohs_htons)

end
