(* ===== verification/TcpConnection.thy ===== *)
theory TcpConnection
  imports Buffer Channel InetAddress
begin

text \<open>
  One TCP connection: \<open>src/src/tcp/TcpConnection.h\<close> and \<open>TcpConnection.cpp\<close>. The record has
  the data members; a callback member is represented by whether it is set. An operation takes
  the outcomes of the system calls it makes as parameters, and returns the new connection and
  the list of what it did, in order: \<open>epoll_ctl\<close> calls, bytes the socket accepted, file bytes
  sent, descriptors closed, the half-close, user callbacks invoked, tasks queued on the loop.
  \<open>None\<close> is an abort: \<open>assertInLoopThread\<close> on another thread (\<open>inLoop\<close> is what
  \<open>isInLoopThread\<close> answers), a failed \<open>assert\<close>, or the exception of an empty
  \<open>std::function\<close>. A user callback is the last statement of its member or runs when the
  state is \<open>kDisconnected\<close>, where every member a user can call leaves the connection alone;
  what the user's code does is therefore a sequence of later operations. The \<open>std::any\<close>
  member is \<open>None\<close> or the identity of the object it holds.
\<close>

section \<open>State\<close>

datatype StateE = kDisconnected | kConnecting | kConnected | kDisconnecting

record TcpConnection =
  tc_fileFd :: fd
  tc_fileSize :: nat
  tc_fileOffset :: nat
  tc_lowWaterMark :: nat
  tc_highWaterMark :: nat
  tc_aboveHighWaterMark :: bool
  tc_name :: bytes
  tc_state :: StateE
  tc_channel :: Channel
  tc_localAddr :: InetAddress
  tc_peerAddr :: InetAddress
  tc_connectionCallback :: bool
  tc_messageCallback :: bool
  tc_writeCompleteCallback :: bool
  tc_lowWaterMarkCallback :: bool
  tc_highWaterMarkCallback :: bool
  tc_closeCallback :: bool
  tc_inputBuffer :: Buffer
  tc_outputBuffer :: Buffer
  tc_context :: "nat option"

definition kDefaultLowWaterMark :: nat where "kDefaultLowWaterMark = 32 * 1024 * 1024"
definition kDefaultHighWaterMark :: nat where "kDefaultHighWaterMark = 64 * 1024 * 1024"

text \<open>Tasks bound to the connection in the loop's queue, and the observable actions.\<close>

datatype conn_task =
    WriteCompleteTask | HighWaterTask nat | LowWaterTask nat
  | SendTask bytes | SendFileTask fd nat | ShutdownTask | ForceCloseTask

datatype conn_action =
    Ctl ctl_call
  | Sent bytes
  | SentFile fd nat nat
  | CloseFd fd
  | ShutdownWrite
  | SetKeepAlive fd
  | CallConnection | CallMessage | CallClose
  | QueueInLoop conn_task

definition TcpConnection_new ::
    "bytes \<Rightarrow> fd \<Rightarrow> InetAddress \<Rightarrow> InetAddress \<Rightarrow> TcpConnection \<times> conn_action list" where
  "TcpConnection_new nameArg sockfd localAddr peerAddr =
     (\<lparr>tc_fileFd = -1, tc_fileSize = 0, tc_fileOffset = 0,
       tc_lowWaterMark = kDefaultLowWaterMark, tc_highWaterMark = kDefaultHighWaterMark,
       tc_aboveHighWaterMark = False, tc_name = nameArg, tc_state = kConnecting,
       tc_channel =
         Channel_setErrorCallback (Channel_setCloseCallback (Channel_setWriteCallback
           (Channel_setReadCallback (Channel_new sockfd) True) True) True) True,
       tc_localAddr = localAddr, tc_peerAddr = peerAddr,
       tc_connectionCallback = False, tc_messageCallback = False,
       tc_writeCompleteCallback = False, tc_lowWaterMarkCallback = False,
       tc_highWaterMarkCallback = False, tc_closeCallback = False,
       tc_inputBuffer = Buffer_new kInitialSize, tc_outputBuffer = Buffer_new kInitialSize,
       tc_context = None\<rparr>,
      [SetKeepAlive sockfd])"

definition TcpConnection_connected :: "TcpConnection \<Rightarrow> bool" where
  "TcpConnection_connected c \<longleftrightarrow> tc_state c = kConnected"

definition TcpConnection_disconnected :: "TcpConnection \<Rightarrow> bool" where
  "TcpConnection_disconnected c \<longleftrightarrow> tc_state c = kDisconnected"

definition TcpConnection_getFd :: "TcpConnection \<Rightarrow> fd" where
  "TcpConnection_getFd c = ch_fd (tc_channel c)"

definition TcpConnection_setConnectionCallback :: "bool \<Rightarrow> TcpConnection \<Rightarrow> TcpConnection" where
  "TcpConnection_setConnectionCallback isSet c = c\<lparr>tc_connectionCallback := isSet\<rparr>"

definition TcpConnection_setMessageCallback :: "bool \<Rightarrow> TcpConnection \<Rightarrow> TcpConnection" where
  "TcpConnection_setMessageCallback isSet c = c\<lparr>tc_messageCallback := isSet\<rparr>"

definition TcpConnection_setWriteCompleteCallback :: "bool \<Rightarrow> TcpConnection \<Rightarrow> TcpConnection" where
  "TcpConnection_setWriteCompleteCallback isSet c = c\<lparr>tc_writeCompleteCallback := isSet\<rparr>"

definition TcpConnection_setCloseCallback :: "bool \<Rightarrow> TcpConnection \<Rightarrow> TcpConnection" where
  "TcpConnection_setCloseCallback isSet c = c\<lparr>tc_closeCallback := isSet\<rparr>"

definition TcpConnection_setContext :: "nat option \<Rightarrow> TcpConnection \<Rightarrow> TcpConnection" where
  "TcpConnection_setContext context c = c\<lparr>tc_context := context\<rparr>"

section \<open>Operations\<close>

type_synonym conn_result = "(TcpConnection \<times> conn_action list) option"

text \<open>A channel operation on the connection's channel.\<close>

definition with_channel ::
    "(Channel \<Rightarrow> Channel \<times> ctl_call list) \<Rightarrow> TcpConnection \<Rightarrow> TcpConnection \<times> conn_action list" where
  "with_channel f c =
     (let (ch, calls) = f (tc_channel c) in (c\<lparr>tc_channel := ch\<rparr>, map Ctl calls))"

definition TcpConnection_setOutputBufferWatermarks ::
    "nat \<Rightarrow> nat \<Rightarrow> bool \<Rightarrow> bool \<Rightarrow> TcpConnection \<Rightarrow> conn_result" where
  "TcpConnection_setOutputBufferWatermarks low high lowCallback highCallback c =
     (if low < high
      then Some (c\<lparr>tc_lowWaterMark := low, tc_highWaterMark := high,
                   tc_lowWaterMarkCallback := lowCallback,
                   tc_highWaterMarkCallback := highCallback\<rparr>, [])
      else None)"

definition TcpConnection_connectEstablished :: "bool \<Rightarrow> TcpConnection \<Rightarrow> conn_result" where
  "TcpConnection_connectEstablished inLoop c =
     (if \<not> inLoop then None
      else if tc_state c \<noteq> kConnecting then None
      else
        let c1 = c\<lparr>tc_state := kConnected, tc_channel := Channel_tie (tc_channel c)\<rparr>;
            (c2, acts) = with_channel Channel_enableReading c1
        in Some (c2, acts @ (if tc_connectionCallback c2 then [CallConnection] else [])))"

definition TcpConnection_shutdownInLoop :: "bool \<Rightarrow> TcpConnection \<Rightarrow> conn_result" where
  "TcpConnection_shutdownInLoop inLoop c =
     (if \<not> inLoop then None
      else Some (c, if \<not> Channel_isWriting (tc_channel c) then [ShutdownWrite] else []))"

definition TcpConnection_handleClose :: "bool \<Rightarrow> TcpConnection \<Rightarrow> conn_result" where
  "TcpConnection_handleClose inLoop c =
     (if \<not> inLoop then None
      else if tc_state c = kDisconnected then Some (c, [])
      else
        let (c1, acts1) = (if 0 \<le> tc_fileFd c then (c\<lparr>tc_fileFd := -1\<rparr>, [CloseFd (tc_fileFd c)]) else (c, []));
            c2 = c1\<lparr>tc_state := kDisconnected\<rparr>;
            (c3, acts3) = with_channel Channel_disableAll c2
        in Some (c3, acts1 @ acts3
             @ (if tc_connectionCallback c3 then [CallConnection] else [])
             @ (if tc_closeCallback c3 then [CallClose] else [])))"

text \<open>\<open>handleError\<close> reads \<open>SO_ERROR\<close> and logs it; it does not touch the connection.\<close>

definition TcpConnection_handleError :: "TcpConnection \<Rightarrow> conn_result" where
  "TcpConnection_handleError c = Some (c, [])"

definition TcpConnection_handleRead ::
    "bool \<Rightarrow> (nat \<Rightarrow> errno + bytes) \<Rightarrow> TcpConnection \<Rightarrow> conn_result" where
  "TcpConnection_handleRead inLoop readv c =
     (if \<not> inLoop then None
      else
        let (n, buf) = Buffer_readFd readv (tc_inputBuffer c);
            c1 = c\<lparr>tc_inputBuffer := buf\<rparr>
        in case n of
             Inr k \<Rightarrow>
               if 0 < k then Some (c1, if tc_messageCallback c1 then [CallMessage] else [])
               else TcpConnection_handleClose inLoop c1
           | Inl savedErrno \<Rightarrow> TcpConnection_handleError c1)"

text \<open>
  The four parts of \<open>handleWrite\<close>. The first and third may leave the function: the flag says
  whether it goes on. \<open>write\<close> maps the bytes offered to the outcome; \<open>sendfile\<close> maps the
  file, the offset and the count, and the kernel advances the offset by what it sent.
\<close>

definition handleWrite_output ::
    "(bytes \<Rightarrow> errno + nat) \<Rightarrow> TcpConnection \<Rightarrow> bool \<times> TcpConnection \<times> conn_action list" where
  "handleWrite_output write c =
     (let out = tc_outputBuffer c in
      if 0 < readableBytes out then
        (case write (Buffer_content out) of
           Inr n \<Rightarrow>
             if 0 < n
             then (True, c\<lparr>tc_outputBuffer := Buffer_retrieve out n\<rparr>, [Sent (take n (Buffer_content out))])
             else (True, c, [])
         | Inl err \<Rightarrow> if err \<noteq> EAGAIN then (False, c, []) else (True, c, []))
      else (True, c, []))"

definition handleWrite_lowMark :: "TcpConnection \<Rightarrow> TcpConnection \<times> conn_action list" where
  "handleWrite_lowMark c =
     (let queuedBytes = readableBytes (tc_outputBuffer c) in
      if tc_aboveHighWaterMark c \<and> queuedBytes \<le> tc_lowWaterMark c
      then (c\<lparr>tc_aboveHighWaterMark := False\<rparr>,
            if tc_lowWaterMarkCallback c then [QueueInLoop (LowWaterTask queuedBytes)] else [])
      else (c, []))"

definition handleWrite_file ::
    "(fd \<Rightarrow> nat \<Rightarrow> nat \<Rightarrow> errno + nat) \<Rightarrow> TcpConnection \<Rightarrow> bool \<times> TcpConnection \<times> conn_action list" where
  "handleWrite_file sendfile c =
     (if readableBytes (tc_outputBuffer c) = 0 \<and> 0 \<le> tc_fileFd c then
        (case sendfile (tc_fileFd c) (tc_fileOffset c) (tc_fileSize c - tc_fileOffset c) of
           Inr n \<Rightarrow>
             if 0 < n
             then (True, c\<lparr>tc_fileOffset := tc_fileOffset c + n\<rparr>,
                   [SentFile (tc_fileFd c) (tc_fileOffset c) n])
             else (True, c, [])
         | Inl err \<Rightarrow>
             if err = EAGAIN then (False, c, [])
             else (False, c\<lparr>tc_fileFd := -1\<rparr>, [CloseFd (tc_fileFd c)]))
      else (True, c, []))"

definition handleWrite_done :: "bool \<Rightarrow> TcpConnection \<Rightarrow> conn_result" where
  "handleWrite_done inLoop c =
     (if readableBytes (tc_outputBuffer c) = 0
         \<and> (tc_fileFd c < 0 \<or> tc_fileOffset c = tc_fileSize c) then
        let (c1, acts1) = with_channel Channel_disableWriting c;
            (c2, acts2) = (if 0 \<le> tc_fileFd c1 then (c1\<lparr>tc_fileFd := -1\<rparr>, [CloseFd (tc_fileFd c1)]) else (c1, []));
            acts3 = (if tc_writeCompleteCallback c2 then [QueueInLoop WriteCompleteTask] else [])
        in if tc_state c2 = kDisconnecting
           then map_option (\<lambda>(c3, acts4). (c3, acts1 @ acts2 @ acts3 @ acts4))
                  (TcpConnection_shutdownInLoop inLoop c2)
           else Some (c2, acts1 @ acts2 @ acts3)
      else Some (c, []))"

definition TcpConnection_handleWrite ::
    "bool \<Rightarrow> (bytes \<Rightarrow> errno + nat) \<Rightarrow> (fd \<Rightarrow> nat \<Rightarrow> nat \<Rightarrow> errno + nat) \<Rightarrow> TcpConnection \<Rightarrow> conn_result" where
  "TcpConnection_handleWrite inLoop write sendfile c =
     (if \<not> inLoop then None
      else if \<not> Channel_isWriting (tc_channel c) then Some (c, [])
      else
        let (go1, c1, acts1) = handleWrite_output write c in
        if \<not> go1 then Some (c1, acts1) else
        let (c2, acts2) = handleWrite_lowMark c1;
            (go3, c3, acts3) = handleWrite_file sendfile c2 in
        if \<not> go3 then Some (c3, acts1 @ acts2 @ acts3) else
        map_option (\<lambda>(c4, acts4). (c4, acts1 @ acts2 @ acts3 @ acts4)) (handleWrite_done inLoop c3))"

text \<open>
  \<open>sendInLoop\<close>: the direct write, with the values of \<open>nwrote\<close>, \<open>remaining\<close> and
  \<open>faultError\<close> after it; and the queueing of what remains.
\<close>

definition sendInLoop_write ::
    "(bytes \<Rightarrow> errno + nat) \<Rightarrow> bytes \<Rightarrow> TcpConnection \<Rightarrow> nat \<times> nat \<times> bool \<times> conn_action list" where
  "sendInLoop_write write message c =
     (if \<not> Channel_isWriting (tc_channel c) \<and> readableBytes (tc_outputBuffer c) = 0 then
        (case write message of
           Inr n \<Rightarrow>
             let rest = length message - n
             in (n, rest, False,
                 [Sent (take n message)]
                 @ (if rest = 0 \<and> tc_writeCompleteCallback c
                    then [QueueInLoop WriteCompleteTask] else []))
         | Inl err \<Rightarrow>
             (0, length message,
              err \<noteq> EWOULDBLOCK \<and> (err = EPIPE \<or> err = ECONNRESET), []))
      else (0, length message, False, []))"

definition sendInLoop_queue :: "bytes \<Rightarrow> TcpConnection \<Rightarrow> TcpConnection \<times> conn_action list" where
  "sendInLoop_queue data c =
     (let c1 = c\<lparr>tc_outputBuffer := Buffer_append (tc_outputBuffer c) data\<rparr>;
          queuedBytes = readableBytes (tc_outputBuffer c1);
          (c2, acts2) =
            (if \<not> tc_aboveHighWaterMark c1 \<and> tc_highWaterMark c1 \<le> queuedBytes
             then (c1\<lparr>tc_aboveHighWaterMark := True\<rparr>,
                   if tc_highWaterMarkCallback c1
                   then [QueueInLoop (HighWaterTask queuedBytes)] else [])
             else (c1, []));
          (c3, acts3) =
            (if \<not> Channel_isWriting (tc_channel c2)
             then with_channel Channel_enableWriting c2 else (c2, []))
      in (c3, acts2 @ acts3))"

definition TcpConnection_sendInLoop ::
    "bool \<Rightarrow> (bytes \<Rightarrow> errno + nat) \<Rightarrow> bytes \<Rightarrow> TcpConnection \<Rightarrow> conn_result" where
  "TcpConnection_sendInLoop inLoop write message c =
     (if \<not> inLoop then None
      else if tc_state c = kDisconnected then Some (c, [])
      else
        let (nwrote, remaining, faultError, acts1) = sendInLoop_write write message c
        in if \<not> faultError \<and> 0 < remaining then
             let (c1, acts2) = sendInLoop_queue (drop nwrote message) c in Some (c1, acts1 @ acts2)
           else Some (c, acts1))"

definition TcpConnection_send ::
    "bool \<Rightarrow> (bytes \<Rightarrow> errno + nat) \<Rightarrow> bytes \<Rightarrow> TcpConnection \<Rightarrow> conn_result" where
  "TcpConnection_send inLoop write buf c =
     (if tc_state c = kConnected then
        if inLoop then TcpConnection_sendInLoop inLoop write buf c
        else Some (c, [QueueInLoop (SendTask buf)])
      else Some (c, []))"

definition TcpConnection_sendFileInLoop :: "bool \<Rightarrow> fd \<Rightarrow> nat \<Rightarrow> TcpConnection \<Rightarrow> conn_result" where
  "TcpConnection_sendFileInLoop inLoop fd fileSize c =
     (if \<not> inLoop then None
      else if tc_state c = kDisconnected then Some (c, [CloseFd fd])
      else
        let c1 = c\<lparr>tc_fileFd := fd, tc_fileSize := fileSize, tc_fileOffset := 0\<rparr>
        in Some (if \<not> Channel_isWriting (tc_channel c1)
                 then with_channel Channel_enableWriting c1 else (c1, [])))"

definition TcpConnection_sendFile :: "bool \<Rightarrow> fd \<Rightarrow> nat \<Rightarrow> TcpConnection \<Rightarrow> conn_result" where
  "TcpConnection_sendFile inLoop fd fileSize c =
     (if tc_state c = kConnected then
        if inLoop then TcpConnection_sendFileInLoop inLoop fd fileSize c
        else Some (c, [QueueInLoop (SendFileTask fd fileSize)])
      else Some (c, []))"

definition TcpConnection_shutdown :: "bool \<Rightarrow> TcpConnection \<Rightarrow> conn_result" where
  "TcpConnection_shutdown inLoop c =
     (if tc_state c = kConnected then
        let c1 = c\<lparr>tc_state := kDisconnecting\<rparr>
        in if inLoop then TcpConnection_shutdownInLoop inLoop c1
           else Some (c1, [QueueInLoop ShutdownTask])
      else Some (c, []))"

definition TcpConnection_forceClose :: "TcpConnection \<Rightarrow> conn_result" where
  "TcpConnection_forceClose c =
     (if tc_state c = kConnected \<or> tc_state c = kDisconnecting
      then Some (c\<lparr>tc_state := kDisconnecting\<rparr>, [QueueInLoop ForceCloseTask])
      else Some (c, []))"

definition TcpConnection_forceCloseInLoop :: "bool \<Rightarrow> TcpConnection \<Rightarrow> conn_result" where
  "TcpConnection_forceCloseInLoop inLoop c =
     (if \<not> inLoop then None
      else if tc_state c = kConnected \<or> tc_state c = kDisconnecting
      then TcpConnection_handleClose inLoop c
      else Some (c, []))"

text \<open>An empty \<open>connectionCallback_\<close> is called here without a check: \<open>bad_function_call\<close>.\<close>

definition TcpConnection_connectDestroyed :: "bool \<Rightarrow> TcpConnection \<Rightarrow> conn_result" where
  "TcpConnection_connectDestroyed inLoop c =
     (if \<not> inLoop then None
      else if tc_state c = kConnected \<or> tc_state c = kDisconnecting then
        let (c1, acts1) = with_channel Channel_disableAll (c\<lparr>tc_state := kDisconnected\<rparr>)
        in if tc_connectionCallback c1 then
             let (c2, acts2) = with_channel Channel_remove c1
             in Some (c2, acts1 @ [CallConnection] @ acts2)
           else None
      else Some (with_channel Channel_remove c))"

section \<open>What an action list says\<close>

definition sent_bytes :: "conn_action list \<Rightarrow> bytes" where
  "sent_bytes acts = concat (map (\<lambda>a. case a of Sent xs \<Rightarrow> xs | _ \<Rightarrow> []) acts)"

definition queued_tasks :: "conn_action list \<Rightarrow> conn_task list" where
  "queued_tasks acts = concat (map (\<lambda>a. case a of QueueInLoop t \<Rightarrow> [t] | _ \<Rightarrow> []) acts)"

definition is_transmission :: "conn_action \<Rightarrow> bool" where
  "is_transmission a \<longleftrightarrow> (case a of Sent _ \<Rightarrow> True | SentFile _ _ _ \<Rightarrow> True | _ \<Rightarrow> False)"

definition writing :: "TcpConnection \<Rightarrow> bool" where
  "writing c \<longleftrightarrow> Channel_isWriting (tc_channel c)"

definition pending :: "TcpConnection \<Rightarrow> bytes" where
  "pending c = Buffer_content (tc_outputBuffer c)"

definition chan_regs :: "mask \<Rightarrow> TcpConnection \<Rightarrow> Channel" where
  "chan_regs m c = (tc_channel c)\<lparr>ch_events := m, ch_inEpoll := True\<rparr>"

definition ctl_of :: "mask \<Rightarrow> TcpConnection \<Rightarrow> conn_action" where
  "ctl_of m c =
     Ctl (if ch_inEpoll (tc_channel c) then EPOLL_CTL_MOD else EPOLL_CTL_ADD, ch_fd (tc_channel c), m)"

section \<open>Lemmas on the operations\<close>

lemma with_channel_update:
  "with_channel (\<lambda>ch. Channel_update (ch\<lparr>ch_events := f (ch_events ch)\<rparr>)) c =
     (c\<lparr>tc_channel := chan_regs (f (ch_events (tc_channel c))) c\<rparr>,
      [ctl_of (f (ch_events (tc_channel c))) c])"
  by (auto simp: with_channel_def Channel_update_def Epoll_updateChannel_def chan_regs_def ctl_of_def)

lemma with_channel_simps [simp]:
  "with_channel Channel_enableReading c =
     (c\<lparr>tc_channel := chan_regs (ch_events (tc_channel c) OR EPOLLIN) c\<rparr>,
      [ctl_of (ch_events (tc_channel c) OR EPOLLIN) c])"
  "with_channel Channel_enableWriting c =
     (c\<lparr>tc_channel := chan_regs (ch_events (tc_channel c) OR EPOLLOUT) c\<rparr>,
      [ctl_of (ch_events (tc_channel c) OR EPOLLOUT) c])"
  "with_channel Channel_disableWriting c =
     (c\<lparr>tc_channel := chan_regs (ch_events (tc_channel c) AND NOT EPOLLOUT) c\<rparr>,
      [ctl_of (ch_events (tc_channel c) AND NOT EPOLLOUT) c])"
  "with_channel Channel_disableAll c = (c\<lparr>tc_channel := chan_regs 0 c\<rparr>, [ctl_of 0 c])"
  unfolding Channel_enableReading_def Channel_enableWriting_def Channel_disableWriting_def
    Channel_disableAll_def
  using with_channel_update [of "\<lambda>m. m OR EPOLLIN" c] with_channel_update [of "\<lambda>m. m OR EPOLLOUT" c]
    with_channel_update [of "\<lambda>m. m AND NOT EPOLLOUT" c] with_channel_update [of "\<lambda>_. 0" c]
  by simp_all

lemma with_channel_remove [simp]:
  "with_channel Channel_remove c =
     (c\<lparr>tc_channel := (chan_regs 0 c)\<lparr>ch_inEpoll := False\<rparr>\<rparr>,
      [ctl_of 0 c, Ctl (EPOLL_CTL_DEL, ch_fd (tc_channel c), 0)])"
  by (auto simp: with_channel_def channel_ops chan_regs_def ctl_of_def Let_def)

lemma chan_regs_sel [simp]:
  "ch_events (chan_regs m c) = m" "ch_inEpoll (chan_regs m c)" "ch_fd (chan_regs m c) = ch_fd (tc_channel c)"
  by (simp_all add: chan_regs_def)

lemma sent_bytes_simps [simp]:
  "sent_bytes [] = []" "sent_bytes (xs @ ys) = sent_bytes xs @ sent_bytes ys"
  "sent_bytes (a # xs) = (case a of Sent b \<Rightarrow> b | _ \<Rightarrow> []) @ sent_bytes xs"
  by (simp_all add: sent_bytes_def)

lemma queued_tasks_simps [simp]:
  "queued_tasks [] = []" "queued_tasks (xs @ ys) = queued_tasks xs @ queued_tasks ys"
  "queued_tasks (a # xs) = (case a of QueueInLoop t \<Rightarrow> [t] | _ \<Rightarrow> []) @ queued_tasks xs"
  by (simp_all add: queued_tasks_def)

lemma ctl_of_no_effect [simp]:
  "(case ctl_of m c of Sent b \<Rightarrow> b | _ \<Rightarrow> []) = []"
  "(case ctl_of m c of QueueInLoop t \<Rightarrow> [t] | _ \<Rightarrow> []) = []"
  "\<not> is_transmission (ctl_of m c)"
  by (simp_all add: ctl_of_def is_transmission_def)

lemma ctl_of_neq [simp]:
  "ctl_of m c \<noteq> CallClose" "ctl_of m c \<noteq> CallConnection" "ctl_of m c \<noteq> ShutdownWrite"
  "ctl_of m c \<noteq> CloseFd f" "ctl_of m c \<noteq> QueueInLoop t"
  "CallClose \<noteq> ctl_of m c" "CallConnection \<noteq> ctl_of m c" "ShutdownWrite \<noteq> ctl_of m c"
  "CloseFd f \<noteq> ctl_of m c" "QueueInLoop t \<noteq> ctl_of m c"
  by (simp_all add: ctl_of_def)

lemma is_transmission_simps [simp]:
  "is_transmission (Sent xs)" "is_transmission (SentFile f off n)"
  "\<not> is_transmission (Ctl k)" "\<not> is_transmission (CloseFd f)" "\<not> is_transmission ShutdownWrite"
  "\<not> is_transmission (SetKeepAlive f)" "\<not> is_transmission CallConnection"
  "\<not> is_transmission CallMessage" "\<not> is_transmission CallClose" "\<not> is_transmission (QueueInLoop t)"
  by (simp_all add: is_transmission_def)

end
