(* ===== verification/ConnectionRuns.thy ===== *)
theory ConnectionRuns
  imports TcpConnection
begin

text \<open>
  The life of one connection: every interleaving of what its users call (from the loop thread
  or from another one), of the tasks the loop runs in queue order, and of the events epoll
  reports. The operations are those of \<^theory_text>\<open>TcpConnection\<close>; here they become labels of a
  step relation over the connection, the tasks still queued for it, the trace of its actions
  and two ghosts: the bytes it took responsibility for and the file descriptors handed to it.
\<close>

section \<open>The system\<close>

text \<open>What the kernel promises: no more bytes taken than offered.\<close>

definition write_ok :: "(bytes \<Rightarrow> errno + nat) \<Rightarrow> bool" where
  "write_ok w \<longleftrightarrow> (\<forall>xs n. w xs = Inr n \<longrightarrow> n \<le> length xs)"

definition sendfile_ok :: "(fd \<Rightarrow> nat \<Rightarrow> nat \<Rightarrow> errno + nat) \<Rightarrow> bool" where
  "sendfile_ok sf \<longleftrightarrow> (\<forall>f off cnt n. sf f off cnt = Inr n \<longrightarrow> n \<le> cnt)"

text \<open>
  Labels. The user calls carry whether they come from the loop thread; the channel events are
  those of the four channel callbacks; \<open>TakeInput\<close> is the user's message callback leaving the input
  buffer it was given in another state; \<open>RunTask\<close> is the loop running the head of its queue.

  A user call from another thread is three accesses to what it shares with the loop: the test of \<open>state_\<close>, for
  \<open>shutdown\<close> and \<open>forceClose\<close> the store, and the push on the loop's queue. The labels \<open>Call\<close> make them in one
  step; \<open>StoreDisconnecting\<close> is a store and \<open>QueueLate\<close> a push that come after other steps, by a thread whose test
  was passed earlier.
\<close>

datatype conn_event =
    Establish | Destroy
  | OnRead "nat \<Rightarrow> errno + bytes"
  | TakeInput Buffer
  | OnWrite "bytes \<Rightarrow> errno + nat" "fd \<Rightarrow> nat \<Rightarrow> nat \<Rightarrow> errno + nat"
  | OnClose | OnError
  | CallSend bool "bytes \<Rightarrow> errno + nat" bytes
  | CallSendFile bool fd nat
  | CallShutdown bool | CallForceClose
  | StoreDisconnecting | QueueLate conn_task
  | SetWatermarks nat nat bool bool
  | SetCallbacks bool bool bool bool
  | RunTask "bytes \<Rightarrow> errno + nat"

record conn_sys =
  cs_conn :: TcpConnection
  cs_tasks :: "conn_task list"
  cs_trace :: "conn_action list"
  cs_accepted :: bytes
  cs_handed :: "fd list"

text \<open>A task of the queue; the three notifications run user code and leave the connection alone.\<close>

fun run_task :: "(bytes \<Rightarrow> errno + nat) \<Rightarrow> conn_task \<Rightarrow> TcpConnection \<Rightarrow> conn_result" where
  "run_task write (SendTask m) c = TcpConnection_sendInLoop True write m c"
| "run_task write (SendFileTask f sz) c = TcpConnection_sendFileInLoop True f sz c"
| "run_task write ShutdownTask c = TcpConnection_shutdownInLoop True c"
| "run_task write ForceCloseTask c = TcpConnection_forceCloseInLoop True c"
| "run_task write _ c = Some (c, [])"

text \<open>The message is dropped by a closed connection, and when the first direct write finds the
  peer gone; otherwise \<open>sendInLoop\<close> takes all of it.\<close>

definition takes_message :: "(bytes \<Rightarrow> errno + nat) \<Rightarrow> bytes \<Rightarrow> TcpConnection \<Rightarrow> bool" where
  "takes_message write m c \<longleftrightarrow>
     tc_state c \<noteq> kDisconnected
     \<and> (Channel_isWriting (tc_channel c) \<or> readableBytes (tc_outputBuffer c) \<noteq> 0
        \<or> write m \<noteq> Inl EPIPE \<and> write m \<noteq> Inl ECONNRESET)"

fun task_bytes :: "(bytes \<Rightarrow> errno + nat) \<Rightarrow> conn_task \<Rightarrow> TcpConnection \<Rightarrow> bytes" where
  "task_bytes write (SendTask m) c = (if takes_message write m c then m else [])"
| "task_bytes write _ c = []"

fun event_do :: "conn_event \<Rightarrow> TcpConnection \<Rightarrow> conn_result" where
  "event_do Establish c = TcpConnection_connectEstablished True c"
| "event_do Destroy c = TcpConnection_connectDestroyed True c"
| "event_do (OnRead readv) c = TcpConnection_handleRead True readv c"
| "event_do (TakeInput buf) c = Some (c\<lparr>tc_inputBuffer := buf\<rparr>, [])"
| "event_do (OnWrite write sendfile) c = TcpConnection_handleWrite True write sendfile c"
| "event_do OnClose c = TcpConnection_handleClose True c"
| "event_do OnError c = TcpConnection_handleError c"
| "event_do (CallSend inLoop write m) c = TcpConnection_send inLoop write m c"
| "event_do (CallSendFile inLoop f sz) c = TcpConnection_sendFile inLoop f sz c"
| "event_do (CallShutdown inLoop) c = TcpConnection_shutdown inLoop c"
| "event_do CallForceClose c = TcpConnection_forceClose c"
| "event_do StoreDisconnecting c = Some (c\<lparr>tc_state := kDisconnecting\<rparr>, [])"
| "event_do (QueueLate t) c = Some (c, [QueueInLoop t])"
| "event_do (SetWatermarks low high lowCb highCb) c =
     TcpConnection_setOutputBufferWatermarks low high lowCb highCb c"
| "event_do (SetCallbacks conn msg wc cl) c =
     Some (TcpConnection_setCloseCallback cl (TcpConnection_setWriteCompleteCallback wc
             (TcpConnection_setMessageCallback msg (TcpConnection_setConnectionCallback conn c))), [])"
| "event_do (RunTask write) c = None"

fun event_bytes :: "conn_event \<Rightarrow> TcpConnection \<Rightarrow> bytes" where
  "event_bytes (CallSend inLoop write m) c =
     (if inLoop \<and> tc_state c = kConnected \<and> takes_message write m c then m else [])"
| "event_bytes _ c = []"

fun task_fds :: "conn_task \<Rightarrow> fd list" where
  "task_fds (SendFileTask f sz) = [f]"
| "task_fds _ = []"

fun event_fds :: "conn_event \<Rightarrow> TcpConnection \<Rightarrow> fd list" where
  "event_fds (CallSendFile inLoop f sz) c = (if tc_state c = kConnected then [f] else [])"
| "event_fds (QueueLate t) c = task_fds t"
| "event_fds _ c = []"

text \<open>The environment: the outcomes obey the system calls' contracts, epoll reports only a
  registered descriptor, and a late access belongs to a call whose test was passed, so the connection has been
  established. One interleaving is left out: a late store of \<open>kDisconnecting\<close> over a connection that the loop has closed
  since the test. What it does is shown in the last section.\<close>

fun user_task :: "conn_task \<Rightarrow> bool" where
  "user_task (SendTask _) \<longleftrightarrow> True"
| "user_task (SendFileTask _ _) \<longleftrightarrow> True"
| "user_task ShutdownTask \<longleftrightarrow> True"
| "user_task ForceCloseTask \<longleftrightarrow> True"
| "user_task _ \<longleftrightarrow> False"

fun event_ok :: "conn_event \<Rightarrow> TcpConnection \<Rightarrow> bool" where
  "event_ok (OnRead readv) c \<longleftrightarrow> readv_ok readv \<and> ch_inEpoll (tc_channel c)"
| "event_ok (TakeInput buf) c \<longleftrightarrow> Buffer_ok buf"
| "event_ok (OnWrite write sendfile) c \<longleftrightarrow>
     write_ok write \<and> sendfile_ok sendfile \<and> ch_inEpoll (tc_channel c)"
| "event_ok OnClose c \<longleftrightarrow> ch_inEpoll (tc_channel c)"
| "event_ok OnError c \<longleftrightarrow> ch_inEpoll (tc_channel c)"
| "event_ok (CallSend inLoop write m) c \<longleftrightarrow> write_ok write"
| "event_ok StoreDisconnecting c \<longleftrightarrow> tc_state c = kConnected \<or> tc_state c = kDisconnecting"
| "event_ok (QueueLate t) c \<longleftrightarrow> tc_state c \<noteq> kConnecting \<and> user_task t"
| "event_ok (RunTask write) c \<longleftrightarrow> write_ok write"
| "event_ok _ c \<longleftrightarrow> True"

inductive conn_step :: "conn_sys \<Rightarrow> conn_event \<Rightarrow> conn_sys \<Rightarrow> bool" where
  conn_event:
  "event_ok e (cs_conn s) \<Longrightarrow> event_do e (cs_conn s) = Some (c', acts) \<Longrightarrow>
   conn_step s e \<lparr>cs_conn = c', cs_tasks = cs_tasks s @ queued_tasks acts,
     cs_trace = cs_trace s @ acts, cs_accepted = cs_accepted s @ event_bytes e (cs_conn s),
     cs_handed = cs_handed s @ event_fds e (cs_conn s)\<rparr>"
| conn_task:
  "cs_tasks s = t # ts \<Longrightarrow> write_ok write \<Longrightarrow> run_task write t (cs_conn s) = Some (c', acts) \<Longrightarrow>
   conn_step s (RunTask write) \<lparr>cs_conn = c', cs_tasks = ts @ queued_tasks acts,
     cs_trace = cs_trace s @ acts, cs_accepted = cs_accepted s @ task_bytes write t (cs_conn s),
     cs_handed = cs_handed s\<rparr>"

definition conn_init :: "bytes \<Rightarrow> fd \<Rightarrow> InetAddress \<Rightarrow> InetAddress \<Rightarrow> conn_sys" where
  "conn_init nm sockfd localAddr peerAddr =
     (let (c, acts) = TcpConnection_new nm sockfd localAddr peerAddr in
      \<lparr>cs_conn = c, cs_tasks = [], cs_trace = acts, cs_accepted = [], cs_handed = []\<rparr>)"

section \<open>Invariant of one connection\<close>

definition conn_ok :: "TcpConnection \<Rightarrow> bool" where
  "conn_ok c \<longleftrightarrow>
     Buffer_ok (tc_inputBuffer c) \<and> Buffer_ok (tc_outputBuffer c)
     \<and> tc_fileOffset c \<le> tc_fileSize c
     \<and> (tc_state c \<noteq> kDisconnected \<and> (pending c \<noteq> [] \<or> 0 \<le> tc_fileFd c) \<longrightarrow> writing c)
     \<and> (tc_state c = kDisconnected \<longrightarrow> ch_events (tc_channel c) = 0)
     \<and> (tc_state c = kConnecting \<longrightarrow> ch_events (tc_channel c) = 0 \<and> \<not> ch_inEpoll (tc_channel c))"

lemma readable_pending: "Buffer_ok (tc_outputBuffer c) \<Longrightarrow> readableBytes (tc_outputBuffer c) = length (pending c)"
  by (simp add: pending_def length_content)

lemma writing_alt: "writing c \<longleftrightarrow> ch_events (tc_channel c) AND EPOLLOUT \<noteq> 0"
  by (simp add: writing_def Channel_isWriting_def)

lemmas conn_ops =
  TcpConnection_connectEstablished_def TcpConnection_connectDestroyed_def
  TcpConnection_handleError_def TcpConnection_handleClose_def
  TcpConnection_shutdownInLoop_def TcpConnection_sendFileInLoop_def TcpConnection_sendFile_def
  TcpConnection_shutdown_def TcpConnection_forceClose_def TcpConnection_forceCloseInLoop_def
  TcpConnection_setOutputBufferWatermarks_def
  TcpConnection_setConnectionCallback_def TcpConnection_setMessageCallback_def
  TcpConnection_setWriteCompleteCallback_def TcpConnection_setCloseCallback_def

lemmas handleWrite_parts =
  handleWrite_output_def handleWrite_lowMark_def handleWrite_file_def handleWrite_done_def
  TcpConnection_handleWrite_def

text \<open>A relation between connections that composes and holds of the four parts of \<open>handleWrite\<close> holds of it.\<close>

lemma handleWrite_closed:
  assumes r: "TcpConnection_handleWrite True w sf c = Some (c', acts)"
    and refl: "\<And>c. R c [] c" and trans: "\<And>c as c1 bs c2. R c as c1 \<Longrightarrow> R c1 bs c2 \<Longrightarrow> R c (as @ bs) c2"
    and out: "\<And>c g c' acts. handleWrite_output w c = (g, c', acts) \<Longrightarrow> R c acts c'"
    and low: "\<And>c c' acts. handleWrite_lowMark c = (c', acts) \<Longrightarrow> R c acts c'"
    and fil: "\<And>c g c' acts. handleWrite_file sf c = (g, c', acts) \<Longrightarrow> R c acts c'"
    and fin: "\<And>c c' acts. handleWrite_done True c = Some (c', acts) \<Longrightarrow> R c acts c'"
  shows "R c acts c'"
proof (cases "writing c")
  case False
  with r refl show ?thesis by (simp add: TcpConnection_handleWrite_def writing_def)
next
  case True
  obtain g1 c1 a1 where o: "handleWrite_output w c = (g1, c1, a1)" by (metis prod_cases3)
  obtain c2 a2 where l: "handleWrite_lowMark c1 = (c2, a2)" by fastforce
  obtain g3 c3 a3 where f: "handleWrite_file sf c2 = (g3, c3, a3)" by (metis prod_cases3)
  note R1 = out [OF o] and R3 = trans [OF trans [OF out [OF o] low [OF l]] fil [OF f]]
  note eq = r [unfolded TcpConnection_handleWrite_def, folded writing_def]
  show ?thesis
  proof (cases "g1 \<and> g3")
    case False
    with eq True o l f R1 R3 show ?thesis by (cases g1) simp_all
  next
    case go: True
    from go eq True o l f obtain a4 where d: "handleWrite_done True c3 = Some (c', a4)"
      and a: "acts = ((a1 @ a2) @ a3) @ a4" by (auto split: prod.splits)
    from trans [OF R3 fin [OF d]] show ?thesis by (simp only: a)
  qed
qed

section \<open>The contract of one operation\<close>

definition queued_fds :: "conn_task list \<Rightarrow> fd list" where
  "queued_fds ts = concat (map task_fds ts)"

definition owned_fds :: "TcpConnection \<Rightarrow> fd list" where
  "owned_fds c = (if 0 \<le> tc_fileFd c then [tc_fileFd c] else [])"

fun state_rank :: "StateE \<Rightarrow> nat" where
  "state_rank kConnecting = 0"
| "state_rank kConnected = 1"
| "state_rank kDisconnecting = 2"
| "state_rank kDisconnected = 3"

text \<open>How often the connection callback may have run by the time a state is reached.\<close>

fun state_calls :: "StateE \<Rightarrow> nat" where
  "state_calls kConnecting = 0"
| "state_calls kConnected = 1"
| "state_calls kDisconnecting = 1"
| "state_calls kDisconnected = 2"

text \<open>
  \<open>conn_trans bs fds c acts c'\<close>: an operation that takes over the bytes \<open>bs\<close> and the
  descriptors \<open>fds\<close> may do \<open>acts\<close> and leave \<open>c'\<close>.
\<close>

definition conn_trans ::
    "bytes \<Rightarrow> fd list \<Rightarrow> TcpConnection \<Rightarrow> conn_action list \<Rightarrow> TcpConnection \<Rightarrow> bool" where
  "conn_trans bs fds c acts c' \<longleftrightarrow>
     conn_ok c'
     \<and> pending c @ bs = sent_bytes acts @ pending c'
     \<and> state_rank (tc_state c) \<le> state_rank (tc_state c')
     \<and> (tc_state c = kDisconnected \<longrightarrow> list_all (\<lambda>a. \<not> is_transmission a) acts)
     \<and> count_list acts CallClose + (if tc_state c = kDisconnected then 1 else 0)
         \<le> (if tc_state c' = kDisconnected then 1 else 0)
     \<and> count_list acts CallConnection + state_calls (tc_state c) \<le> state_calls (tc_state c')
     \<and> (ShutdownWrite \<in> set acts \<longrightarrow> tc_state c' = kDisconnected \<or> pending c' = [] \<and> tc_fileFd c' < 0)
     \<and> (\<forall>f. 0 \<le> f \<longrightarrow> count_list acts (CloseFd f) + count_list (owned_fds c') f
              + count_list (queued_fds (queued_tasks acts)) f
            \<le> count_list (owned_fds c) f + count_list fds f)
     \<and> (tc_state c' = kConnecting \<longrightarrow> queued_tasks acts = [])"

lemma queued_fds_simps [simp]:
  "queued_fds [] = []" "queued_fds (t # ts) = task_fds t @ queued_fds ts"
  "queued_fds (ts @ us) = queued_fds ts @ queued_fds us"
  by (simp_all add: queued_fds_def)

lemma EPOLLOUT_nonzero [simp]: "EPOLLOUT \<noteq> 0"
  by (simp add: EPOLLOUT_def)

lemma conn_trans_refl: "conn_ok c \<Longrightarrow> conn_trans [] [] c [] c"
  by (simp add: conn_trans_def)

lemma conn_trans_compose:
  assumes 1: "conn_trans bs fs c as c1" and 2: "conn_trans bs' fs' c1 as' c2"
    and no: "ShutdownWrite \<notin> set as"
  shows "conn_trans (bs @ bs') (fs @ fs') c (as @ as') c2"
  unfolding conn_trans_def
proof (intro conjI allI impI)
  have rank: "state_rank (tc_state c1) \<le> state_rank (tc_state c2)"
    and rank0: "state_rank (tc_state c) \<le> state_rank (tc_state c1)"
    using 1 2 by (simp_all add: conn_trans_def)
  show "conn_ok c2" using 2 by (simp add: conn_trans_def)
  show "pending c @ bs @ bs' = sent_bytes (as @ as') @ pending c2"
  proof -
    have "pending c @ bs = sent_bytes as @ pending c1" "pending c1 @ bs' = sent_bytes as' @ pending c2"
      using 1 2 by (simp_all add: conn_trans_def)
    then show ?thesis by (metis append_assoc sent_bytes_simps(2))
  qed
  show "state_rank (tc_state c) \<le> state_rank (tc_state c2)" using rank rank0 by simp
  show "list_all (\<lambda>a. \<not> is_transmission a) (as @ as')" if "tc_state c = kDisconnected"
    using 1 2 that rank0 by (cases "tc_state c1") (simp_all add: conn_trans_def)
  show "count_list (as @ as') CallClose + (if tc_state c = kDisconnected then 1 else 0)
         \<le> (if tc_state c2 = kDisconnected then 1 else 0)"
    using 1 2 by (simp add: conn_trans_def split: if_splits)
  show "count_list (as @ as') CallConnection + state_calls (tc_state c) \<le> state_calls (tc_state c2)"
    using 1 2 by (simp add: conn_trans_def)
  show "tc_state c2 = kDisconnected \<or> pending c2 = [] \<and> tc_fileFd c2 < 0"
    if "ShutdownWrite \<in> set (as @ as')"
    using 2 no that by (auto simp: conn_trans_def)
  show "count_list (as @ as') (CloseFd f) + count_list (owned_fds c2) f
          + count_list (queued_fds (queued_tasks (as @ as'))) f
        \<le> count_list (owned_fds c) f + count_list (fs @ fs') f" if "0 \<le> f" for f
  proof -
    have "count_list as (CloseFd f) + count_list (owned_fds c1) f
            + count_list (queued_fds (queued_tasks as)) f \<le> count_list (owned_fds c) f + count_list fs f"
      and "count_list as' (CloseFd f) + count_list (owned_fds c2) f
            + count_list (queued_fds (queued_tasks as')) f \<le> count_list (owned_fds c1) f + count_list fs' f"
      using 1 2 that by (simp_all add: conn_trans_def)
    then show ?thesis by simp
  qed
  show "queued_tasks (as @ as') = []" if "tc_state c2 = kConnecting"
    using 1 2 that rank by (cases "tc_state c1") (simp_all add: conn_trans_def)
qed

lemma conn_transI:
  assumes "conn_ok c'" "pending c @ bs = sent_bytes acts @ pending c'"
    and "state_rank (tc_state c) \<le> state_rank (tc_state c')"
    and "tc_state c = kDisconnected \<Longrightarrow> list_all (\<lambda>a. \<not> is_transmission a) acts"
    and "count_list acts CallClose + (if tc_state c = kDisconnected then 1 else 0)
         \<le> (if tc_state c' = kDisconnected then 1 else 0)"
    and "count_list acts CallConnection + state_calls (tc_state c) \<le> state_calls (tc_state c')"
    and "ShutdownWrite \<in> set acts \<Longrightarrow> tc_state c' = kDisconnected \<or> pending c' = [] \<and> tc_fileFd c' < 0"
    and "\<And>f. 0 \<le> f \<Longrightarrow> count_list acts (CloseFd f) + count_list (owned_fds c') f
              + count_list (queued_fds (queued_tasks acts)) f
            \<le> count_list (owned_fds c) f + count_list fds f"
    and "tc_state c' = kConnecting \<Longrightarrow> queued_tasks acts = []"
  shows "conn_trans bs fds c acts c'"
  using assms by (simp add: conn_trans_def)

text \<open>Operations that only touch the registration, the buffers' marks or queue a notification.\<close>

definition is_notice :: "conn_action \<Rightarrow> bool" where
  "is_notice a \<longleftrightarrow>
     (case a of Ctl _ \<Rightarrow> True | CallMessage \<Rightarrow> True
      | QueueInLoop t \<Rightarrow> (case t of SendFileTask f n \<Rightarrow> False | _ \<Rightarrow> True) | _ \<Rightarrow> False)"

lemma ctl_of_notice [simp]: "is_notice (ctl_of m c)"
  by (simp add: is_notice_def ctl_of_def)

lemma is_notice_simps [simp]:
  "is_notice (Ctl k)" "is_notice CallMessage" "is_notice (QueueInLoop WriteCompleteTask)"
  "is_notice (QueueInLoop (HighWaterTask n))" "is_notice (QueueInLoop (LowWaterTask n))"
  "is_notice (QueueInLoop (SendTask m))" "is_notice (QueueInLoop ShutdownTask)"
  "is_notice (QueueInLoop ForceCloseTask)"
  by (simp_all add: is_notice_def)

lemma notices_effect:
  assumes "list_all is_notice acts"
  shows "sent_bytes acts = []" "list_all (\<lambda>a. \<not> is_transmission a) acts"
    "count_list acts CallClose = 0" "count_list acts CallConnection = 0" "count_list acts (CloseFd f) = 0"
    "ShutdownWrite \<notin> set acts" "queued_fds (queued_tasks acts) = []"
  using assms
  by (induction acts; auto simp: is_notice_def split: conn_action.splits conn_task.splits)+

lemma conn_trans_notices:
  assumes "list_all is_notice acts" "conn_ok c'" "pending c' = pending c @ bs"
    "tc_state c' = tc_state c \<or> tc_state c = kConnected \<and> tc_state c' = kDisconnecting"
    "tc_fileFd c' = tc_fileFd c"
    "tc_state c' = kConnecting \<Longrightarrow> queued_tasks acts = []"
  shows "conn_trans bs [] c acts c'"
proof (rule conn_transI)
  show "state_rank (tc_state c) \<le> state_rank (tc_state c')"
    and "count_list acts CallConnection + state_calls (tc_state c) \<le> state_calls (tc_state c')"
    and "count_list acts CallClose + (if tc_state c = kDisconnected then 1 else 0)
         \<le> (if tc_state c' = kDisconnected then 1 else 0)"
    using assms(4) by (auto simp: notices_effect [OF assms(1)])
qed (use assms in \<open>auto simp: notices_effect [OF assms(1)] owned_fds_def\<close>)

lemma handleClose_eq:
  "tc_state c \<noteq> kDisconnected \<Longrightarrow>
   TcpConnection_handleClose True c =
     Some (c\<lparr>tc_fileFd := if 0 \<le> tc_fileFd c then -1 else tc_fileFd c, tc_state := kDisconnected,
             tc_channel := chan_regs 0 c\<rparr>,
           (if 0 \<le> tc_fileFd c then [CloseFd (tc_fileFd c)] else []) @ [ctl_of 0 c]
           @ (if tc_connectionCallback c then [CallConnection] else [])
           @ (if tc_closeCallback c then [CallClose] else []))"
  by (simp add: TcpConnection_handleClose_def Let_def chan_regs_def ctl_of_def)

lemma handleClose_trans:
  assumes "conn_ok c" "tc_state c \<noteq> kConnecting" "TcpConnection_handleClose True c = Some (c', acts)"
  shows "conn_trans [] [] c acts c'"
proof (cases "tc_state c = kDisconnected")
  case True
  with assms show ?thesis by (simp add: TcpConnection_handleClose_def conn_trans_refl)
next
  case False
  note eq = handleClose_eq [OF False]
  have acts: "acts = (if 0 \<le> tc_fileFd c then [CloseFd (tc_fileFd c)] else []) @ [ctl_of 0 c]
           @ (if tc_connectionCallback c then [CallConnection] else [])
           @ (if tc_closeCallback c then [CallClose] else [])"
    and c': "c' = c\<lparr>tc_fileFd := if 0 \<le> tc_fileFd c then -1 else tc_fileFd c, tc_state := kDisconnected,
             tc_channel := chan_regs 0 c\<rparr>"
    using assms(3) eq by simp_all
  have st: "tc_state c = kConnected \<or> tc_state c = kDisconnecting"
    using False assms(2) by (cases "tc_state c") auto
  show ?thesis
    by (rule conn_transI)
      (use assms(1) st in \<open>auto simp: acts c' conn_ok_def pending_def owned_fds_def\<close>)
qed

lemma sendInLoop_queue_trans:
  assumes "conn_ok c" "tc_state c \<noteq> kConnecting" "tc_state c \<noteq> kDisconnected"
    "sendInLoop_queue xs c = (c', acts)"
  shows "conn_trans xs [] c acts c'"
proof (rule conn_trans_notices)
  let ?c1 = "c\<lparr>tc_outputBuffer := Buffer_append (tc_outputBuffer c) xs\<rparr>"
  have sel: "tc_outputBuffer c' = Buffer_append (tc_outputBuffer c) xs" "tc_state c' = tc_state c"
    "tc_fileFd c' = tc_fileFd c" "tc_inputBuffer c' = tc_inputBuffer c" "writing c'"
    "tc_fileSize c' = tc_fileSize c" "tc_fileOffset c' = tc_fileOffset c"
    and "list_all is_notice acts"
    using assms(4) by (auto simp: sendInLoop_queue_def Let_def writing_def Channel_isWriting_def
        split: if_splits)
  then show "list_all is_notice acts" "tc_fileFd c' = tc_fileFd c"
    "tc_state c' = tc_state c \<or> tc_state c = kConnected \<and> tc_state c' = kDisconnecting" by simp_all
  show "conn_ok c'" using assms(1-3) sel by (simp add: conn_ok_def append_correct)
  show "pending c' = pending c @ xs" using assms(1) sel by (simp add: pending_def conn_ok_def append_correct)
  show "queued_tasks acts = []" if "tc_state c' = kConnecting" using that assms(2) sel by simp
qed

lemma direct_write_trans:
  assumes "conn_ok c" "pending c = []" "tc_state c \<noteq> kDisconnected" "tc_state c \<noteq> kConnecting"
    "list_all is_notice as" "queued_fds (queued_tasks as) = []"
  shows "conn_trans xs [] c (Sent xs # as) c"
  using assms(1,2,3,4) notices_effect [OF assms(5)] assms(6)
  by (intro conn_transI) (auto simp: owned_fds_def)

lemma sendInLoop_trans:
  assumes ok: "conn_ok c" and nc: "tc_state c \<noteq> kConnecting" and w: "write_ok w"
    and r: "TcpConnection_sendInLoop True w m c = Some (c', acts)"
  shows "conn_trans (if takes_message w m c then m else []) [] c acts c'"
proof (cases "tc_state c = kDisconnected")
  case True
  with r ok show ?thesis
    by (simp add: TcpConnection_sendInLoop_def takes_message_def conn_trans_refl)
next
  case opn: False
  note queue = sendInLoop_queue_trans [OF ok nc opn]
  show ?thesis
  proof (cases "\<not> Channel_isWriting (tc_channel c) \<and> readableBytes (tc_outputBuffer c) = 0")
    case direct: True
    with ok have empty: "pending c = []" by (simp add: pending_def conn_ok_def flip: length_content)
    show ?thesis
    proof (cases "w m")
      case (Inl err)
      with r direct opn queue [of m c' acts] ok show ?thesis
        by (cases "err = EPIPE \<or> err = ECONNRESET")
          (auto simp: TcpConnection_sendInLoop_def sendInLoop_write_def takes_message_def
            errno_defs conn_trans_refl split: prod.splits if_splits)
    next
      case (Inr n)
      define as where "as = (if n = length m \<and> tc_writeCompleteCallback c
        then [QueueInLoop WriteCompleteTask] else [])"
      have le: "n \<le> length m" using w Inr by (simp add: write_ok_def)
      have wr: "sendInLoop_write w m c = (n, length m - n, False, Sent (take n m) # as)"
        using direct Inr le by (auto simp: sendInLoop_write_def as_def Let_def)
      have first: "conn_trans (take n m) [] c (Sent (take n m) # as) c"
        by (rule direct_write_trans) (use ok empty opn nc in \<open>auto simp: as_def\<close>)
      have takes: "takes_message w m c" using opn Inr by (simp add: takes_message_def)
      show ?thesis
      proof (cases "n = length m")
        case True
        with r wr opn first takes show ?thesis by (simp add: TcpConnection_sendInLoop_def)
      next
        case False
        obtain c1 as2 where q: "sendInLoop_queue (drop n m) c = (c1, as2)" by fastforce
        have "c' = c1" "acts = (Sent (take n m) # as) @ as2"
          using r wr opn q False le by (simp_all add: TcpConnection_sendInLoop_def)
        then show ?thesis
          using conn_trans_compose [OF first queue [OF q]] takes by (auto simp: as_def)
      qed
    qed
  next
    case False
    with r opn queue [of m c' acts] ok show ?thesis
      by (cases "m = []") (auto simp: TcpConnection_sendInLoop_def sendInLoop_write_def takes_message_def
          conn_trans_refl split: prod.splits)
  qed
qed

lemma writing_open:
  "conn_ok c \<Longrightarrow> writing c \<Longrightarrow> tc_state c \<noteq> kDisconnected"
  "conn_ok c \<Longrightarrow> writing c \<Longrightarrow> tc_state c \<noteq> kConnecting"
  by (auto simp: conn_ok_def writing_alt)

lemma flush_trans:
  assumes "conn_ok c" "writing c" "n \<le> length (pending c)"
  defines "c' \<equiv> c\<lparr>tc_outputBuffer := Buffer_retrieve (tc_outputBuffer c) n\<rparr>"
  shows "conn_trans [] [] c [Sent (take n (pending c))] c'"
proof (rule conn_transI)
  have "Buffer_ok (tc_outputBuffer c)" using assms(1) by (simp add: conn_ok_def)
  note q = buf.queue_laws(3,4) [OF this]
  show "pending c @ [] = sent_bytes [Sent (take n (pending c))] @ pending c'"
    by (simp add: c'_def pending_def q)
  show "conn_ok c'" using assms(1,2) by (simp add: conn_ok_def c'_def q writing_def)
qed (use writing_open [OF assms(1,2)] in \<open>simp_all add: c'_def owned_fds_def\<close>)

lemma handleWrite_output_cases:
  assumes "handleWrite_output w c = (g, c', acts)" "write_ok w"
  obtains "c' = c" "acts = []"
  | n where "n \<le> length (pending c)" "acts = [Sent (take n (pending c))]"
      "c' = c\<lparr>tc_outputBuffer := Buffer_retrieve (tc_outputBuffer c) n\<rparr>"
proof (cases "0 < readableBytes (tc_outputBuffer c)")
  case False
  with assms(1) show thesis by (intro that(1)) (simp_all add: handleWrite_output_def)
next
  case True
  show thesis
  proof (cases "\<exists>n. w (pending c) = Inr n \<and> 0 < n")
    case sent: True
    then obtain n where n: "w (pending c) = Inr n" "0 < n" by blast
    with assms(2) have "n \<le> length (pending c)" by (simp add: write_ok_def)
    then show thesis
      by (rule that(2)) (use assms(1) True n in \<open>auto simp: handleWrite_output_def pending_def Let_def\<close>)
  next
    case False
    with assms(1) True show thesis
      by (intro that(1))
        (auto simp: handleWrite_output_def pending_def Let_def split: if_splits sum.splits)
  qed
qed

lemma handleWrite_output_trans:
  assumes "conn_ok c" "writing c" "write_ok w" "handleWrite_output w c = (g, c', acts)"
  shows "conn_trans [] [] c acts c' \<and> writing c' \<and> ShutdownWrite \<notin> set acts"
  using assms(4,3)
proof (cases rule: handleWrite_output_cases)
  case 1
  with assms show ?thesis by (simp add: conn_trans_refl)
next
  case (2 n)
  with assms flush_trans [OF assms(1,2) 2(1)] show ?thesis by (simp add: writing_def)
qed

lemma handleWrite_lowMark_trans:
  assumes "conn_ok c" "writing c" "handleWrite_lowMark c = (c', acts)"
  shows "conn_trans [] [] c acts c' \<and> writing c' \<and> ShutdownWrite \<notin> set acts"
proof -
  have c': "c' = c\<lparr>tc_aboveHighWaterMark := tc_aboveHighWaterMark c'\<rparr>"
    and n: "list_all is_notice acts"
    using assms(3) by (auto simp: handleWrite_lowMark_def Let_def split: if_splits)
  have "conn_ok c'" "writing c'" "pending c' = pending c" "tc_state c' = tc_state c" "tc_fileFd c' = tc_fileFd c"
    using assms(1,2) by (subst c', simp add: conn_ok_def pending_def writing_def)+
  with n writing_open [OF assms(1,2)] show ?thesis
    by (auto simp: notices_effect intro!: conn_trans_notices)
qed

lemma handleWrite_file_cases:
  assumes "handleWrite_file sf c = (g, c', acts)" "sendfile_ok sf" "conn_ok c"
  obtains "c' = c" "acts = []"
  | n where "n \<le> tc_fileSize c - tc_fileOffset c" "0 \<le> tc_fileFd c" "pending c = []"
      "c' = c\<lparr>tc_fileOffset := tc_fileOffset c + n\<rparr>" "acts = [SentFile (tc_fileFd c) (tc_fileOffset c) n]"
  | "0 \<le> tc_fileFd c" "c' = c\<lparr>tc_fileFd := -1\<rparr>" "acts = [CloseFd (tc_fileFd c)]" "\<not> g"
proof (cases "pending c = [] \<and> 0 \<le> tc_fileFd c")
  case False
  with assms(1,3) show thesis
    by (intro that(1)) (auto simp: handleWrite_file_def readable_pending conn_ok_def)
next
  case True
  note eq = assms(1) [unfolded handleWrite_file_def]
  have empty: "readableBytes (tc_outputBuffer c) = 0"
    using True assms(3) by (simp add: readable_pending conn_ok_def)
  show thesis
  proof (cases "sf (tc_fileFd c) (tc_fileOffset c) (tc_fileSize c - tc_fileOffset c)")
    case (Inr n)
    then have le: "n \<le> tc_fileSize c - tc_fileOffset c" using assms(2) by (simp add: sendfile_ok_def)
    show thesis
    proof (cases "0 < n")
      case pos: True
      have "(True, c\<lparr>tc_fileOffset := tc_fileOffset c + n\<rparr>, [SentFile (tc_fileFd c) (tc_fileOffset c) n]) =
          (g, c', acts)"
        using assms(1) unfolding handleWrite_file_def by (simp only: Inr True empty pos simp_thms if_True sum.case)
      then have "c' = c\<lparr>tc_fileOffset := tc_fileOffset c + n\<rparr>"
        "acts = [SentFile (tc_fileFd c) (tc_fileOffset c) n]" by (blast elim: Pair_inject)+
      with le True show thesis by (intro that(2)) simp_all
    next
      case False
      from eq Inr True empty False have "c' = c" "acts = []" by auto
      then show thesis by (rule that(1))
    qed
  next
    case (Inl err)
    with eq True empty show thesis
      by (cases "err = EAGAIN") (auto intro: that(1,3))
  qed
qed

lemma handleWrite_file_trans:
  assumes "conn_ok c" "writing c" "sendfile_ok sf" "handleWrite_file sf c = (g, c', acts)"
  shows "conn_trans [] [] c acts c' \<and> writing c' \<and> ShutdownWrite \<notin> set acts"
  using assms(4,3,1)
proof (cases rule: handleWrite_file_cases)
  case 1
  with assms show ?thesis by (simp add: conn_trans_refl)
next
  case (2 n)
  have "conn_ok c'" "pending c' = pending c" "owned_fds c' = owned_fds c" "tc_state c' = tc_state c" "writing c'"
    using assms(1,2) 2(1) by (auto simp: 2(4) conn_ok_def pending_def owned_fds_def writing_def)
  then show ?thesis
    using writing_open [OF assms(1,2)] by (auto simp: 2(5) intro!: conn_transI)
next
  case 3
  have "conn_ok c'" "pending c' = pending c" "owned_fds c' = []" "tc_state c' = tc_state c" "writing c'"
    "owned_fds c = [tc_fileFd c]"
    using assms(1,2) 3(1) by (auto simp: 3(2) conn_ok_def pending_def owned_fds_def writing_def)
  then show ?thesis
    using writing_open [OF assms(1,2)] by (auto simp: 3(3) intro!: conn_transI)
qed

text \<open>The end of \<open>handleWrite\<close>: all sent, so EPOLLOUT goes off and a pending half-close happens.\<close>

lemma handleWrite_done_eq:
  assumes "conn_ok c" "pending c = []" "tc_fileFd c < 0 \<or> tc_fileOffset c = tc_fileSize c"
  shows "handleWrite_done True c =
    Some (c\<lparr>tc_channel := chan_regs (ch_events (tc_channel c) AND NOT EPOLLOUT) c,
            tc_fileFd := if 0 \<le> tc_fileFd c then -1 else tc_fileFd c\<rparr>,
          [ctl_of (ch_events (tc_channel c) AND NOT EPOLLOUT) c]
          @ (if 0 \<le> tc_fileFd c then [CloseFd (tc_fileFd c)] else [])
          @ (if tc_writeCompleteCallback c then [QueueInLoop WriteCompleteTask] else [])
          @ (if tc_state c = kDisconnecting then [ShutdownWrite] else []))"
proof -
  have "readableBytes (tc_outputBuffer c) = 0"
    using assms(1,2) by (simp add: readable_pending conn_ok_def)
  with assms(3) show ?thesis
    by (auto simp: handleWrite_done_def TcpConnection_shutdownInLoop_def Channel_isWriting_def Let_def)
qed

lemma handleWrite_done_trans:
  assumes "conn_ok c" "writing c" "handleWrite_done True c = Some (c', acts)"
  shows "conn_trans [] [] c acts c'"
proof (cases "pending c = [] \<and> (tc_fileFd c < 0 \<or> tc_fileOffset c = tc_fileSize c)")
  case False
  with assms(1,3) have "c' = c" "acts = []"
    by (auto simp: handleWrite_done_def readable_pending conn_ok_def split: if_splits)
  with assms(1) show ?thesis by (simp add: conn_trans_refl)
next
  case True
  let ?m = "ch_events (tc_channel c) AND NOT EPOLLOUT"
  have c': "c' = c\<lparr>tc_channel := chan_regs ?m c, tc_fileFd := if 0 \<le> tc_fileFd c then -1 else tc_fileFd c\<rparr>"
    and acts: "acts = [ctl_of ?m c] @ (if 0 \<le> tc_fileFd c then [CloseFd (tc_fileFd c)] else [])
          @ (if tc_writeCompleteCallback c then [QueueInLoop WriteCompleteTask] else [])
          @ (if tc_state c = kDisconnecting then [ShutdownWrite] else [])"
    using assms(3) handleWrite_done_eq [OF assms(1)] True by auto
  have "conn_ok c'" "pending c' = []" "owned_fds c' = []" "tc_state c' = tc_state c" "tc_fileFd c' < 0"
    using assms(1) True writing_open [OF assms(1,2)]
    by (auto simp: c' conn_ok_def pending_def owned_fds_def)
  then show ?thesis
    using True writing_open [OF assms(1,2)]
    by (intro conn_transI) (auto simp: acts owned_fds_def)
qed

lemma conn_trans_ok: "conn_trans bs fs c acts c' \<Longrightarrow> conn_ok c'"
  by (simp add: conn_trans_def)

lemma handleWrite_trans:
  assumes ok: "conn_ok c" and w: "write_ok w" and sf: "sendfile_ok sf"
    and r: "TcpConnection_handleWrite True w sf c = Some (c', acts)"
  shows "conn_trans [] [] c acts c'"
proof (cases "writing c")
  case False
  with r ok show ?thesis by (simp add: TcpConnection_handleWrite_def writing_def conn_trans_refl)
next
  case True
  obtain g1 c1 a1 where o: "handleWrite_output w c = (g1, c1, a1)" by (metis prod_cases3)
  note t1 = handleWrite_output_trans [OF ok True w o]
  obtain c2 a2 where l: "handleWrite_lowMark c1 = (c2, a2)" by fastforce
  from t1 have "conn_ok c1" "writing c1" by (auto dest: conn_trans_ok)
  note t2 = handleWrite_lowMark_trans [OF this l]
  obtain g3 c3 a3 where f: "handleWrite_file sf c2 = (g3, c3, a3)" by (metis prod_cases3)
  from t2 have "conn_ok c2" "writing c2" by (auto dest: conn_trans_ok)
  note t3 = handleWrite_file_trans [OF this sf f]
  have t12: "conn_trans [] [] c (a1 @ a2) c2"
    using conn_trans_compose [of "[]" "[]" c a1 c1 "[]" "[]" a2 c2] t1 t2 by simp
  then have t123: "conn_trans [] [] c (a1 @ a2 @ a3) c3"
    using conn_trans_compose [of "[]" "[]" c "a1 @ a2" c2 "[]" "[]" a3 c3] t1 t2 t3 by simp
  note eq = r [unfolded TcpConnection_handleWrite_def, folded writing_def]
  show ?thesis
  proof (cases "g1 \<and> g3")
    case False
    with eq True o l f t1 t123 show ?thesis by (cases g1) simp_all
  next
    case go: True
    from go eq True o l f obtain a4 where d: "handleWrite_done True c3 = Some (c', a4)"
      and a: "acts = (a1 @ a2 @ a3) @ a4" by (auto split: prod.splits)
    from t3 have "conn_ok c3" "writing c3" by (auto dest: conn_trans_ok)
    from conn_trans_compose [OF t123 handleWrite_done_trans [OF this d]] t1 t2 t3 a
    show ?thesis by simp
  qed
qed

lemma handleRead_trans:
  assumes "conn_ok c" "tc_state c \<noteq> kConnecting" "readv_ok rd"
    and r: "TcpConnection_handleRead True rd c = Some (c', acts)"
  shows "conn_trans [] [] c acts c'"
proof -
  obtain n b where n: "Buffer_readFd rd (tc_inputBuffer c) = (n, b)" by fastforce
  let ?c1 = "c\<lparr>tc_inputBuffer := b\<rparr>"
  have "Buffer_ok b" using assms(1,3) n by (auto simp: conn_ok_def intro: Buffer_readFd_ok)
  then have ok1: "conn_ok ?c1" using assms(1) by (simp add: conn_ok_def pending_def writing_def)
  have same: "pending ?c1 = pending c" "owned_fds ?c1 = owned_fds c" by (simp_all add: pending_def owned_fds_def)
  have quiet: "conn_trans [] [] c as ?c1" if "as = [] \<or> as = [CallMessage]" for as
    by (rule conn_trans_notices) (use that ok1 same in auto)
  show ?thesis
  proof (cases "n = Inr 0")
    case True
    then have "TcpConnection_handleClose True ?c1 = Some (c', acts)"
      using r n by (simp add: TcpConnection_handleRead_def)
    with ok1 assms(2) have "conn_trans [] [] ?c1 acts c'" by (intro handleClose_trans) simp_all
    with same show ?thesis by (simp add: conn_trans_def)
  next
    case False
    then have "c' = ?c1" "acts = [] \<or> acts = [CallMessage]"
      using r n by (auto simp: TcpConnection_handleRead_def TcpConnection_handleError_def Let_def
          split: sum.splits if_splits)
    then show ?thesis using quiet by blast
  qed
qed

lemma connectEstablished_trans:
  assumes "conn_ok c" "TcpConnection_connectEstablished True c = Some (c', acts)"
  shows "conn_trans [] [] c acts c'"
proof -
  from assms(2) have st: "tc_state c = kConnecting"
    by (auto simp: TcpConnection_connectEstablished_def split: if_splits)
  define c1 where "c1 = c\<lparr>tc_state := kConnected, tc_channel := Channel_tie (tc_channel c)\<rparr>"
  have c': "c' = c1\<lparr>tc_channel := chan_regs (ch_events (tc_channel c1) OR EPOLLIN) c1\<rparr>"
    and acts: "acts = ctl_of (ch_events (tc_channel c1) OR EPOLLIN) c1
         # (if tc_connectionCallback c then [CallConnection] else [])"
    using assms(2) st by (auto simp: TcpConnection_connectEstablished_def c1_def Let_def)
  have "pending c = []" "tc_fileFd c < 0" using assms(1) st by (auto simp: conn_ok_def writing_alt)
  with assms(1) st have "conn_ok c'" "pending c' = pending c" "owned_fds c' = owned_fds c" "tc_state c' = kConnected"
    by (auto simp: c' c1_def conn_ok_def pending_def owned_fds_def)
  then show ?thesis using st by (intro conn_transI) (auto simp: acts)
qed

lemma connectDestroyed_trans:
  assumes "conn_ok c" "TcpConnection_connectDestroyed True c = Some (c', acts)"
  shows "conn_trans [] [] c acts c'"
proof (cases "tc_state c = kConnected \<or> tc_state c = kDisconnecting")
  case True
  define c1 where "c1 = c\<lparr>tc_state := kDisconnected, tc_channel := chan_regs 0 c\<rparr>"
  have c': "c' = c1\<lparr>tc_channel := (chan_regs 0 c1)\<lparr>ch_inEpoll := False\<rparr>\<rparr>"
    and acts: "acts = [ctl_of 0 c, CallConnection, ctl_of 0 c1, Ctl (EPOLL_CTL_DEL, ch_fd (tc_channel c1), 0)]"
    using assms(2) True
    by (auto simp: TcpConnection_connectDestroyed_def c1_def chan_regs_def ctl_of_def Let_def split: if_splits)
  have "conn_ok c'" "pending c' = pending c" "owned_fds c' = owned_fds c" "tc_state c' = kDisconnected"
    using assms(1) by (auto simp: c' c1_def conn_ok_def pending_def owned_fds_def)
  then show ?thesis using True by (intro conn_transI) (auto simp: acts)
next
  case False
  then have c': "c' = c\<lparr>tc_channel := (chan_regs 0 c)\<lparr>ch_inEpoll := False\<rparr>\<rparr>"
    and acts: "acts = [ctl_of 0 c, Ctl (EPOLL_CTL_DEL, ch_fd (tc_channel c), 0)]"
    using assms(2) by (auto simp: TcpConnection_connectDestroyed_def)
  from False have st: "tc_state c = kConnecting \<or> tc_state c = kDisconnected" by (cases "tc_state c") auto
  show ?thesis
    by (rule conn_trans_notices)
      (use assms(1) st in \<open>auto simp: acts c' conn_ok_def pending_def writing_alt\<close>)
qed

lemma sendFileInLoop_trans:
  assumes "conn_ok c" "tc_state c \<noteq> kConnecting" "TcpConnection_sendFileInLoop True f sz c = Some (c', acts)"
  shows "conn_trans [] [f] c acts c'"
proof (cases "tc_state c = kDisconnected")
  case True
  with assms(3) have "c' = c" "acts = [CloseFd f]" by (simp_all add: TcpConnection_sendFileInLoop_def)
  with True assms(1) show ?thesis by (intro conn_transI) auto
next
  case False
  have "writing c' \<and> tc_state c' = tc_state c \<and> tc_fileFd c' = f \<and> tc_fileOffset c' = 0
      \<and> tc_inputBuffer c' = tc_inputBuffer c \<and> tc_outputBuffer c' = tc_outputBuffer c"
    and n: "list_all is_notice acts"
    using assms(3) False
    by (auto simp: TcpConnection_sendFileInLoop_def writing_def Channel_isWriting_def Let_def split: if_splits)
  then have "conn_ok c'" "pending c' = pending c" "owned_fds c' = (if 0 \<le> f then [f] else [])"
    "tc_state c' = tc_state c"
    using assms(1,2) False by (auto simp: conn_ok_def pending_def owned_fds_def)
  with n False assms(2) show ?thesis
    by (intro conn_transI) (auto simp: notices_effect [OF n])
qed

lemma shutdownInLoop_trans:
  assumes "conn_ok c" "TcpConnection_shutdownInLoop True c = Some (c', acts)"
  shows "conn_trans [] [] c acts c'"
proof -
  from assms have "c' = c" "acts = [] \<or> \<not> writing c \<and> acts = [ShutdownWrite]"
    by (auto simp: TcpConnection_shutdownInLoop_def writing_def)
  with assms(1) show ?thesis
    by (intro conn_transI) (auto simp: conn_ok_def)
qed

lemma forceCloseInLoop_trans:
  assumes "conn_ok c" "TcpConnection_forceCloseInLoop True c = Some (c', acts)"
  shows "conn_trans [] [] c acts c'"
proof (cases "tc_state c = kConnected \<or> tc_state c = kDisconnecting")
  case True
  with assms show ?thesis by (intro handleClose_trans) (auto simp: TcpConnection_forceCloseInLoop_def)
next
  case False
  with assms show ?thesis by (auto simp: TcpConnection_forceCloseInLoop_def conn_trans_refl)
qed

lemmas loop_trans =
  handleClose_trans sendInLoop_trans handleWrite_trans handleRead_trans connectEstablished_trans
  connectDestroyed_trans sendFileInLoop_trans shutdownInLoop_trans forceCloseInLoop_trans

lemma registered_open: "conn_ok c \<Longrightarrow> ch_inEpoll (tc_channel c) \<Longrightarrow> tc_state c \<noteq> kConnecting"
  by (auto simp: conn_ok_def)

lemma shutdown_trans:
  assumes "conn_ok c" "TcpConnection_shutdown i c = Some (c', acts)"
  shows "conn_trans [] [] c acts c'"
proof (cases "tc_state c = kConnected")
  case False
  with assms show ?thesis by (simp add: TcpConnection_shutdown_def conn_trans_refl)
next
  case True
  let ?c1 = "c\<lparr>tc_state := kDisconnecting\<rparr>"
  have ok1: "conn_ok ?c1" using assms(1) True by (auto simp: conn_ok_def pending_def writing_def)
  have quiet: "conn_trans [] [] c as ?c1" if "list_all is_notice as" for as
    by (rule conn_trans_notices) (use that ok1 True in \<open>auto simp: pending_def\<close>)
  show ?thesis
  proof (cases i)
    case inLoop: True
    with assms(2) True have "TcpConnection_shutdownInLoop True ?c1 = Some (c', acts)"
      by (simp add: TcpConnection_shutdown_def)
    from conn_trans_compose [OF quiet [of "[]"] shutdownInLoop_trans [OF ok1 this]] show ?thesis by simp
  next
    case False
    with assms(2) True quiet [of acts] show ?thesis by (auto simp: TcpConnection_shutdown_def)
  qed
qed

lemma send_trans:
  assumes "conn_ok c" "write_ok w" "TcpConnection_send i w m c = Some (c', acts)"
  shows "conn_trans (event_bytes (CallSend i w m) c) [] c acts c'"
proof (cases "tc_state c = kConnected \<and> i")
  case True
  with assms sendInLoop_trans [OF assms(1) _ assms(2), of m c' acts] show ?thesis
    by (simp add: TcpConnection_send_def)
next
  case False
  with assms(1,3) show ?thesis
    by (intro conn_trans_notices) (auto simp: TcpConnection_send_def split: if_splits)
qed

lemma sendFile_trans:
  assumes "conn_ok c" "TcpConnection_sendFile i f sz c = Some (c', acts)"
  shows "conn_trans [] (event_fds (CallSendFile i f sz) c) c acts c'"
proof (cases "tc_state c = kConnected")
  case True
  show ?thesis
  proof (cases i)
    case inLoop: True
    with True assms(2) sendFileInLoop_trans [OF assms(1)] show ?thesis
      by (simp add: TcpConnection_sendFile_def)
  next
    case False
    with True assms(2) have "c' = c" "acts = [QueueInLoop (SendFileTask f sz)]"
      by (simp_all add: TcpConnection_sendFile_def)
    with True assms(1) show ?thesis by (intro conn_transI) auto
  qed
next
  case False
  with assms show ?thesis by (simp add: TcpConnection_sendFile_def conn_trans_refl)
qed

lemma forceClose_trans:
  assumes "conn_ok c" "TcpConnection_forceClose c = Some (c', acts)"
  shows "conn_trans [] [] c acts c'"
proof (cases "tc_state c = kConnected \<or> tc_state c = kDisconnecting")
  case True
  with assms(2) have "c' = c\<lparr>tc_state := kDisconnecting\<rparr>" "acts = [QueueInLoop ForceCloseTask]"
    by (simp_all add: TcpConnection_forceClose_def)
  with True assms(1) show ?thesis
    by (intro conn_trans_notices) (auto simp: conn_ok_def pending_def writing_def)
next
  case False
  with assms show ?thesis by (auto simp: TcpConnection_forceClose_def conn_trans_refl)
qed

lemma event_trans:
  assumes "event_ok e c" "conn_ok c" "event_do e c = Some (c', acts)"
  shows "conn_trans (event_bytes e c) (event_fds e c) c acts c'"
proof (cases e)
  case (SetWatermarks low high lcb hcb)
  with assms have "conn_trans [] [] c acts c'"
    by (intro conn_trans_notices)
      (auto simp: TcpConnection_setOutputBufferWatermarks_def conn_ok_def pending_def writing_def split: if_splits)
  with SetWatermarks show ?thesis by simp
next
  case (SetCallbacks conn msg wc cl)
  then have "c' = c\<lparr>tc_connectionCallback := conn, tc_messageCallback := msg, tc_writeCompleteCallback := wc,
      tc_closeCallback := cl\<rparr>" "acts = []"
    using assms(3)
    by (auto simp: TcpConnection_setConnectionCallback_def TcpConnection_setMessageCallback_def
        TcpConnection_setWriteCompleteCallback_def TcpConnection_setCloseCallback_def)
  with assms(2) have "conn_trans [] [] c acts c'"
    by (intro conn_trans_notices) (auto simp: conn_ok_def pending_def writing_def)
  with SetCallbacks show ?thesis by simp
next
  case OnError
  with assms show ?thesis by (simp add: TcpConnection_handleError_def conn_trans_refl)
next
  case StoreDisconnecting
  with assms have "conn_trans [] [] c acts c'"
    by (intro conn_trans_notices) (auto simp: conn_ok_def pending_def writing_def)
  with StoreDisconnecting show ?thesis by simp
next
  case (QueueLate t)
  with assms have "c' = c" "acts = [QueueInLoop t]" "tc_state c \<noteq> kConnecting" by simp_all
  with assms(2) have "conn_trans [] (task_fds t) c acts c'" by (intro conn_transI) auto
  with QueueLate show ?thesis by simp
next
  case (TakeInput buf)
  with assms have "conn_trans [] [] c acts c'"
    by (intro conn_trans_notices) (auto simp: conn_ok_def pending_def writing_def)
  with TakeInput show ?thesis by simp
qed (use assms registered_open [OF assms(2)] loop_trans shutdown_trans send_trans sendFile_trans
      forceClose_trans in \<open>auto simp del: event_bytes.simps(1) event_fds.simps(1)\<close>)

lemma task_trans:
  assumes "write_ok w" "conn_ok c" "tc_state c \<noteq> kConnecting" "run_task w t c = Some (c', acts)"
  shows "conn_trans (task_bytes w t c) (task_fds t) c acts c'"
  using assms loop_trans by (cases t) (auto simp: conn_trans_refl)

section \<open>Invariant of the system\<close>

definition sys_ok :: "conn_sys \<Rightarrow> bool" where
  "sys_ok s \<longleftrightarrow>
     conn_ok (cs_conn s)
     \<and> (tc_state (cs_conn s) = kConnecting \<longrightarrow> cs_tasks s = [])
     \<and> sent_bytes (cs_trace s) @ pending (cs_conn s) = cs_accepted s
     \<and> count_list (cs_trace s) CallClose \<le> (if tc_state (cs_conn s) = kDisconnected then 1 else 0)
     \<and> count_list (cs_trace s) CallConnection \<le> state_calls (tc_state (cs_conn s))
     \<and> (\<forall>f. 0 \<le> f \<longrightarrow> count_list (cs_trace s) (CloseFd f) + count_list (owned_fds (cs_conn s)) f
              + count_list (queued_fds (cs_tasks s)) f \<le> count_list (cs_handed s) f)"

text \<open>One step of either kind: tasks \<open>ts0\<close> left in the queue, \<open>fs\<close> the descriptors that moved
  from the queue or from the caller to the operation.\<close>

lemma sys_ok_trans:
  assumes ok: "sys_ok s" and tr: "conn_trans bs fs (cs_conn s) acts c'"
    and rank: "tc_state c' = kConnecting \<Longrightarrow> ts0 = []"
    and fds: "\<And>f. 0 \<le> f \<Longrightarrow> count_list (queued_fds ts0) f + count_list fs f
               \<le> count_list (queued_fds (cs_tasks s)) f + count_list hs f"
  shows "sys_ok \<lparr>cs_conn = c', cs_tasks = ts0 @ queued_tasks acts, cs_trace = cs_trace s @ acts,
           cs_accepted = cs_accepted s @ bs, cs_handed = cs_handed s @ hs\<rparr>"
proof -
  have "count_list (cs_trace s @ acts) (CloseFd f) + count_list (owned_fds c') f
      + count_list (queued_fds (ts0 @ queued_tasks acts)) f \<le> count_list (cs_handed s @ hs) f"
    if "0 \<le> f" for f
  proof -
    have "count_list (cs_trace s) (CloseFd f) + count_list (owned_fds (cs_conn s)) f
        + count_list (queued_fds (cs_tasks s)) f \<le> count_list (cs_handed s) f"
      using ok that by (simp add: sys_ok_def)
    moreover have "count_list acts (CloseFd f) + count_list (owned_fds c') f
        + count_list (queued_fds (queued_tasks acts)) f
        \<le> count_list (owned_fds (cs_conn s)) f + count_list fs f"
      using tr that by (simp add: conn_trans_def)
    ultimately show ?thesis using fds [OF that] by simp
  qed
  moreover have "sent_bytes (cs_trace s @ acts) @ pending c' = cs_accepted s @ bs"
  proof -
    have "sent_bytes (cs_trace s) @ pending (cs_conn s) = cs_accepted s"
      "pending (cs_conn s) @ bs = sent_bytes acts @ pending c'"
      using ok tr by (simp_all add: sys_ok_def conn_trans_def)
    then show ?thesis by (metis append_assoc sent_bytes_simps(2))
  qed
  moreover have "count_list (cs_trace s @ acts) CallClose \<le> (if tc_state c' = kDisconnected then 1 else 0)"
    using ok tr by (simp add: sys_ok_def conn_trans_def split: if_splits)
  moreover have "count_list (cs_trace s @ acts) CallConnection \<le> state_calls (tc_state c')"
    using ok tr by (simp add: sys_ok_def conn_trans_def)
  moreover have "ts0 @ queued_tasks acts = []" if "tc_state c' = kConnecting"
    using rank [OF that] tr that by (simp add: conn_trans_def)
  ultimately show ?thesis using tr by (simp add: sys_ok_def conn_trans_def)
qed

lemma conn_trans_connecting:
  "conn_trans bs fs c acts c' \<Longrightarrow> tc_state c' = kConnecting \<Longrightarrow> tc_state c = kConnecting"
  by (cases "tc_state c") (auto simp: conn_trans_def)

lemma conn_step_trans:
  assumes "sys_ok s" "conn_step s e s'"
  obtains bs fs acts where "conn_trans bs fs (cs_conn s) acts (cs_conn s')"
    "cs_trace s' = cs_trace s @ acts"
  using assms(2)
proof cases
  case (conn_event c' acts)
  with that event_trans assms(1) show thesis by (fastforce simp: sys_ok_def)
next
  case (conn_task t ts w c' acts)
  with assms(1) have "tc_state (cs_conn s) \<noteq> kConnecting" by (auto simp: sys_ok_def)
  with conn_task that task_trans assms(1) show thesis by (fastforce simp: sys_ok_def)
qed

lemma conn_step_ok:
  assumes "sys_ok s" "conn_step s e s'"
  shows "sys_ok s'"
  using assms(2)
proof cases
  case (conn_event c' acts)
  have tr: "conn_trans (event_bytes e (cs_conn s)) (event_fds e (cs_conn s)) (cs_conn s) acts c'"
    using event_trans conn_event assms(1) by (simp add: sys_ok_def)
  show ?thesis unfolding conn_event(1)
    by (rule sys_ok_trans [OF assms(1) tr])
      (use conn_trans_connecting [OF tr] assms(1) in \<open>auto simp: sys_ok_def\<close>)
next
  case (conn_task t ts w c' acts)
  with assms(1) have opn: "tc_state (cs_conn s) \<noteq> kConnecting" by (auto simp: sys_ok_def)
  have tr: "conn_trans (task_bytes w t (cs_conn s)) (task_fds t) (cs_conn s) acts c'"
    using task_trans conn_task assms(1) opn by (simp add: sys_ok_def)
  show ?thesis unfolding conn_task(2)
    using sys_ok_trans [OF assms(1) tr, of ts "[]"] conn_trans_connecting [OF tr] opn conn_task(3)
    by auto
qed

lemma sys_ok_init: "sys_ok (conn_init nm sockfd l p)"
  by (simp add: sys_ok_def conn_init_def TcpConnection_new_def conn_ok_def pending_def owned_fds_def
      Channel_setErrorCallback_def Channel_setCloseCallback_def Channel_setWriteCallback_def
      Channel_setReadCallback_def Channel_new_def)

interpretation conn: step_invariant conn_step sys_ok
  by unfold_locales (rule conn_step_ok)

section \<open>Draining\<close>

text \<open>Successive EPOLLOUT events with the same kernel behaviour.\<close>

fun write_rounds ::
    "nat \<Rightarrow> (bytes \<Rightarrow> errno + nat) \<Rightarrow> (fd \<Rightarrow> nat \<Rightarrow> nat \<Rightarrow> errno + nat) \<Rightarrow> TcpConnection \<Rightarrow> conn_result" where
  "write_rounds 0 w sf c = Some (c, [])"
| "write_rounds (Suc k) w sf c =
     (case TcpConnection_handleWrite True w sf c of
        None \<Rightarrow> None
      | Some (c1, acts1) \<Rightarrow> map_option (\<lambda>(c2, acts2). (c2, acts1 @ acts2)) (write_rounds k w sf c1))"

text \<open>A kernel that takes at least one byte whenever some are offered.\<close>

definition write_progress :: "(bytes \<Rightarrow> errno + nat) \<Rightarrow> bool" where
  "write_progress w \<longleftrightarrow> (\<forall>xs. xs \<noteq> [] \<longrightarrow> (\<exists>n. w xs = Inr n \<and> 0 < n \<and> n \<le> length xs))"

definition sendfile_progress :: "(fd \<Rightarrow> nat \<Rightarrow> nat \<Rightarrow> errno + nat) \<Rightarrow> bool" where
  "sendfile_progress sf \<longleftrightarrow>
     (\<forall>f off cnt. \<exists>n. sf f off cnt = Inr n \<and> n \<le> cnt \<and> (0 < cnt \<longrightarrow> 0 < n))"

definition backlog :: "TcpConnection \<Rightarrow> nat" where
  "backlog c = length (pending c) + (if 0 \<le> tc_fileFd c then tc_fileSize c - tc_fileOffset c else 0)"

definition drained :: "TcpConnection \<Rightarrow> bool" where
  "drained c \<longleftrightarrow> pending c = [] \<and> tc_fileFd c < 0 \<and> \<not> writing c"

text \<open>The pieces of files a trace has sent, and that they are, in order, the bytes of \<open>f\<close> from \<open>off\<close> up to
  \<open>stop\<close>.\<close>

definition sent_files :: "conn_action list \<Rightarrow> (fd \<times> nat \<times> nat) list" where
  "sent_files acts = concat (map (\<lambda>a. case a of SentFile f off n \<Rightarrow> [(f, off, n)] | _ \<Rightarrow> []) acts)"

fun file_range :: "fd \<Rightarrow> nat \<Rightarrow> (fd \<times> nat \<times> nat) list \<Rightarrow> nat \<Rightarrow> bool" where
  "file_range f off [] stop \<longleftrightarrow> off = stop"
| "file_range f off ((g, start, n) # ps) stop \<longleftrightarrow> g = f \<and> start = off \<and> file_range f (off + n) ps stop"

lemma sent_files_simps [simp]:
  "sent_files [] = []" "sent_files (xs @ ys) = sent_files xs @ sent_files ys"
  "sent_files (a # xs) = (case a of SentFile f off n \<Rightarrow> [(f, off, n)] | _ \<Rightarrow> []) @ sent_files xs"
  by (simp_all add: sent_files_def)

lemma sent_files_ctl [simp]: "sent_files (ctl_of m c # xs) = sent_files xs"
  by (simp add: ctl_of_def)

lemma file_range_append:
  "file_range f off ps mid \<Longrightarrow> file_range f mid qs stop \<Longrightarrow> file_range f off (ps @ qs) stop"
  by (induction ps arbitrary: off) auto

lemma output_progress:
  assumes "conn_ok c" "write_progress w" "handleWrite_output w c = (g, c', acts)"
  shows "g \<and> pending c' = drop (length (sent_bytes acts)) (pending c) \<and> sent_bytes acts = take (length (sent_bytes acts)) (pending c)
    \<and> (pending c \<noteq> [] \<longrightarrow> 0 < length (sent_bytes acts))
    \<and> tc_state c' = tc_state c \<and> tc_fileFd c' = tc_fileFd c \<and> tc_fileSize c' = tc_fileSize c
    \<and> tc_fileOffset c' = tc_fileOffset c \<and> sent_files acts = []"
proof (cases "pending c = []")
  case True
  with assms(1,3) show ?thesis by (auto simp: handleWrite_output_def readable_pending conn_ok_def Let_def)
next
  case False
  with assms(2) obtain n where n: "w (pending c) = Inr n" "0 < n" "n \<le> length (pending c)"
    by (auto simp: write_progress_def)
  have ok: "Buffer_ok (tc_outputBuffer c)" using assms(1) by (simp add: conn_ok_def)
  have "g" "c' = c\<lparr>tc_outputBuffer := Buffer_retrieve (tc_outputBuffer c) n\<rparr>" "acts = [Sent (take n (pending c))]"
    using assms(3) n False ok
    by (auto simp: handleWrite_output_def Let_def pending_def simp flip: length_content)
  then show ?thesis using n ok by (simp add: pending_def buf.queue_laws min_def)
qed

lemma lowMark_same:
  "handleWrite_lowMark c = (c', acts) \<Longrightarrow> pending c' = pending c \<and> tc_state c' = tc_state c
    \<and> tc_fileFd c' = tc_fileFd c \<and> tc_fileSize c' = tc_fileSize c \<and> tc_fileOffset c' = tc_fileOffset c
    \<and> sent_bytes acts = [] \<and> sent_files acts = []"
  by (auto simp: handleWrite_lowMark_def pending_def Let_def split: if_splits)

lemma file_progress:
  assumes "conn_ok c" "sendfile_progress sf" "handleWrite_file sf c = (g, c', acts)"
  shows "g \<and> pending c' = pending c \<and> tc_state c' = tc_state c \<and> tc_fileFd c' = tc_fileFd c
    \<and> tc_fileSize c' = tc_fileSize c \<and> sent_bytes acts = [] \<and> tc_fileOffset c \<le> tc_fileOffset c'
    \<and> file_range (tc_fileFd c) (tc_fileOffset c) (sent_files acts) (tc_fileOffset c')
    \<and> (tc_fileFd c < 0 \<longrightarrow> sent_files acts = [])
    \<and> (pending c = [] \<and> 0 \<le> tc_fileFd c \<and> tc_fileOffset c < tc_fileSize c \<longrightarrow> tc_fileOffset c < tc_fileOffset c')"
proof (cases "pending c = [] \<and> 0 \<le> tc_fileFd c")
  case False
  with assms(1,3) show ?thesis by (auto simp: handleWrite_file_def readable_pending conn_ok_def)
next
  case True
  let ?cnt = "tc_fileSize c - tc_fileOffset c"
  obtain n where n: "sf (tc_fileFd c) (tc_fileOffset c) ?cnt = Inr n" "n \<le> ?cnt" "0 < ?cnt \<longrightarrow> 0 < n"
    using assms(2) unfolding sendfile_progress_def by blast
  have "readableBytes (tc_outputBuffer c) = 0" using True assms(1) by (simp add: readable_pending conn_ok_def)
  with assms(3) n True show ?thesis
    by (cases "0 < n") (auto simp: handleWrite_file_def pending_def)
qed

lemma sendfile_progress_ok: "sendfile_progress sf \<Longrightarrow> sendfile_ok sf"
  unfolding sendfile_progress_def sendfile_ok_def by (metis sum.inject(2))

lemma round_progress:
  assumes ok: "conn_ok c" and wr: "writing c" and w: "write_ok w" "write_progress w" and sf: "sendfile_progress sf"
  obtains c' acts where "TcpConnection_handleWrite True w sf c = Some (c', acts)" "conn_ok c'"
    "tc_state c' = tc_state c" "pending c = sent_bytes acts @ pending c'" "tc_fileFd c < 0 \<longrightarrow> sent_files acts = []"
    "drained c' \<and> (tc_state c = kDisconnecting \<longrightarrow> ShutdownWrite \<in> set acts)
       \<and> (0 \<le> tc_fileFd c \<longrightarrow> CloseFd (tc_fileFd c) \<in> set acts
            \<and> file_range (tc_fileFd c) (tc_fileOffset c) (sent_files acts) (tc_fileSize c))
     \<or> writing c' \<and> backlog c' < backlog c \<and> tc_fileFd c' = tc_fileFd c \<and> tc_fileSize c' = tc_fileSize c
       \<and> file_range (tc_fileFd c) (tc_fileOffset c) (sent_files acts) (tc_fileOffset c')"
proof -
  obtain g1 c1 a1 where o: "handleWrite_output w c = (g1, c1, a1)" by (metis prod_cases3)
  note t1 = handleWrite_output_trans [OF ok wr w(1) o]
  from t1 have ok1: "conn_ok c1" "writing c1" by (auto dest: conn_trans_ok)
  obtain c2 a2 where l: "handleWrite_lowMark c1 = (c2, a2)" by fastforce
  note t2 = handleWrite_lowMark_trans [OF ok1 l]
  from t2 have ok2: "conn_ok c2" "writing c2" by (auto dest: conn_trans_ok)
  obtain g3 c3 a3 where f: "handleWrite_file sf c2 = (g3, c3, a3)" by (metis prod_cases3)
  note t3 = handleWrite_file_trans [OF ok2 sendfile_progress_ok [OF sf] f]
  from t3 have ok3: "conn_ok c3" "writing c3" by (auto dest: conn_trans_ok)
  note p1 = output_progress [OF ok w(2) o] and p2 = lowMark_same [OF l] and p3 = file_progress [OF ok2(1) sf f]
  have eq: "TcpConnection_handleWrite True w sf c =
      map_option (\<lambda>(c4, a4). (c4, a1 @ a2 @ a3 @ a4)) (handleWrite_done True c3)"
    using o l f wr p1 p3 by (simp add: TcpConnection_handleWrite_def writing_def)
  have sent: "pending c = sent_bytes (a1 @ a2 @ a3) @ pending c3"
    using p1 p2 p3 by (metis append_Nil2 append_take_drop_id sent_bytes_simps(2))
  have file3: "tc_fileFd c3 = tc_fileFd c" "tc_fileSize c3 = tc_fileSize c" "tc_fileOffset c \<le> tc_fileOffset c3"
    "tc_state c3 = tc_state c" using p1 p2 p3 by auto
  have range: "file_range (tc_fileFd c) (tc_fileOffset c) (sent_files (a1 @ a2 @ a3)) (tc_fileOffset c3)"
    "tc_fileFd c < 0 \<longrightarrow> sent_files (a1 @ a2 @ a3) = []" using p1 p2 p3 by simp_all
  show thesis
  proof (cases "pending c3 = [] \<and> (tc_fileFd c3 < 0 \<or> tc_fileOffset c3 = tc_fileSize c3)")
    case True
    from handleWrite_done_eq [OF ok3(1)] True obtain c4 a4 where d: "handleWrite_done True c3 = Some (c4, a4)"
      and c4: "pending c4 = []" "tc_fileFd c4 < 0" "\<not> writing c4" "tc_state c4 = tc_state c3"
      and a4: "sent_bytes a4 = []" "tc_state c3 = kDisconnecting \<longrightarrow> ShutdownWrite \<in> set a4"
        "sent_files a4 = []" "0 \<le> tc_fileFd c3 \<longrightarrow> CloseFd (tc_fileFd c3) \<in> set a4"
      by (auto simp: pending_def writing_alt ctl_of_def)
    have "conn_ok c4" using handleWrite_done_trans [OF ok3 d] by (rule conn_trans_ok)
    then show thesis using that [of c4 "a1 @ a2 @ a3 @ a4"] eq d c4 a4 sent file3 True range
      by (auto simp: drained_def)
  next
    case False
    then have d: "handleWrite_done True c3 = Some (c3, [])"
      using ok3(1) by (auto simp: handleWrite_done_def readable_pending conn_ok_def)
    have "backlog c3 < backlog c"
    proof (cases "pending c = []")
      case False
      with p1 have "length (pending c1) < length (pending c)" by simp
      moreover have "tc_fileSize c3 - tc_fileOffset c3 \<le> tc_fileSize c - tc_fileOffset c"
        using file3 by simp
      ultimately show ?thesis using p2 p3 file3 by (auto simp: backlog_def)
    next
      case True
      with p1 p2 p3 have "pending c2 = []" "pending c3 = []" by simp_all
      with False file3 p1 p2 ok3(1) have "0 \<le> tc_fileFd c2" "tc_fileOffset c2 < tc_fileSize c2"
        by (auto simp: conn_ok_def)
      then show ?thesis using p1 p2 p3 file3 True \<open>pending c2 = []\<close> by (auto simp: backlog_def)
    qed
    then show thesis using that [of c3 "a1 @ a2 @ a3"] eq d sent file3 ok3 range by simp
  qed
qed

lemma write_rounds_drain:
  assumes "conn_ok c" "writing c" "write_ok w" "write_progress w" "sendfile_progress sf"
  shows "\<exists>k c' acts. k \<le> Suc (backlog c) \<and> write_rounds k w sf c = Some (c', acts) \<and> drained c'
     \<and> sent_bytes acts = pending c \<and> (tc_state c = kDisconnecting \<longrightarrow> ShutdownWrite \<in> set acts)
     \<and> (if 0 \<le> tc_fileFd c
        then CloseFd (tc_fileFd c) \<in> set acts
          \<and> file_range (tc_fileFd c) (tc_fileOffset c) (sent_files acts) (tc_fileSize c)
        else sent_files acts = [])"
  using assms(1,2)
proof (induction "backlog c" arbitrary: c rule: less_induct)
  case less
  obtain c1 a1 where r: "TcpConnection_handleWrite True w sf c = Some (c1, a1)" "conn_ok c1"
    "tc_state c1 = tc_state c" "pending c = sent_bytes a1 @ pending c1" "tc_fileFd c < 0 \<longrightarrow> sent_files a1 = []"
    and or: "drained c1 \<and> (tc_state c = kDisconnecting \<longrightarrow> ShutdownWrite \<in> set a1)
       \<and> (0 \<le> tc_fileFd c \<longrightarrow> CloseFd (tc_fileFd c) \<in> set a1
            \<and> file_range (tc_fileFd c) (tc_fileOffset c) (sent_files a1) (tc_fileSize c))
     \<or> writing c1 \<and> backlog c1 < backlog c \<and> tc_fileFd c1 = tc_fileFd c \<and> tc_fileSize c1 = tc_fileSize c
       \<and> file_range (tc_fileFd c) (tc_fileOffset c) (sent_files a1) (tc_fileOffset c1)"
    by (rule round_progress [OF less.prems assms(3-5)])
  show ?case
  proof (cases "drained c1 \<and> (tc_state c = kDisconnecting \<longrightarrow> ShutdownWrite \<in> set a1)
       \<and> (0 \<le> tc_fileFd c \<longrightarrow> CloseFd (tc_fileFd c) \<in> set a1
            \<and> file_range (tc_fileFd c) (tc_fileOffset c) (sent_files a1) (tc_fileSize c))")
    case d: True
    have "write_rounds (Suc 0) w sf c = Some (c1, a1)" using r(1) by simp
    with d r(4,5) show ?thesis by (intro exI [of _ "Suc 0"]) (simp add: drained_def)
  next
    case False
    with or have p: "writing c1" "backlog c1 < backlog c" "tc_fileFd c1 = tc_fileFd c" "tc_fileSize c1 = tc_fileSize c"
      "file_range (tc_fileFd c) (tc_fileOffset c) (sent_files a1) (tc_fileOffset c1)" by blast+
    from less.hyps [OF p(2) r(2) p(1)] obtain k c' a where k: "k \<le> Suc (backlog c1)"
      "write_rounds k w sf c1 = Some (c', a)" "drained c'" "sent_bytes a = pending c1"
      "tc_state c1 = kDisconnecting \<longrightarrow> ShutdownWrite \<in> set a"
      and f: "if 0 \<le> tc_fileFd c1 then CloseFd (tc_fileFd c1) \<in> set a
          \<and> file_range (tc_fileFd c1) (tc_fileOffset c1) (sent_files a) (tc_fileSize c1) else sent_files a = []" by blast
    have "write_rounds (Suc k) w sf c = Some (c', a1 @ a)" using r(1) k(2) by simp
    moreover have "if 0 \<le> tc_fileFd c then CloseFd (tc_fileFd c) \<in> set (a1 @ a)
        \<and> file_range (tc_fileFd c) (tc_fileOffset c) (sent_files (a1 @ a)) (tc_fileSize c) else sent_files (a1 @ a) = []"
      using f p(3,4) r(5) file_range_append [OF p(5)] by (simp split: if_splits)
    ultimately show ?thesis using k p(2) r(3,4) by (intro exI [of _ "Suc k"]) simp
  qed
qed

section \<open>Watermarks\<close>

text \<open>The watermark notifications of a trace: \<open>True\<close> marks a high one.\<close>

definition marks :: "conn_action list \<Rightarrow> (bool \<times> nat) list" where
  "marks acts = concat (map (\<lambda>a. case a of
     QueueInLoop (HighWaterTask n) \<Rightarrow> [(True, n)] | QueueInLoop (LowWaterTask n) \<Rightarrow> [(False, n)] | _ \<Rightarrow> []) acts)"

text \<open>\<open>alternates low high a ms b\<close>: from "above" flag \<open>a\<close> the notifications alternate, each
  within its bound, and end with flag \<open>b\<close>.\<close>

fun alternates :: "nat \<Rightarrow> nat \<Rightarrow> bool \<Rightarrow> (bool \<times> nat) list \<Rightarrow> bool \<Rightarrow> bool" where
  "alternates low high a [] b \<longleftrightarrow> a = b"
| "alternates low high a ((True, n) # ms) b \<longleftrightarrow> \<not> a \<and> high \<le> n \<and> alternates low high True ms b"
| "alternates low high a ((False, n) # ms) b \<longleftrightarrow> a \<and> n \<le> low \<and> alternates low high False ms b"

definition marks_set :: "nat \<Rightarrow> nat \<Rightarrow> TcpConnection \<Rightarrow> bool" where
  "marks_set low high c \<longleftrightarrow> tc_lowWaterMark c = low \<and> tc_highWaterMark c = high
     \<and> tc_lowWaterMarkCallback c \<and> tc_highWaterMarkCallback c"

definition marks_trans :: "nat \<Rightarrow> nat \<Rightarrow> TcpConnection \<Rightarrow> conn_action list \<Rightarrow> TcpConnection \<Rightarrow> bool" where
  "marks_trans low high c acts c' \<longleftrightarrow> marks_set low high c'
     \<and> alternates low high (tc_aboveHighWaterMark c) (marks acts) (tc_aboveHighWaterMark c')"

lemma marks_simps [simp]:
  "marks [] = []" "marks (xs @ ys) = marks xs @ marks ys"
  "marks (a # xs) = (case a of QueueInLoop (HighWaterTask n) \<Rightarrow> [(True, n)]
     | QueueInLoop (LowWaterTask n) \<Rightarrow> [(False, n)] | _ \<Rightarrow> []) @ marks xs"
  by (simp_all add: marks_def)

lemma ctl_of_marks [simp]: "marks [ctl_of m c] = []"
  by (simp add: ctl_of_def)

lemma marks_ctl_cons [simp]: "marks (ctl_of m c # xs) = marks xs"
  by (simp add: ctl_of_def)

declare marks_simps(3) [simp del]

lemmas marks_cons = marks_simps(3)

lemma alternates_append:
  "alternates low high a ms b \<Longrightarrow> alternates low high b ns d \<Longrightarrow> alternates low high a (ms @ ns) d"
  by (induction low high a ms b rule: alternates.induct) auto

lemma marks_trans_compose:
  "marks_trans low high c as c1 \<Longrightarrow> marks_trans low high c1 bs c2 \<Longrightarrow> marks_trans low high c (as @ bs) c2"
  by (auto simp: marks_trans_def intro: alternates_append)

lemma marks_trans_none:
  "marks_set low high c \<Longrightarrow> marks acts = [] \<Longrightarrow> tc_aboveHighWaterMark c' = tc_aboveHighWaterMark c \<Longrightarrow>
   tc_lowWaterMark c' = tc_lowWaterMark c \<Longrightarrow> tc_highWaterMark c' = tc_highWaterMark c \<Longrightarrow>
   tc_lowWaterMarkCallback c' = tc_lowWaterMarkCallback c \<Longrightarrow>
   tc_highWaterMarkCallback c' = tc_highWaterMarkCallback c \<Longrightarrow> marks_trans low high c acts c'"
  by (simp add: marks_trans_def marks_set_def)

lemma sendInLoop_queue_marks:
  "marks_set low high c \<Longrightarrow> sendInLoop_queue xs c = (c', acts) \<Longrightarrow> marks_trans low high c acts c'"
  by (auto simp: sendInLoop_queue_def marks_trans_def marks_set_def marks_cons Let_def ctl_of_def split: if_splits)

lemma sendInLoop_marks:
  assumes "marks_set low high c" "TcpConnection_sendInLoop True w m c = Some (c', acts)"
  shows "marks_trans low high c acts c'"
proof -
  obtain n k fault a1 where wr: "sendInLoop_write w m c = (n, k, fault, a1)" by (metis prod_cases4)
  have m1: "marks a1 = []"
    using wr by (auto simp: sendInLoop_write_def marks_cons Let_def split: if_splits sum.splits)
  then have same: "marks_trans low high c a1 c" using assms(1) by (simp add: marks_trans_none)
  obtain c1 a2 where q: "sendInLoop_queue (drop n m) c = (c1, a2)" by fastforce
  from assms(2) wr q consider "c' = c" "acts = []" | "c' = c" "acts = a1" | "c' = c1" "acts = a1 @ a2"
    by (auto simp: TcpConnection_sendInLoop_def split: if_splits)
  then show ?thesis
    using same marks_trans_compose [OF same sendInLoop_queue_marks [OF assms(1) q]] assms(1)
    by cases (auto simp: marks_trans_none)
qed

lemma lowMark_marks:
  assumes "marks_set low high c" "handleWrite_lowMark c = (c', acts)"
  shows "marks_trans low high c acts c'"
  using assms by (auto simp: handleWrite_lowMark_def marks_trans_def marks_set_def marks_cons Let_def split: if_splits)

lemma output_marks:
  "marks_set low high c \<Longrightarrow> handleWrite_output w c = (g, c', acts) \<Longrightarrow> marks_trans low high c acts c'"
  by (auto simp: handleWrite_output_def marks_cons Let_def split: if_splits sum.splits intro!: marks_trans_none)

lemma file_marks:
  assumes "marks_set low high c" "handleWrite_file sf c = (g, c', acts)"
  shows "marks_trans low high c acts c'"
proof -
  let ?sf = "sf (tc_fileFd c) (tc_fileOffset c) (tc_fileSize c - tc_fileOffset c)"
  have "marks acts = [] \<and> tc_aboveHighWaterMark c' = tc_aboveHighWaterMark c
      \<and> tc_lowWaterMark c' = tc_lowWaterMark c \<and> tc_highWaterMark c' = tc_highWaterMark c
      \<and> tc_lowWaterMarkCallback c' = tc_lowWaterMarkCallback c
      \<and> tc_highWaterMarkCallback c' = tc_highWaterMarkCallback c"
    using assms(2) by (cases ?sf) (auto simp: handleWrite_file_def marks_cons split: if_splits)
  with assms(1) show ?thesis by (auto intro: marks_trans_none)
qed

lemma done_marks:
  "marks_set low high c \<Longrightarrow> handleWrite_done True c = Some (c', acts) \<Longrightarrow> marks_trans low high c acts c'"
  by (auto simp: handleWrite_done_def TcpConnection_shutdownInLoop_def marks_cons ctl_of_def Let_def
      split: if_splits intro!: marks_trans_none)

lemma marks_kept: "marks_trans low high c acts c' \<Longrightarrow> marks_set low high c'"
  by (simp add: marks_trans_def)

lemma handleWrite_marks:
  assumes "marks_set low high c" "TcpConnection_handleWrite True w sf c = Some (c', acts)"
  shows "marks_trans low high c acts c'"
proof -
  have "marks_set low high c \<longrightarrow> marks_trans low high c acts c'"
    by (rule handleWrite_closed [OF assms(2), where R = "\<lambda>c acts c'. marks_set low high c \<longrightarrow> marks_trans low high c acts c'"])
      (auto intro: marks_trans_none marks_trans_compose output_marks lowMark_marks file_marks done_marks dest: marks_kept)
  with assms(1) show ?thesis by simp
qed

lemma handleClose_marks:
  "marks_set low high c \<Longrightarrow> TcpConnection_handleClose True c = Some (c', acts) \<Longrightarrow> marks_trans low high c acts c'"
  by (rule marks_trans_none, assumption)
    (auto simp: TcpConnection_handleClose_def marks_cons ctl_of_def Let_def split: if_splits)

lemma handleRead_marks:
  assumes "marks_set low high c" "TcpConnection_handleRead True rd c = Some (c', acts)"
  shows "marks_trans low high c acts c'"
proof -
  obtain n b where n: "Buffer_readFd rd (tc_inputBuffer c) = (n, b)" by fastforce
  let ?c1 = "c\<lparr>tc_inputBuffer := b\<rparr>"
  have m1: "marks_set low high ?c1" using assms(1) by (simp add: marks_set_def)
  from assms(2) n consider "TcpConnection_handleClose True ?c1 = Some (c', acts)"
    | "c' = ?c1" "acts = [] \<or> acts = [CallMessage]"
    by (auto simp: TcpConnection_handleRead_def TcpConnection_handleError_def Let_def
        split: sum.splits if_splits)
  then show ?thesis
  proof cases
    case 1
    from handleClose_marks [OF m1 this] show ?thesis by (simp add: marks_trans_def)
  next
    case 2
    with assms(1) show ?thesis by (auto simp: marks_cons intro!: marks_trans_none)
  qed
qed

lemma lifecycle_marks:
  assumes "marks_set low high c"
  shows "TcpConnection_connectEstablished True c = Some (c', acts) \<Longrightarrow> marks_trans low high c acts c'"
    and "TcpConnection_connectDestroyed True c = Some (c', acts) \<Longrightarrow> marks_trans low high c acts c'"
    and "TcpConnection_shutdownInLoop True c = Some (c', acts) \<Longrightarrow> marks_trans low high c acts c'"
    and "TcpConnection_sendFileInLoop True f sz c = Some (c', acts) \<Longrightarrow> marks_trans low high c acts c'"
    and "TcpConnection_forceCloseInLoop True c = Some (c', acts) \<Longrightarrow> marks_trans low high c acts c'"
proof -
  note none = marks_trans_none [OF assms]
  show "TcpConnection_connectEstablished True c = Some (c', acts) \<Longrightarrow> marks_trans low high c acts c'"
    by (rule none) (auto simp: TcpConnection_connectEstablished_def marks_cons ctl_of_def Let_def split: if_splits)
  show "TcpConnection_connectDestroyed True c = Some (c', acts) \<Longrightarrow> marks_trans low high c acts c'"
    by (rule none) (auto simp: TcpConnection_connectDestroyed_def marks_cons ctl_of_def Let_def split: if_splits)
  show "TcpConnection_shutdownInLoop True c = Some (c', acts) \<Longrightarrow> marks_trans low high c acts c'"
    by (rule none) (auto simp: TcpConnection_shutdownInLoop_def marks_cons split: if_splits)
  show "TcpConnection_sendFileInLoop True f sz c = Some (c', acts) \<Longrightarrow> marks_trans low high c acts c'"
    by (rule none) (auto simp: TcpConnection_sendFileInLoop_def marks_cons ctl_of_def Let_def split: if_splits)
  show "TcpConnection_forceCloseInLoop True c = Some (c', acts) \<Longrightarrow> marks_trans low high c acts c'"
    using handleClose_marks [OF assms] none
    by (auto simp: TcpConnection_forceCloseInLoop_def split: if_splits)
qed

lemma user_marks:
  assumes "marks_set low high c"
  shows "TcpConnection_send i w m c = Some (c', acts) \<Longrightarrow> marks_trans low high c acts c'"
    and "TcpConnection_sendFile i f sz c = Some (c', acts) \<Longrightarrow> marks_trans low high c acts c'"
    and "TcpConnection_shutdown i c = Some (c', acts) \<Longrightarrow> marks_trans low high c acts c'"
    and "TcpConnection_forceClose c = Some (c', acts) \<Longrightarrow> marks_trans low high c acts c'"
proof -
  note none = marks_trans_none [OF assms]
  show "TcpConnection_send i w m c = Some (c', acts) \<Longrightarrow> marks_trans low high c acts c'"
    using sendInLoop_marks [OF assms] none
    by (auto simp: TcpConnection_send_def marks_cons split: if_splits)
  show "TcpConnection_sendFile i f sz c = Some (c', acts) \<Longrightarrow> marks_trans low high c acts c'"
    using lifecycle_marks(4) [OF assms] none
    by (auto simp: TcpConnection_sendFile_def marks_cons split: if_splits)
  show "TcpConnection_shutdown i c = Some (c', acts) \<Longrightarrow> marks_trans low high c acts c'"
    by (rule none) (auto simp: TcpConnection_shutdown_def TcpConnection_shutdownInLoop_def marks_cons
        Let_def split: if_splits)
  show "TcpConnection_forceClose c = Some (c', acts) \<Longrightarrow> marks_trans low high c acts c'"
    by (rule none) (auto simp: TcpConnection_forceClose_def marks_cons split: if_splits)
qed

fun sets_marks :: "conn_event \<Rightarrow> bool" where
  "sets_marks (SetWatermarks _ _ _ _) \<longleftrightarrow> True"
| "sets_marks _ \<longleftrightarrow> False"

lemma event_marks:
  assumes "marks_set low high c" "event_do e c = Some (c', acts)" "\<not> sets_marks e" "event_ok e c"
  shows "marks_trans low high c acts c'"
proof (cases e)
  case (QueueLate t)
  with assms show ?thesis by (cases t) (auto simp: marks_cons intro!: marks_trans_none)
qed (use assms(2,3) handleClose_marks [OF assms(1)] handleRead_marks [OF assms(1)] handleWrite_marks [OF assms(1)]
    lifecycle_marks [OF assms(1)] user_marks [OF assms(1)] marks_trans_none [OF assms(1)]
  in \<open>auto simp: TcpConnection_handleError_def
      TcpConnection_setConnectionCallback_def TcpConnection_setMessageCallback_def
      TcpConnection_setWriteCompleteCallback_def TcpConnection_setCloseCallback_def\<close>)

lemma task_marks:
  assumes "marks_set low high c" "run_task w t c = Some (c', acts)"
  shows "marks_trans low high c acts c'"
  using assms sendInLoop_marks [OF assms(1)] lifecycle_marks [OF assms(1)] marks_trans_none [OF assms(1)]
  by (cases t) auto

lemma step_marks:
  assumes "conn_step s e s'" "marks_set low high (cs_conn s)" "\<not> sets_marks e"
  obtains acts where "cs_trace s' = cs_trace s @ acts" "marks_trans low high (cs_conn s) acts (cs_conn s')"
  using assms(1)
proof cases
  case (conn_event c' acts)
  with that event_marks assms(2,3) show thesis by simp
next
  case (conn_task t ts w c' acts)
  with that task_marks assms(2) show thesis by simp
qed

lemma run_marks:
  assumes "run conn_step s es s'" "marks_set low high (cs_conn s)" "list_all (\<lambda>e. \<not> sets_marks e) es"
  obtains acts where "cs_trace s' = cs_trace s @ acts" "marks_trans low high (cs_conn s) acts (cs_conn s')"
  using assms
proof (induction arbitrary: thesis rule: run.induct)
  case (run_nil s)
  then show ?case using marks_trans_none [of low high "cs_conn s" "[]" "cs_conn s"] by simp
next
  case (run_cons s e t es u)
  from run_cons.prems have e: "\<not> sets_marks e" "list_all (\<lambda>e. \<not> sets_marks e) es" by simp_all
  obtain a1 where a1: "cs_trace t = cs_trace s @ a1" "marks_trans low high (cs_conn s) a1 (cs_conn t)"
    by (rule step_marks [OF run_cons.hyps(1) run_cons.prems(2) e(1)])
  then have "marks_set low high (cs_conn t)" by (simp add: marks_trans_def)
  then obtain a2 where "cs_trace u = cs_trace t @ a2" "marks_trans low high (cs_conn t) a2 (cs_conn u)"
    using run_cons.IH e(2) by blast
  with a1 show ?case using run_cons.prems(1) [of "a1 @ a2"] by (auto intro: marks_trans_compose)
qed

section \<open>Runs from the constructor\<close>

lemma run_init_ok: "run conn_step (conn_init nm sockfd l p) es s \<Longrightarrow> sys_ok s"
  using conn.inv_run sys_ok_init by blast

lemma run_trace_rank:
  assumes "run conn_step s es t" "sys_ok s"
  shows "\<exists>acts. cs_trace t = cs_trace s @ acts
     \<and> state_rank (tc_state (cs_conn s)) \<le> state_rank (tc_state (cs_conn t))
     \<and> (tc_state (cs_conn s) = kDisconnected \<longrightarrow> list_all (\<lambda>a. \<not> is_transmission a) acts)"
  using assms
proof (induction rule: run.induct)
  case (run_nil s)
  then show ?case by simp
next
  case (run_cons s e t es u)
  obtain bs fs as where tr: "conn_trans bs fs (cs_conn s) as (cs_conn t)" "cs_trace t = cs_trace s @ as"
    by (rule conn_step_trans [OF run_cons.prems run_cons.hyps(1)])
  obtain as' where as': "cs_trace u = cs_trace t @ as'"
     "state_rank (tc_state (cs_conn t)) \<le> state_rank (tc_state (cs_conn u))"
     "tc_state (cs_conn t) = kDisconnected \<longrightarrow> list_all (\<lambda>a. \<not> is_transmission a) as'"
    using run_cons.IH conn_step_ok [OF run_cons.prems run_cons.hyps(1)] by blast
  have "tc_state (cs_conn t) = kDisconnected" if "tc_state (cs_conn s) = kDisconnected"
    using tr(1) that by (cases "tc_state (cs_conn t)") (simp_all add: conn_trans_def)
  with tr as' show ?case
    by (intro exI [of _ "as @ as'"]) (auto simp: conn_trans_def)
qed

lemma conn_step_eventI:
  assumes "event_ok e (cs_conn s)" "event_do e (cs_conn s) = Some (c', acts)"
  obtains s' where "conn_step s e s'" "cs_conn s' = c'" "cs_trace s' = cs_trace s @ acts"
    "cs_accepted s' = cs_accepted s @ event_bytes e (cs_conn s)"
    "cs_handed s' = cs_handed s @ event_fds e (cs_conn s)"
    "cs_tasks s' = cs_tasks s @ queued_tasks acts"
  using conn_event [OF assms] by simp

lemma sendInLoop_returns: "\<exists>c' acts. TcpConnection_sendInLoop True w m c = Some (c', acts)"
  by (simp add: TcpConnection_sendInLoop_def split: prod.splits)

text \<open>A freshly established connection, for concrete runs.\<close>

lemma established:
  obtains s where "conn_step (conn_init nm sockfd l p) Establish s" "tc_state (cs_conn s) = kConnected"
    "\<not> Channel_isWriting (tc_channel (cs_conn s))" "readableBytes (tc_outputBuffer (cs_conn s)) = 0"
    "cs_accepted s = []" "cs_handed s = []" "tc_fileFd (cs_conn s) = -1" "ch_inEpoll (tc_channel (cs_conn s))"
    "\<not> tc_aboveHighWaterMark (cs_conn s)"
proof -
  obtain c acts where c: "event_do Establish (cs_conn (conn_init nm sockfd l p)) = Some (c, acts)"
    "tc_state c = kConnected" "\<not> Channel_isWriting (tc_channel c)" "readableBytes (tc_outputBuffer c) = 0"
    "tc_fileFd c = -1" "ch_inEpoll (tc_channel c)" "\<not> tc_aboveHighWaterMark c"
    by (simp add: TcpConnection_connectEstablished_def conn_init_def TcpConnection_new_def Let_def
        Channel_setErrorCallback_def Channel_setCloseCallback_def Channel_setWriteCallback_def
        Channel_setReadCallback_def Channel_new_def Channel_tie_def Channel_isWriting_def
        readableBytes_def Buffer_new_def epoll_bits)
  obtain s where "conn_step (conn_init nm sockfd l p) Establish s" "cs_conn s = c"
    "cs_accepted s = cs_accepted (conn_init nm sockfd l p)" "cs_handed s = cs_handed (conn_init nm sockfd l p)"
    by (rule conn_step_eventI [OF _ c(1)]) simp_all
  with c that show thesis by (simp add: conn_init_def TcpConnection_new_def)
qed

section \<open>Properties\<close>

text \<open>In this section a run is one of \<open>conn_step\<close>: user calls from any thread, also with their store and their push on the queue
  separated from their test, except that no such store comes after the loop has closed the connection.\<close>





text \<open>C7. Lifecycle: along every run, user calls interleaved as said above (so no \<open>shutdown\<close> or \<open>forceClose\<close> of another
  thread stores its state over a close that came after its test), the state only moves forward from connecting through connected and
  disconnecting to disconnected; the close callback runs at most once and the connection callback
  at most twice (up and down); and once disconnected, no later step sends a byte or a file.\<close>

theorem connection_lifecycle:
  assumes "run conn_step (conn_init nm sockfd l p) es s" "run conn_step s fs t"
  shows "state_rank (tc_state (cs_conn s)) \<le> state_rank (tc_state (cs_conn t))
    \<and> count_list (cs_trace t) CallClose \<le> 1 \<and> count_list (cs_trace t) CallConnection \<le> 2
    \<and> (tc_state (cs_conn s) = kDisconnected \<longrightarrow>
         list_all (\<lambda>a. \<not> is_transmission a) (drop (length (cs_trace s)) (cs_trace t)))"
proof -
  note ok = run_init_ok [OF assms(1)]
  have "sys_ok t" by (rule conn.inv_run [OF assms(2) ok])
  moreover have "state_calls st \<le> 2" for st by (cases st) simp_all
  ultimately have "count_list (cs_trace t) CallClose \<le> 1" "count_list (cs_trace t) CallConnection \<le> 2"
    by (auto simp: sys_ok_def split: if_splits intro: order_trans)
  with run_trace_rank [OF assms(2) ok] show ?thesis by auto
qed

theorem connection_lifecycle_witness:
  "\<exists>s t. run conn_step (conn_init ''c'' 7 InetAddress_zero InetAddress_zero) [Establish] s
     \<and> run conn_step s [OnClose] t \<and> tc_state (cs_conn t) = kDisconnected
     \<and> count_list (cs_trace t) CallConnection \<le> 2"
proof -
  obtain s where s: "conn_step (conn_init ''c'' 7 InetAddress_zero InetAddress_zero) Establish s"
    "tc_state (cs_conn s) = kConnected" "ch_inEpoll (tc_channel (cs_conn s))" by (rule established)
  obtain c acts where ev: "event_do OnClose (cs_conn s) = Some (c, acts)" "tc_state c = kDisconnected"
    using s(2) by (simp add: handleClose_eq)
  obtain t where t: "conn_step s OnClose t" "cs_conn t = c"
    by (rule conn_step_eventI [OF _ ev(1)]) (use s(3) in simp_all)
  have r: "run conn_step (conn_init ''c'' 7 InetAddress_zero InetAddress_zero) [Establish] s"
    "run conn_step s [OnClose] t"
    using s(1) t(1) by (auto intro: run.intros)
  from connection_lifecycle [OF r] r t(2) ev(2) show ?thesis by blast
qed

text \<open>C9. Files: a descriptor handed to \<open>sendFile\<close> is never closed more often than it was handed over,
  counting the one being sent and those still queued: no descriptor is closed twice, and none is
  closed that the connection does not own.\<close>

theorem connection_fds_closed_once:
  assumes "run conn_step (conn_init nm sockfd l p) es s" "0 \<le> f"
  shows "count_list (cs_trace s) (CloseFd f) + count_list (owned_fds (cs_conn s)) f
       + count_list (queued_fds (cs_tasks s)) f \<le> count_list (cs_handed s) f"
  using run_init_ok [OF assms(1)] assms(2) by (simp add: sys_ok_def)

theorem connection_fds_closed_once_witness:
  "\<exists>s. run conn_step (conn_init ''c'' 7 InetAddress_zero InetAddress_zero) [Establish, CallSendFile False 9 100] s
     \<and> cs_handed s = [9] \<and> count_list (cs_trace s) (CloseFd 9) = 0"
proof -
  let ?e = "CallSendFile False 9 100"
  obtain s where s: "conn_step (conn_init ''c'' 7 InetAddress_zero InetAddress_zero) Establish s"
    "tc_state (cs_conn s) = kConnected" "cs_handed s = []" by (rule established)
  have ev: "event_do ?e (cs_conn s) = Some (cs_conn s, [QueueInLoop (SendFileTask 9 100)])"
    using s(2) by (simp add: TcpConnection_sendFile_def)
  obtain t where t: "conn_step s ?e t" "cs_handed t = [9]" "9 \<in> set (queued_fds (cs_tasks t))"
    by (rule conn_step_eventI [OF _ ev]) (simp_all add: s(2,3))
  have r: "run conn_step (conn_init ''c'' 7 InetAddress_zero InetAddress_zero) [Establish, ?e] t"
    using s(1) t(1) by (auto intro: run.intros)
  have "count_list (queued_fds (cs_tasks t)) 9 \<noteq> 0" using t(3) by (simp add: count_list_0_iff)
  with connection_fds_closed_once [OF r, of 9] t(2) r show ?thesis by (intro exI [of _ t]) simp
qed

text \<open>C10. Watermarks: from the step of a run that installs both callbacks on, as long as the marks and callbacks
  are not set again, the notifications strictly alternate, beginning with a high one if the connection was below its
  high mark and with a low one otherwise; each high one reports at least the high mark, each low
  one at most the low mark; and the connection's flag says which came last.\<close>

theorem connection_watermarks:
  assumes "run conn_step (conn_init nm sockfd l p) ds r" "conn_step r (SetWatermarks low high True True) s"
    and "run conn_step s es t" "list_all (\<lambda>e. \<not> sets_marks e) es"
  shows "\<exists>acts. cs_trace t = cs_trace s @ acts
    \<and> alternates low high (tc_aboveHighWaterMark (cs_conn s)) (marks acts) (tc_aboveHighWaterMark (cs_conn t))"
proof -
  from assms(2) have s: "marks_set low high (cs_conn s)"
    by (auto simp: conn_step.simps TcpConnection_setOutputBufferWatermarks_def marks_set_def split: if_splits)
  obtain acts where "cs_trace t = cs_trace s @ acts" "marks_trans low high (cs_conn s) acts (cs_conn t)"
    by (rule run_marks [OF assms(3) s assms(4)])
  then show ?thesis by (auto simp: marks_trans_def)
qed

text \<open>Five bytes that the socket refuses cross the high mark; writing them out crosses the low one.\<close>

theorem connection_watermarks_witness:
  "\<exists>r s t acts. run conn_step (conn_init ''c'' 7 InetAddress_zero InetAddress_zero) [Establish] r
     \<and> conn_step r (SetWatermarks 1 4 True True) s
     \<and> run conn_step s [CallSend True (\<lambda>_. Inl EAGAIN) ''hello'', OnWrite (\<lambda>xs. Inr (length xs)) (\<lambda>f off cnt. Inr cnt)] t
     \<and> cs_trace t = cs_trace s @ acts \<and> marks acts = [(True, 5), (False, 0)]
     \<and> alternates 1 4 False (marks acts) (tc_aboveHighWaterMark (cs_conn t))"
proof -
  let ?i = "conn_init ''c'' 7 InetAddress_zero InetAddress_zero" and ?m = "SetWatermarks 1 4 True True"
  let ?e = "CallSend True (\<lambda>_. Inl EAGAIN) ''hello''" and ?f = "OnWrite (\<lambda>xs. Inr (length xs)) (\<lambda>f off cnt. Inr cnt)"
  obtain r where r: "conn_step ?i Establish r" "tc_state (cs_conn r) = kConnected"
    "\<not> Channel_isWriting (tc_channel (cs_conn r))" "readableBytes (tc_outputBuffer (cs_conn r)) = 0"
    "tc_fileFd (cs_conn r) = -1" "ch_inEpoll (tc_channel (cs_conn r))" "\<not> tc_aboveHighWaterMark (cs_conn r)" by (rule established)
  have run: "run conn_step ?i [Establish] r" using r(1) by (auto intro: run.intros)
  have ok: "Buffer_ok (tc_outputBuffer (cs_conn r))" using run_init_ok [OF run] by (simp add: sys_ok_def conn_ok_def)
  then have empty: "Buffer_content (tc_outputBuffer (cs_conn r)) = []" using r(4) length_content by fastforce
  obtain c1 where ev1: "event_do ?m (cs_conn r) = Some (c1, [])"
    and c1: "c1 = (cs_conn r)\<lparr>tc_lowWaterMark := 1, tc_highWaterMark := 4, tc_lowWaterMarkCallback := True, tc_highWaterMarkCallback := True\<rparr>"
    by (simp add: TcpConnection_setOutputBufferWatermarks_def)
  obtain s where s: "conn_step r ?m s" "cs_conn s = c1" by (rule conn_step_eventI [OF _ ev1]) simp_all
  let ?b = "Buffer_append (tc_outputBuffer (cs_conn r)) ''hello''"
  have b: "Buffer_ok ?b" "Buffer_content ?b = ''hello''" "readableBytes ?b = 5"
    using append_correct [OF ok, of "''hello''"] empty length_content [of ?b] by simp_all
  obtain c2 a2 where ev2: "event_do ?e c1 = Some (c2, a2)" "marks a2 = [(True, 5)]" "tc_outputBuffer c2 = ?b" "tc_aboveHighWaterMark c2"
    "tc_lowWaterMark c2 = 1" "tc_lowWaterMarkCallback c2" "writing c2" "ch_inEpoll (tc_channel c2)" "tc_fileFd c2 = -1"
    "tc_state c2 = kConnected"
    using r b(3) by (simp add: c1 TcpConnection_send_def TcpConnection_sendInLoop_def sendInLoop_write_def sendInLoop_queue_def
        errno_defs marks_cons ctl_of_def Let_def writing_alt)
  obtain t1 where t1: "conn_step s ?e t1" "cs_conn t1 = c2" "cs_trace t1 = cs_trace s @ a2"
    by (rule conn_step_eventI [OF _ ev2(1) [folded s(2)]]) (simp_all add: write_ok_def)
  have zero: "readableBytes (Buffer_retrieve ?b 5) = 0"
    using buf.queue_laws(3,4) [of ?b 5] b length_content [of "Buffer_retrieve ?b 5"] by simp
  let ?c = "c2\<lparr>tc_outputBuffer := Buffer_retrieve ?b 5\<rparr>" let ?d = "?c\<lparr>tc_aboveHighWaterMark := False\<rparr>"
  have o: "handleWrite_output (\<lambda>xs. Inr (length xs)) c2 = (True, ?c, [Sent ''hello''])"
    by (simp add: handleWrite_output_def ev2(3) b eval_nat_numeral)
  have l: "handleWrite_lowMark ?c = (?d, [QueueInLoop (LowWaterTask 0)])"
    by (simp add: handleWrite_lowMark_def zero ev2(4-6))
  have f: "handleWrite_file (\<lambda>f off cnt. Inr cnt) ?d = (True, ?d, [])" by (simp add: handleWrite_file_def ev2(9))
  obtain c3 a where d: "handleWrite_done True ?d = Some (c3, a)" "marks a = []"
    by (simp add: handleWrite_done_def zero ev2(9,10) marks_cons ctl_of_def Let_def)
  obtain a3 where ev3: "event_do ?f c2 = Some (c3, a3)" "marks a3 = [(False, 0)]"
    using ev2(7) o l f d by (simp add: TcpConnection_handleWrite_def writing_def marks_cons)
  obtain t where t: "conn_step t1 ?f t" "cs_trace t = cs_trace t1 @ a3"
    by (rule conn_step_eventI [OF _ ev3(1) [folded t1(2)]]) (simp_all add: write_ok_def sendfile_ok_def t1(2) ev2(8))
  have rt: "run conn_step s [?e, ?f] t" using t1(1) t(1) by (auto intro: run.intros)
  from connection_watermarks [OF run s(1) rt] t1(3) t(2) ev2(2) ev3(2) r(7) s(2) run s(1) rt show ?thesis
    by (intro exI [of _ r] exI [of _ s] exI [of _ t] exI [of _ "a2 @ a3"]) (auto simp: c1)
qed

text \<open>C8. Draining: from any reachable connection with \<open>EPOLLOUT\<close> armed, if the kernel takes at least one byte whenever
  offered some, then after finitely many writable events (at most one more than the bytes outstanding) \<open>EPOLLOUT\<close>
  is off and nothing is left to send: exactly the pending bytes were written; of a file that is being sent exactly the rest, from the
  current offset to its size, went out in order and without gaps before it was closed, and no other file data; and a requested
  half-close has been made.\<close>

theorem connection_drains:
  assumes "run conn_step (conn_init nm sockfd l p) es s" "writing (cs_conn s)"
    and "write_ok w" "write_progress w" "sendfile_progress sf"
  shows "\<exists>k c' acts. k \<le> Suc (backlog (cs_conn s)) \<and> write_rounds k w sf (cs_conn s) = Some (c', acts)
     \<and> drained c' \<and> sent_bytes acts = pending (cs_conn s)
     \<and> (tc_state (cs_conn s) = kDisconnecting \<longrightarrow> ShutdownWrite \<in> set acts)
     \<and> (if 0 \<le> tc_fileFd (cs_conn s)
        then CloseFd (tc_fileFd (cs_conn s)) \<in> set acts
          \<and> file_range (tc_fileFd (cs_conn s)) (tc_fileOffset (cs_conn s)) (sent_files acts) (tc_fileSize (cs_conn s))
        else sent_files acts = [])"
  using write_rounds_drain [OF _ assms(2-5)] run_init_ok [OF assms(1)] by (simp add: sys_ok_def)

theorem connection_drains_witness:
  "\<exists>s k c' acts. run conn_step (conn_init ''c'' 7 InetAddress_zero InetAddress_zero)
        [Establish, CallSendFile True 9 3] s
     \<and> write_rounds k (\<lambda>xs. Inr (length xs)) (\<lambda>f off cnt. Inr cnt) (cs_conn s) = Some (c', acts)
     \<and> drained c'"
proof -
  let ?e = "CallSendFile True 9 3"
  obtain s where s: "conn_step (conn_init ''c'' 7 InetAddress_zero InetAddress_zero) Establish s"
    "tc_state (cs_conn s) = kConnected" "\<not> Channel_isWriting (tc_channel (cs_conn s))" by (rule established)
  obtain c acts where ev: "event_do ?e (cs_conn s) = Some (c, acts)" "writing c"
    using s(2,3) by (simp add: TcpConnection_sendFile_def TcpConnection_sendFileInLoop_def writing_def
        Channel_isWriting_def Let_def)
  obtain t where t: "conn_step s ?e t" "cs_conn t = c"
    by (rule conn_step_eventI [OF _ ev(1)]) simp_all
  have r: "run conn_step (conn_init ''c'' 7 InetAddress_zero InetAddress_zero) [Establish, ?e] t"
    using s(1) t(1) by (auto intro: run.intros)
  from connection_drains [OF r, of "\<lambda>xs. Inr (length xs)" "\<lambda>f off cnt. Inr cnt"] r t(2) ev(2)
  show ?thesis by (auto simp: write_ok_def write_progress_def sendfile_progress_def)
qed

section \<open>Behaviours to know about\<close>

text \<open>A file that turns out shorter than the size given makes \<open>sendfile\<close> return 0 before the end:
  the writable event then changes nothing and \<open>EPOLLOUT\<close> stays armed, so it fires again at once.\<close>

lemma sendfile_eof_spins:
  assumes "conn_ok c" "writing c" "pending c = []" "\<not> tc_aboveHighWaterMark c"
    "0 \<le> tc_fileFd c" "tc_fileOffset c < tc_fileSize c"
    "sf (tc_fileFd c) (tc_fileOffset c) (tc_fileSize c - tc_fileOffset c) = Inr 0"
  shows "TcpConnection_handleWrite True w sf c = Some (c, [])"
proof -
  have "readableBytes (tc_outputBuffer c) = 0" using assms(1,3) by (simp add: readable_pending conn_ok_def)
  with assms show ?thesis
    by (simp add: TcpConnection_handleWrite_def handleWrite_output_def handleWrite_lowMark_def
        handleWrite_file_def handleWrite_done_def writing_def)
qed

text \<open>A second \<open>sendFile\<close> while a file is in flight forgets the first descriptor without closing it.\<close>

lemma sendFile_forgets_descriptor:
  assumes "tc_state c = kConnected" "tc_fileFd c = f" "0 \<le> f"
    "TcpConnection_sendFile True g sz c = Some (c', acts)"
  shows "CloseFd f \<notin> set acts \<and> tc_fileFd c' = g \<and> queued_tasks acts = []"
  using assms
  by (auto simp: TcpConnection_sendFile_def TcpConnection_sendFileInLoop_def ctl_of_def Let_def split: if_splits)

text \<open>
  The interleaving the step relation leaves out. The test and the store of \<open>forceClose\<close> are two accesses to
  \<open>state_\<close>. When the loop closes the connection between them, the store brings a disconnected connection back to
  disconnecting, and the queued \<open>forceCloseInLoop\<close> closes it a second time: the close callback runs twice.
\<close>

lemma forceClose_race_closes_twice:
  assumes "tc_state c = kConnected" "tc_closeCallback c"
    and "TcpConnection_handleClose True c = Some (c1, acts1)"
    and "TcpConnection_forceCloseInLoop True (c1\<lparr>tc_state := kDisconnecting\<rparr>) = Some (c2, acts2)"
  shows "CallClose \<in> set acts1 \<and> CallClose \<in> set acts2"
  using assms by (auto simp: handleClose_eq TcpConnection_forceCloseInLoop_def)

text \<open>When the connection has been destroyed between them, the second close registers its descriptor again.\<close>

lemma forceClose_race_registers_again:
  assumes "tc_state c = kConnected" "tc_connectionCallback c" "ch_inEpoll (tc_channel c)"
  shows "\<exists>c1 acts1 c2 acts2. TcpConnection_connectDestroyed True c = Some (c1, acts1) \<and> \<not> ch_inEpoll (tc_channel c1)
    \<and> TcpConnection_forceCloseInLoop True (c1\<lparr>tc_state := kDisconnecting\<rparr>) = Some (c2, acts2) \<and> ch_inEpoll (tc_channel c2)"
  using assms by (simp add: TcpConnection_connectDestroyed_def TcpConnection_forceCloseInLoop_def handleClose_eq chan_regs_def Let_def)

text \<open>\<open>shutdown\<close> tests and stores in the same way. After a close between the two, \<open>connectDestroyed\<close> finds the connection
  disconnecting and reports it down a second time.\<close>

lemma shutdown_race_down_twice:
  assumes "tc_state c = kConnected" "tc_connectionCallback c"
    and "TcpConnection_handleClose True c = Some (c1, acts1)"
    and "TcpConnection_connectDestroyed True (c1\<lparr>tc_state := kDisconnecting\<rparr>) = Some (c2, acts2)"
  shows "CallConnection \<in> set acts1 \<and> CallConnection \<in> set acts2"
  using assms by (auto simp: handleClose_eq TcpConnection_connectDestroyed_def Let_def split: if_splits)

end
