(* ===== verification/HttpContext.thy ===== *)
theory HttpContext
  imports Buffer
begin

text \<open>
  The first-generation request parser: \<open>src/src/tcp/HttpContext.h\<close>, \<open>HttpContext.cpp\<close> and
  \<open>HttpRequest.h\<close>. A request holds \<open>string_view\<close>s into the input buffer, so a view is an offset
  and a length and every operation that reads through one takes the buffer's byte array. The
  parsing loop is a partial function: \<open>None\<close> means that the call does not return. The
  specification \<open>context_stream\<close> works on the byte stream and owns its strings; the refinement
  lemma shows that a call in a line-expecting state returns and agrees with it.
\<close>

section \<open>Requests\<close>

type_synonym view = "nat \<times> nat"

definition view_text :: "bytes \<Rightarrow> view \<Rightarrow> bytes" where
  "view_text st v = slice st (fst v) (fst v + snd v)"

datatype Method = kInvalid | kGet | kPost | kHead | kPut | kDelete
datatype Version = kUnknownVersion | kHttp10 | kHttp11

record HttpRequest =
  rq_method :: Method
  rq_version :: Version
  rq_path :: view
  rq_query :: view
  rq_headers :: "(view \<times> view) list"

definition HttpRequest_new :: HttpRequest where
  "HttpRequest_new = \<lparr>rq_method = kInvalid, rq_version = kUnknownVersion, rq_path = (0, 0),
     rq_query = (0, 0), rq_headers = []\<rparr>"

definition HttpRequest_setVersion :: "Version \<Rightarrow> HttpRequest \<Rightarrow> HttpRequest" where
  "HttpRequest_setVersion v r = r\<lparr>rq_version := v\<rparr>"

definition HttpRequest_setMethod :: "Method \<Rightarrow> HttpRequest \<Rightarrow> HttpRequest" where
  "HttpRequest_setMethod m r = r\<lparr>rq_method := m\<rparr>"

definition HttpRequest_setPath :: "nat \<Rightarrow> nat \<Rightarrow> HttpRequest \<Rightarrow> HttpRequest" where
  "HttpRequest_setPath start fin r = r\<lparr>rq_path := (start, fin - start)\<rparr>"

definition HttpRequest_setQuery :: "nat \<Rightarrow> nat \<Rightarrow> HttpRequest \<Rightarrow> HttpRequest" where
  "HttpRequest_setQuery start fin r = r\<lparr>rq_query := (start, fin - start)\<rparr>"

definition isspace :: "byte \<Rightarrow> bool" where
  "isspace c \<longleftrightarrow> ord c = 32 \<or> 9 \<le> ord c \<and> ord c \<le> 13"

text \<open>\<open>headers_[field] = value\<close>: the map compares the bytes the key views refer to.\<close>

fun view_insert :: "bytes \<Rightarrow> view \<Rightarrow> view \<Rightarrow> (view \<times> view) list \<Rightarrow> (view \<times> view) list" where
  "view_insert st k v [] = [(k, v)]"
| "view_insert st k v ((k', v') # hs) =
     (if view_text st k' = view_text st k then (k', v) # hs else (k', v') # view_insert st k v hs)"

fun view_lookup :: "bytes \<Rightarrow> bytes \<Rightarrow> (view \<times> view) list \<Rightarrow> view option" where
  "view_lookup st field [] = None"
| "view_lookup st field ((k, v) # hs) =
     (if view_text st k = field then Some v else view_lookup st field hs)"

definition HttpRequest_addHeader :: "bytes \<Rightarrow> nat \<Rightarrow> nat \<Rightarrow> nat \<Rightarrow> HttpRequest \<Rightarrow> HttpRequest" where
  "HttpRequest_addHeader st start colon fin r =
     (let field = (start, colon - start);
          colon1 = colon + 1 + length (takeWhile isspace (slice st (colon + 1) fin));
          val = (colon1, fin - colon1)
      in r\<lparr>rq_headers := view_insert st field val (rq_headers r)\<rparr>)"

definition HttpRequest_getHeader :: "bytes \<Rightarrow> bytes \<Rightarrow> HttpRequest \<Rightarrow> bytes" where
  "HttpRequest_getHeader st field r =
     (case view_lookup st field (rq_headers r) of Some v \<Rightarrow> view_text st v | None \<Rightarrow> [])"

section \<open>The parser\<close>

datatype ContextState = kExpectRequestLine | kExpectHeaders | kExpectBody | kGotAll

record HttpContext =
  cx_state :: ContextState
  cx_request :: HttpRequest

definition HttpContext_new :: HttpContext where
  "HttpContext_new = \<lparr>cx_state = kExpectRequestLine, cx_request = HttpRequest_new\<rparr>"

definition HttpContext_gotAll :: "HttpContext \<Rightarrow> bool" where
  "HttpContext_gotAll c \<longleftrightarrow> cx_state c = kGotAll"

definition HttpContext_reset :: "HttpContext \<Rightarrow> HttpContext" where
  "HttpContext_reset c = c\<lparr>cx_state := kExpectRequestLine, cx_request := HttpRequest_new\<rparr>"

text \<open>\<open>std::find(p, q, ch)\<close> over two pointers into the byte array.\<close>

definition ptr_find :: "bytes \<Rightarrow> nat \<Rightarrow> nat \<Rightarrow> byte \<Rightarrow> nat" where
  "ptr_find st p q ch = p + std_find (slice st p q) ch"

text \<open>The members already set stay set when the line is rejected.\<close>

definition HttpContext_processRequestLine ::
    "bytes \<Rightarrow> nat \<Rightarrow> nat \<Rightarrow> HttpRequest \<Rightarrow> bool \<times> HttpRequest" where
  "HttpContext_processRequestLine st start fin r =
     (let space = ptr_find st start fin SP in
      if space \<noteq> fin then
        let met = slice st start space;
            r1 = (if met = ''GET'' then HttpRequest_setMethod kGet r
                  else if met = ''POST'' then HttpRequest_setMethod kPost r else r);
            start1 = space + 1;
            space1 = ptr_find st start1 fin SP in
        if space1 \<noteq> fin then
          let r2 = HttpRequest_setPath start1 space1 r1;
              version = slice st (space1 + 1) fin in
          if version = ''HTTP/1.0'' then (True, HttpRequest_setVersion kHttp10 r2)
          else if version = ''HTTP/1.1'' then (True, HttpRequest_setVersion kHttp11 r2)
          else (False, r2)
        else (False, r1)
      else (False, r))"

text \<open>One pass of \<open>while (hasMore)\<close>: the flags \<open>hasMore\<close> and \<open>ok\<close>, the context and the buffer.\<close>

definition HttpContext_iterate ::
    "bool \<Rightarrow> HttpContext \<Rightarrow> Buffer \<Rightarrow> (bool \<times> bool \<times> HttpContext \<times> Buffer) option" where
  "HttpContext_iterate ok c b =
     (case cx_state c of
        kExpectRequestLine \<Rightarrow>
          (case Buffer_findCRLF b of
             None \<Rightarrow> Some (False, ok, c, b)
           | Some crlf \<Rightarrow>
               let (ok', r) = HttpContext_processRequestLine (storage b) (peek b) crlf (cx_request c);
                   c' = c\<lparr>cx_request := r\<rparr> in
               if ok' then do {
                 b' \<leftarrow> Buffer_retrieveUntil b (crlf + 2);
                 Some (True, ok', c'\<lparr>cx_state := kExpectHeaders\<rparr>, b') }
               else Some (False, ok', c', b))
      | kExpectHeaders \<Rightarrow>
          (case Buffer_findCRLF b of
             None \<Rightarrow> Some (False, ok, c, b)
           | Some crlf \<Rightarrow>
               let colon = ptr_find (storage b) (peek b) crlf (CHR '':'');
                   (more, c') =
                     (if colon \<noteq> crlf
                      then (True, c\<lparr>cx_request := HttpRequest_addHeader (storage b) (peek b) colon crlf (cx_request c)\<rparr>)
                      else (False, c\<lparr>cx_state := kGotAll\<rparr>))
               in do {
                 b' \<leftarrow> Buffer_retrieveUntil b (crlf + 2);
                 Some (more, ok, c', b') })
      | _ \<Rightarrow> Some (True, ok, c, b))"

partial_function (option) HttpContext_loop ::
    "bool \<Rightarrow> HttpContext \<Rightarrow> Buffer \<Rightarrow> (bool \<times> HttpContext \<times> Buffer) option" where
  "HttpContext_loop ok c b =
     Option.bind (HttpContext_iterate ok c b)
       (\<lambda>(hasMore, ok', c', b'). if hasMore then HttpContext_loop ok' c' b' else Some (ok', c', b'))"

definition HttpContext_parseRequest ::
    "HttpContext \<Rightarrow> Buffer \<Rightarrow> (bool \<times> HttpContext \<times> Buffer) option" where
  "HttpContext_parseRequest c b = HttpContext_loop True c b"

section \<open>Specification on byte streams\<close>

record context_spec =
  sp_state :: ContextState
  sp_method :: Method
  sp_version :: Version
  sp_path :: bytes
  sp_headers :: "bytes \<rightharpoonup> bytes"

definition spec_request_line :: "context_spec \<Rightarrow> bytes \<Rightarrow> bool \<times> context_spec" where
  "spec_request_line a line =
     (if SP \<notin> set line then (False, a) else
      let met = takeWhile (\<lambda>ch. ch \<noteq> SP) line;
          rest = tl (dropWhile (\<lambda>ch. ch \<noteq> SP) line);
          a1 = (if met = ''GET'' then a\<lparr>sp_method := kGet\<rparr>
                else if met = ''POST'' then a\<lparr>sp_method := kPost\<rparr> else a) in
      if SP \<notin> set rest then (False, a1) else
      let a2 = a1\<lparr>sp_path := takeWhile (\<lambda>ch. ch \<noteq> SP) rest\<rparr>;
          version = tl (dropWhile (\<lambda>ch. ch \<noteq> SP) rest) in
      if version = ''HTTP/1.0'' then (True, a2\<lparr>sp_version := kHttp10\<rparr>)
      else if version = ''HTTP/1.1'' then (True, a2\<lparr>sp_version := kHttp11\<rparr>)
      else (False, a2))"

definition spec_header :: "context_spec \<Rightarrow> bytes \<Rightarrow> context_spec" where
  "spec_header a line =
     a\<lparr>sp_headers := (sp_headers a)(takeWhile (\<lambda>ch. ch \<noteq> CHR '':'') line \<mapsto>
         dropWhile isspace (tl (dropWhile (\<lambda>ch. ch \<noteq> CHR '':'') line)))\<rparr>"

function context_stream :: "context_spec \<Rightarrow> bytes \<Rightarrow> bool \<times> context_spec \<times> bytes" where
  "context_stream a cs =
     (case split_line cs of
        None \<Rightarrow> (True, a, cs)
      | Some (line, rest) \<Rightarrow>
          if sp_state a = kExpectRequestLine then
            (let (good, a') = spec_request_line a line in
             if good then context_stream (a'\<lparr>sp_state := kExpectHeaders\<rparr>) rest else (False, a', cs))
          else if CHR '':'' \<in> set line then context_stream (spec_header a line) rest
          else (True, a\<lparr>sp_state := kGotAll\<rparr>, rest))"
  by pat_completeness auto
termination
  by (relation "measure (\<lambda>(a, cs). length cs)") (auto dest: split_line_length)

declare context_stream.simps [simp del]

definition headers_abs :: "bytes \<Rightarrow> (view \<times> view) list \<Rightarrow> bytes \<rightharpoonup> bytes" where
  "headers_abs st hs = map_of (map (\<lambda>(k, v). (view_text st k, view_text st v)) hs)"

definition context_abs :: "bytes \<Rightarrow> HttpContext \<Rightarrow> context_spec" where
  "context_abs st c =
     (let r = cx_request c in
      \<lparr>sp_state = cx_state c, sp_method = rq_method r, sp_version = rq_version r,
       sp_path = view_text st (rq_path r), sp_headers = headers_abs st (rq_headers r)\<rparr>)"

section \<open>Lemmas\<close>

lemma storage_retrieve [simp]: "storage (Buffer_retrieve b n) = storage b"
  by (simp add: Buffer_retrieve_def Buffer_retrieveAll_def)

lemma headers_abs_insert:
  "headers_abs st (view_insert st k v hs) = (headers_abs st hs)(view_text st k \<mapsto> view_text st v)"
  by (induction st k v hs rule: view_insert.induct) (auto simp: headers_abs_def)

lemma headers_abs_lookup: "headers_abs st hs field = map_option (view_text st) (view_lookup st field hs)"
  by (induction st field hs rule: view_lookup.induct) (auto simp: headers_abs_def)

text \<open>A range of the array split at the first occurrence of a character.\<close>

lemma ptr_find_split:
  assumes "p \<le> q" "q \<le> length st" and k_def: "k = ptr_find st p q ch"
  shows "k \<le> q" "p \<le> k" "k = q \<longleftrightarrow> ch \<notin> set (slice st p q)"
    "slice st p k = takeWhile (\<lambda>x. x \<noteq> ch) (slice st p q)"
    "slice st (k + 1) q = tl (dropWhile (\<lambda>x. x \<noteq> ch) (slice st p q))"
proof -
  have len: "length (slice st p q) = q - p" using assms(2) by (rule length_slice)
  have le: "std_find (slice st p q) ch \<le> q - p" using std_find_le [of "slice st p q" ch] len by simp
  then show "k \<le> q" "p \<le> k" using assms(1) by (simp_all add: k_def ptr_find_def)
  show "k = q \<longleftrightarrow> ch \<notin> set (slice st p q)"
    using std_find_eq_length_iff [of "slice st p q" ch] len assms(1) by (auto simp: k_def ptr_find_def)
  show "slice st p k = takeWhile (\<lambda>x. x \<noteq> ch) (slice st p q)"
    using take_slice [of p "std_find (slice st p q) ch" q st] le assms(1)
    by (simp add: k_def ptr_find_def std_find_take)
  show "slice st (k + 1) q = tl (dropWhile (\<lambda>x. x \<noteq> ch) (slice st p q))"
    using drop_slice [of "std_find (slice st p q) ch + 1" st p q]
    by (simp add: k_def ptr_find_def drop_Suc tl_drop flip: std_find_drop)
qed

lemma view_text_range: "p \<le> q \<Longrightarrow> view_text st (p, q - p) = slice st p q"
  by (simp add: view_text_def)

lemma addHeader_abs:
  assumes "p \<le> q" "q \<le> length st" and colon: "colon = ptr_find st p q (CHR '':'')" "colon \<noteq> q"
  shows "context_abs st (c\<lparr>cx_request := HttpRequest_addHeader st p colon q (cx_request c)\<rparr>) =
    spec_header (context_abs st c) (slice st p q)"
proof -
  note f = ptr_find_split [OF assms(1,2) colon(1)]
  let ?n = "length (takeWhile isspace (slice st (colon + 1) q))"
  have less: "colon + 1 \<le> q" using f(1) colon(2) by simp
  have "?n \<le> q - (colon + 1)"
    using length_takeWhile_le [of isspace "slice st (colon + 1) q"] length_slice [OF assms(2), of "colon + 1"]
    by simp
  with less have "colon + 1 + ?n \<le> q" by simp
  then have "view_text st (colon + 1 + ?n, q - (colon + 1 + ?n)) = dropWhile isspace (slice st (colon + 1) q)"
    using drop_slice [of ?n st "colon + 1" q] by (simp add: view_text_range dropWhile_eq_drop)
  moreover have "view_text st (p, colon - p) = takeWhile (\<lambda>x. x \<noteq> CHR '':'') (slice st p q)"
    using f(2,4) by (simp add: view_text_range)
  ultimately show ?thesis
    using f(5) by (simp add: context_abs_def HttpRequest_addHeader_def Let_def headers_abs_insert spec_header_def)
qed

lemma setMethod_abs:
  "context_abs st (c\<lparr>cx_request := HttpRequest_setMethod m (cx_request c)\<rparr>) = (context_abs st c)\<lparr>sp_method := m\<rparr>"
  by (simp add: context_abs_def HttpRequest_setMethod_def Let_def)

lemma processRequestLine_abs:
  assumes "p \<le> q" "q \<le> length st" "HttpContext_processRequestLine st p q (cx_request c) = (ok, r)"
  shows "spec_request_line (context_abs st c) (slice st p q) = (ok, context_abs st (c\<lparr>cx_request := r\<rparr>))"
proof -
  define k where "k = ptr_find st p q SP"
  note f = ptr_find_split [OF assms(1,2) k_def]
  show ?thesis
  proof (cases "k = q")
    case True
    with assms(3) f(3) have "\<not> ok" "r = cx_request c" "SP \<notin> set (slice st p q)"
      by (simp_all add: HttpContext_processRequestLine_def k_def)
    then show ?thesis by (simp add: spec_request_line_def)
  next
    case False
    define j where "j = ptr_find st (k + 1) q SP"
    have "k + 1 \<le> q" using f(1) False by simp
    note g = ptr_find_split [OF this assms(2) j_def]
    define r1 where "r1 = (if slice st p k = ''GET'' then HttpRequest_setMethod kGet (cx_request c)
        else if slice st p k = ''POST'' then HttpRequest_setMethod kPost (cx_request c) else cx_request c)"
    define a1 where "a1 = context_abs st (c\<lparr>cx_request := r1\<rparr>)"
    have a1: "a1 = (if slice st p k = ''GET'' then (context_abs st c)\<lparr>sp_method := kGet\<rparr>
        else if slice st p k = ''POST'' then (context_abs st c)\<lparr>sp_method := kPost\<rparr> else context_abs st c)"
      by (simp add: a1_def r1_def setMethod_abs)
    have path: "context_abs st (c\<lparr>cx_request := HttpRequest_setPath (k + 1) j r1\<rparr>) =
        a1\<lparr>sp_path := slice st (k + 1) j\<rparr>"
      using g(2) by (simp add: a1_def context_abs_def HttpRequest_setPath_def Let_def view_text_range)
    have ver: "context_abs st (c\<lparr>cx_request := HttpRequest_setVersion v (HttpRequest_setPath (k + 1) j r1)\<rparr>) =
        a1\<lparr>sp_path := slice st (k + 1) j, sp_version := v\<rparr>" for v
      using g(2) by (simp add: a1_def context_abs_def HttpRequest_setPath_def HttpRequest_setVersion_def
          Let_def view_text_range)
    have eq: "HttpContext_processRequestLine st p q (cx_request c) =
        (if j \<noteq> q then
           (let r2 = HttpRequest_setPath (k + 1) j r1; version = slice st (j + 1) q in
            if version = ''HTTP/1.0'' then (True, HttpRequest_setVersion kHttp10 r2)
            else if version = ''HTTP/1.1'' then (True, HttpRequest_setVersion kHttp11 r2)
            else (False, r2))
         else (False, r1))"
      using False unfolding HttpContext_processRequestLine_def Let_def k_def [symmetric] j_def [symmetric] r1_def
      by simp
    have spec: "spec_request_line (context_abs st c) (slice st p q) =
        (if j \<noteq> q then
           (let a2 = a1\<lparr>sp_path := slice st (k + 1) j\<rparr>; version = slice st (j + 1) q in
            if version = ''HTTP/1.0'' then (True, a2\<lparr>sp_version := kHttp10\<rparr>)
            else if version = ''HTTP/1.1'' then (True, a2\<lparr>sp_version := kHttp11\<rparr>)
            else (False, a2))
         else (False, a1))"
      using False f(3) g(3) unfolding spec_request_line_def Let_def a1 f(4) [symmetric] f(5) [symmetric]
        g(4) [symmetric] g(5) [symmetric] by simp
    show ?thesis
    proof (cases "j = q")
      case True
      with assms(3) eq spec show ?thesis by (auto simp: a1_def)
    next
      case jq: False
      with assms(3) eq spec show ?thesis
        by (auto simp: Let_def ver [unfolded Suc_eq_plus1 [symmetric]] path [unfolded Suc_eq_plus1 [symmetric]]
            split: if_splits)
    qed
  qed
qed

definition expects_line :: "HttpContext \<Rightarrow> bool" where
  "expects_line c \<longleftrightarrow> cx_state c = kExpectRequestLine \<or> cx_state c = kExpectHeaders"

text \<open>One pass of the loop in terms of the first line of the stream.\<close>

lemma context_iterate_no_line:
  "expects_line c \<Longrightarrow> Buffer_findCRLF b = None \<Longrightarrow> HttpContext_iterate ok c b = Some (False, ok, c, b)"
  by (auto simp: expects_line_def HttpContext_iterate_def)

lemma line_range:
  assumes "Buffer_ok b" "Buffer_content b = line @ kCRLF @ rest" "crlf = peek b + length line"
  shows "peek b \<le> crlf" "crlf \<le> length (storage b)"
proof -
  have "length line \<le> readableBytes b" using assms length_content [OF assms(1)] by simp
  then show "peek b \<le> crlf" "crlf \<le> length (storage b)"
    using assms by (auto simp: Buffer_ok_def readableBytes_def peek_def)
qed

lemma context_iterate_line:
  assumes ok: "Buffer_ok b" and ex: "expects_line c" and find: "Buffer_findCRLF b = Some crlf"
    and sl: "split_line (Buffer_content b) = Some (line, rest)"
  obtains (more) c' b' where "HttpContext_iterate True c b = Some (True, True, c', b')" "Buffer_ok b'"
      "storage b' = storage b" "Buffer_content b' = rest" "expects_line c'"
      "context_stream (context_abs (storage b) c) (Buffer_content b) =
         context_stream (context_abs (storage b) c') rest"
  | (stop) r c' b' where "HttpContext_iterate True c b = Some (False, r, c', b')" "Buffer_ok b'"
      "storage b' = storage b"
      "context_stream (context_abs (storage b) c) (Buffer_content b) =
         (r, context_abs (storage b) c', Buffer_content b')"
proof -
  let ?st = "storage b" and ?b' = "Buffer_retrieve b (length line + 2)"
  obtain line' rest' where l: "Buffer_content b = line @ kCRLF @ rest" "crlf = peek b + length line"
      "Buffer_text b (peek b) crlf = line" "Buffer_retrieveUntil b (crlf + 2) = Some ?b'"
      "Buffer_content ?b' = rest"
    by (rule line_content [OF ok find]) (use sl in auto)
  note rg = line_range [OF ok l(1,2)]
  have line: "slice ?st (peek b) crlf = line" using l(3) by (simp add: Buffer_text_def)
  have ok': "Buffer_ok ?b'" by (rule Buffer_ok_retrieve [OF ok])
  note cs = context_stream.simps [of "context_abs ?st c" "Buffer_content b"]
  have st: "sp_state (context_abs ?st d) = cx_state d" for d by (simp add: context_abs_def Let_def)
  show thesis
  proof (cases "cx_state c = kExpectRequestLine")
    case True
    obtain g r where pr: "HttpContext_processRequestLine ?st (peek b) crlf (cx_request c) = (g, r)" by fastforce
    let ?c1 = "c\<lparr>cx_request := r\<rparr>"
    note a = processRequestLine_abs [OF rg pr, unfolded line]
    show thesis
    proof (cases g)
      case g: True
      have "(context_abs ?st ?c1)\<lparr>sp_state := kExpectHeaders\<rparr> = context_abs ?st (?c1\<lparr>cx_state := kExpectHeaders\<rparr>)"
        by (simp add: context_abs_def Let_def)
      with more [of "?c1\<lparr>cx_state := kExpectHeaders\<rparr>" ?b'] True g pr find l(4,5) ok' a sl cs st show thesis
        by (simp add: HttpContext_iterate_def expects_line_def)
    next
      case False
      with stop [of False ?c1 b] True pr find a sl cs st ok show thesis
        by (simp add: HttpContext_iterate_def)
    qed
  next
    case False
    with ex have hd: "cx_state c = kExpectHeaders" by (simp add: expects_line_def)
    define colon where "colon = ptr_find ?st (peek b) crlf (CHR '':'')"
    note f = ptr_find_split [OF rg colon_def, unfolded line]
    show thesis
    proof (cases "colon = crlf")
      case True
      have "(context_abs ?st c)\<lparr>sp_state := kGotAll\<rparr> = context_abs ?st (c\<lparr>cx_state := kGotAll\<rparr>)"
        by (simp add: context_abs_def Let_def)
      with stop [of True "c\<lparr>cx_state := kGotAll\<rparr>" ?b'] True hd find l(4,5) ok' sl cs st f(3) show thesis
        by (simp add: HttpContext_iterate_def flip: colon_def)
    next
      case colon: False
      let ?c1 = "c\<lparr>cx_request := HttpRequest_addHeader ?st (peek b) colon crlf (cx_request c)\<rparr>"
      have "context_abs ?st ?c1 = spec_header (context_abs ?st c) line"
        using addHeader_abs [OF rg colon_def colon, of c] line by simp
      with more [of ?c1 ?b'] colon hd find l(4,5) ok' sl cs st f(3) show thesis
        by (simp add: HttpContext_iterate_def expects_line_def flip: colon_def)
    qed
  qed
qed

lemma HttpContext_loop_refines:
  assumes "Buffer_ok b" "expects_line c"
  shows "\<exists>r c' b'. HttpContext_loop True c b = Some (r, c', b') \<and> Buffer_ok b' \<and> storage b' = storage b
     \<and> context_stream (context_abs (storage b) c) (Buffer_content b) =
         (r, context_abs (storage b) c', Buffer_content b')"
  using assms
proof (induction "length (Buffer_content b)" arbitrary: b c rule: less_induct)
  case less
  show ?case
  proof (cases "split_line (Buffer_content b)")
    case None
    then have "Buffer_findCRLF b = None" using less.prems(1) by (simp add: findCRLF_split)
    then have "HttpContext_loop True c b = Some (True, c, b)"
      using context_iterate_no_line [OF less.prems(2)] by (subst HttpContext_loop.simps) simp
    with None less.prems show ?thesis by (auto simp: context_stream.simps)
  next
    case (Some lr)
    then obtain line rest where sl: "split_line (Buffer_content b) = Some (line, rest)" by (cases lr) simp
    then obtain crlf where find: "Buffer_findCRLF b = Some crlf"
      using less.prems(1) by (simp add: findCRLF_split)
    show ?thesis
    proof (cases rule: context_iterate_line [OF less.prems find sl])
      case (1 c' b')
      from split_line_length [OF sl] 1(4) have "length (Buffer_content b') < length (Buffer_content b)" by simp
      from less.hyps [OF this 1(2,5)] 1 show ?thesis
        by (subst HttpContext_loop.simps) simp
    next
      case (2 r c' b')
      then show ?thesis by (subst HttpContext_loop.simps) simp
    qed
  qed
qed

text \<open>A context that has a complete request, or waits for a body, keeps the loop spinning.\<close>

lemma HttpContext_loop_stuck:
  assumes "HttpContext_loop ok c b = Some res"
  shows "expects_line c"
proof (rule HttpContext_loop.raw_induct [OF _ assms, of "\<lambda>ok c b res. expects_line c"])
  fix loop ok c b res
  assume IH: "\<And>ok c b res. loop ok c b = Some res \<Longrightarrow> expects_line c"
    and eq: "Option.bind (HttpContext_iterate ok c b)
       (\<lambda>(hasMore, ok', c', b'). if hasMore then loop ok' c' b' else Some (ok', c', b')) = Some res"
  show "expects_line c"
  proof (rule ccontr)
    assume no: "\<not> expects_line c"
    then have "HttpContext_iterate ok c b = Some (True, ok, c, b)"
      by (cases "cx_state c") (simp_all add: expects_line_def HttpContext_iterate_def)
    with eq have "loop ok c b = Some res" by simp
    with IH no show False by blast
  qed
qed

section \<open>Properties\<close>

text \<open>C36. On a well-formed buffer a context that waits for a line returns, and what it returns, the
  request it holds (its views read through the buffer) and the unread bytes are those of the
  line protocol on the byte stream: a request line with two spaces and a known version, then one
  header per line with a colon, and the first line without a colon ends the request.\<close>

theorem HttpContext_refines_stream:
  assumes "Buffer_ok b" "cx_state c = kExpectRequestLine \<or> cx_state c = kExpectHeaders"
  shows "\<exists>r c' b'. HttpContext_parseRequest c b = Some (r, c', b') \<and> Buffer_ok b' \<and> storage b' = storage b
     \<and> context_stream (context_abs (storage b) c) (Buffer_content b) =
         (r, context_abs (storage b) c', Buffer_content b')"
  using HttpContext_loop_refines [OF assms(1)] assms(2)
  by (simp add: HttpContext_parseRequest_def expects_line_def)

theorem HttpContext_refines_stream_witness:
  "\<exists>c' b'. HttpContext_parseRequest HttpContext_new
       (Buffer_append (Buffer_new 64) (''GET / HTTP/1.1'' @ kCRLF @ ''Host: a'' @ kCRLF @ kCRLF @ ''next'')) = Some (True, c', b')
     \<and> cx_state c' = kGotAll \<and> rq_method (cx_request c') = kGet \<and> view_text (storage b') (rq_path (cx_request c')) = ''/''
     \<and> headers_abs (storage b') (rq_headers (cx_request c')) = [''Host'' \<mapsto> ''a''] \<and> Buffer_content b' = ''next''"
proof -
  let ?cs = "''GET / HTTP/1.1'' @ kCRLF @ ''Host: a'' @ kCRLF @ kCRLF @ ''next''"
  define b where "b = Buffer_append (Buffer_new 64) ?cs"
  have b: "Buffer_ok b" "Buffer_content b = ?cs" by (simp_all add: b_def append_correct)
  define hs where "hs = ''Host: a'' @ kCRLF @ kCRLF @ ''next''"
  define blank where "blank = kCRLF @ ''next''"
  have lines: "split_line ?cs = Some (''GET / HTTP/1.1'', hs)" "split_line hs = Some (''Host: a'', blank)"
    "split_line blank = Some ([], ''next'')"
    using split_line_no_CR [of "''GET / HTTP/1.1''" hs] split_line_no_CR [of "''Host: a''" blank]
      split_line_no_CR [of "[]" "''next''"] by (simp_all add: hs_def blank_def CR_def)
  have spec: "context_stream a ?cs = (True, a\<lparr>sp_state := kGotAll, sp_method := kGet, sp_version := kHttp11,
      sp_path := ''/'', sp_headers := [''Host'' \<mapsto> ''a'']\<rparr>, ''next'')"
    if "sp_state a = kExpectRequestLine" "sp_headers a = Map.empty" for a
    using that unfolding context_stream.simps [of a ?cs] lines(1)
    by (simp add: context_stream.simps [of _ hs] context_stream.simps [of _ blank] lines(2,3) spec_request_line_def
        spec_header_def Let_def isspace_def ord_def)
  have "sp_state (context_abs st HttpContext_new) = kExpectRequestLine" "sp_headers (context_abs st HttpContext_new) = Map.empty" for st
    by (simp_all add: context_abs_def HttpContext_new_def HttpRequest_new_def headers_abs_def Let_def)
  note spec = spec [OF this, of "storage b"]
  obtain r c' b' where "HttpContext_parseRequest HttpContext_new b = Some (r, c', b')" "storage b' = storage b"
    "context_stream (context_abs (storage b) HttpContext_new) ?cs = (r, context_abs (storage b) c', Buffer_content b')"
    using HttpContext_refines_stream [OF b(1) disjI1, of HttpContext_new] unfolding b(2)
    by (auto simp: HttpContext_new_def simp del: append_Cons)
  then show ?thesis unfolding spec b_def [symmetric] by (auto simp: context_abs_def Let_def)
qed

text \<open>A context whose request is complete (or that waits for a body) must be reset before it is
  given more input: \<open>parseRequest\<close> then never returns, whatever the buffer holds, because the loop
  has no branch for these states that clears \<open>hasMore\<close>.\<close>

lemma HttpContext_complete_never_returns:
  assumes "cx_state c = kGotAll \<or> cx_state c = kExpectBody"
  shows "HttpContext_parseRequest c b = None"
proof (cases "HttpContext_parseRequest c b")
  case (Some res)
  then have "expects_line c" unfolding HttpContext_parseRequest_def by (rule HttpContext_loop_stuck)
  with assms show ?thesis by (auto simp: expects_line_def)
qed

end
