(* ===== verification/HttpResponse.thy ===== *)
theory HttpResponse
  imports Buffer "HOL-Library.List_Lexorder" "HOL-Library.Char_ord"
begin

text \<open>
  HTTP responses: \<open>src/src/tcp/HttpResponse.h\<close> and \<open>HttpResponse.cpp\<close>. The header map is a
  \<open>std::map\<close> and is printed in key order, so it is an association list kept strictly sorted by
  the library's lexicographic order on byte strings. \<open>head_lines\<close> is the reader's side of the
  framing: the lines up to the first empty one, and what follows.
\<close>

section \<open>State and operations\<close>

datatype HttpStatusCode =
  kUnknown | k200Ok | k301MovedPermanently | k400BadRequest | k404NotFound

fun status_value :: "HttpStatusCode \<Rightarrow> nat" where
  "status_value kUnknown = 0"
| "status_value k200Ok = 200"
| "status_value k301MovedPermanently = 301"
| "status_value k400BadRequest = 400"
| "status_value k404NotFound = 404"

record HttpResponse =
  rs_statusCode :: HttpStatusCode
  rs_statusMessage :: bytes
  rs_headers :: "(bytes \<times> bytes) list"
  rs_body :: bytes
  rs_closeConnection :: bool

definition HttpResponse_new :: "bool \<Rightarrow> HttpResponse" where
  "HttpResponse_new close =
     \<lparr>rs_statusCode = kUnknown, rs_statusMessage = [], rs_headers = [], rs_body = [],
      rs_closeConnection = close\<rparr>"

definition HttpResponse_setStatusCode :: "HttpStatusCode \<Rightarrow> HttpResponse \<Rightarrow> HttpResponse" where
  "HttpResponse_setStatusCode code r = r\<lparr>rs_statusCode := code\<rparr>"

definition HttpResponse_setStatusMessage :: "bytes \<Rightarrow> HttpResponse \<Rightarrow> HttpResponse" where
  "HttpResponse_setStatusMessage message r = r\<lparr>rs_statusMessage := message\<rparr>"

definition HttpResponse_setCloseConnection :: "bool \<Rightarrow> HttpResponse \<Rightarrow> HttpResponse" where
  "HttpResponse_setCloseConnection on r = r\<lparr>rs_closeConnection := on\<rparr>"

text \<open>\<open>std::map::operator[]\<close> with assignment.\<close>

fun map_assign :: "bytes \<Rightarrow> bytes \<Rightarrow> (bytes \<times> bytes) list \<Rightarrow> (bytes \<times> bytes) list" where
  "map_assign k v [] = [(k, v)]"
| "map_assign k v ((k', v') # hs) =
     (if k = k' then (k, v) # hs
      else if k < k' then (k, v) # (k', v') # hs
      else (k', v') # map_assign k v hs)"

definition HttpResponse_addHeader :: "bytes \<Rightarrow> bytes \<Rightarrow> HttpResponse \<Rightarrow> HttpResponse" where
  "HttpResponse_addHeader key val r = r\<lparr>rs_headers := map_assign key val (rs_headers r)\<rparr>"

definition HttpResponse_setContentType :: "bytes \<Rightarrow> HttpResponse \<Rightarrow> HttpResponse" where
  "HttpResponse_setContentType contentType r = HttpResponse_addHeader ''Content-Type'' contentType r"

definition HttpResponse_setBody :: "bytes \<Rightarrow> HttpResponse \<Rightarrow> HttpResponse" where
  "HttpResponse_setBody body r = r\<lparr>rs_body := body\<rparr>"

definition status_text :: "HttpStatusCode \<Rightarrow> bytes" where
  "status_text code =
     (if code = k200Ok then ''OK'' else if code = k404NotFound then ''Not Found''
      else if code = k400BadRequest then ''Bad Request'' else ''Unknown'')"

definition HttpResponse_text :: "HttpResponse \<Rightarrow> bytes" where
  "HttpResponse_text r =
     ''HTTP/1.1 '' @ to_string (status_value (rs_statusCode r)) @ '' '' @ status_text (rs_statusCode r) @ kCRLF
     @ (if rs_closeConnection r then ''Connection: close'' @ kCRLF else ''Connection: Keep-Alive'' @ kCRLF)
     @ (if map_of (rs_headers r) ''Content-Length'' = None
        then ''Content-Length: '' @ to_string (length (rs_body r)) @ kCRLF else [])
     @ concat (map (\<lambda>(key, val). key @ '': '' @ val @ kCRLF) (rs_headers r))
     @ kCRLF @ rs_body r"

definition HttpResponse_appendToBuffer :: "HttpResponse \<Rightarrow> Buffer \<Rightarrow> Buffer" where
  "HttpResponse_appendToBuffer r output = Buffer_append output (HttpResponse_text r)"

text \<open>\<open>find_last_of\<close>: the position of the last occurrence.\<close>

definition find_last_of :: "bytes \<Rightarrow> byte \<Rightarrow> nat option" where
  "find_last_of s ch = (if ch \<in> set s then Some (length s - 1 - std_find (rev s) ch) else None)"

definition HttpResponse_getMimeType :: "bytes \<Rightarrow> bytes" where
  "HttpResponse_getMimeType filepath =
     (case find_last_of filepath (CHR ''.'') of
        None \<Rightarrow> ''text/plain''
      | Some pos \<Rightarrow>
          (let ext = drop pos filepath in
           if ext = ''.html'' \<or> ext = ''.htm'' then ''text/html''
           else if ext = ''.jpg'' \<or> ext = ''.jpeg'' then ''image/jpeg''
           else if ext = ''.png'' then ''image/png''
           else if ext = ''.gif'' then ''image/gif''
           else if ext = ''.css'' then ''text/css''
           else if ext = ''.js'' then ''application/javascript''
           else if ext = ''.ico'' then ''image/x-icon''
           else ''application/octet-stream''))"

section \<open>The reader's side\<close>

function head_lines :: "bytes \<Rightarrow> (bytes list \<times> bytes) option" where
  "head_lines cs =
     (case split_line cs of
        None \<Rightarrow> None
      | Some (line, rest) \<Rightarrow>
          if line = [] then Some ([], rest)
          else map_option (\<lambda>(ls, body). (line # ls, body)) (head_lines rest))"
  by pat_completeness auto
termination
  by (relation "measure length") (auto dest: split_line_length)

declare head_lines.simps [simp del]

definition header_line :: "bytes \<times> bytes \<Rightarrow> bytes" where
  "header_line h = fst h @ '': '' @ snd h"

definition one_line :: "bytes \<Rightarrow> bool" where
  "one_line s \<longleftrightarrow> CR \<notin> set s"

section \<open>Lemmas\<close>

lemma map_assign_lookup: "map_of (map_assign k v hs) = (map_of hs)(k \<mapsto> v)"
  by (induction k v hs rule: map_assign.induct) auto

lemma map_assign_keys: "fst ` set (map_assign k v hs) = insert k (fst ` set hs)"
  by (induction k v hs rule: map_assign.induct) auto

lemma map_assign_sorted:
  "sorted_wrt (<) (map fst hs) \<Longrightarrow> sorted_wrt (<) (map fst (map_assign k v hs))"
  by (induction k v hs rule: map_assign.induct) (force simp: map_assign_keys)+

lemma head_lines_line:
  "one_line line \<Longrightarrow> line \<noteq> [] \<Longrightarrow>
   head_lines (line @ kCRLF @ rest) = map_option (\<lambda>(ls, body). (line # ls, body)) (head_lines rest)"
  by (subst head_lines.simps) (simp add: split_line_no_CR one_line_def)

lemma head_lines_end: "head_lines (kCRLF @ body) = Some ([], body)"
  using split_line_no_CR [of "[]" body] by (subst head_lines.simps) simp

lemma head_lines_block:
  assumes "list_all (\<lambda>l. one_line l \<and> l \<noteq> []) ls"
  shows "head_lines (concat (map (\<lambda>l. l @ kCRLF) ls) @ kCRLF @ body) = Some (ls, body)"
  using assms by (induction ls) (simp_all add: head_lines_end head_lines_line)

lemma digits_one_line: "one_line (to_string n)"
proof -
  have "isdigit CR = False" by (simp add: isdigit_def CR_def ord_def)
  then show ?thesis using to_string_digits [of n] by (auto simp: one_line_def list_all_iff)
qed

lemma one_line_append [simp]: "one_line (xs @ ys) \<longleftrightarrow> one_line xs \<and> one_line ys"
  by (auto simp: one_line_def)

lemma one_line_status [simp]: "one_line (status_text code)"
  by (cases code) (simp_all add: status_text_def one_line_def CR_def)

lemma find_last_of_ext:
  assumes "ch \<notin> set ext"
  shows "find_last_of (stem @ [ch] @ ext) ch = Some (length stem)"
proof -
  have "std_find (rev ext @ [ch] @ rev stem) ch = length ext"
    using assms by (simp add: std_find_append)
  then show ?thesis by (simp add: find_last_of_def)
qed

lemma concat_header_lines:
  "concat (map (\<lambda>(key, val). key @ '': '' @ val @ kCRLF) hs) = concat (map (\<lambda>l. l @ kCRLF) (map header_line hs))"
  by (induction hs) (auto simp: header_line_def)

section \<open>Properties\<close>

text \<open>C37. Response framing: when no header name or value contains a carriage return and no
  \<open>Content-Length\<close> was set by hand, a reader of the bytes appended to the buffer sees the status
  line, the connection line, a \<open>Content-Length\<close> line with the exact size of the body, the headers in
  key order, and then the body followed by whatever comes next in the stream.\<close>

theorem HttpResponse_framing:
  assumes "Buffer_ok b" "list_all (\<lambda>(k, v). one_line k \<and> one_line v) (rs_headers r)"
    and "map_of (rs_headers r) ''Content-Length'' = None"
  shows "head_lines (drop (length (Buffer_content b)) (Buffer_content (HttpResponse_appendToBuffer r b)) @ rest) =
    Some ((''HTTP/1.1 '' @ to_string (status_value (rs_statusCode r)) @ '' '' @ status_text (rs_statusCode r))
          # (if rs_closeConnection r then ''Connection: close'' else ''Connection: Keep-Alive'')
          # (''Content-Length: '' @ to_string (length (rs_body r)))
          # map header_line (rs_headers r), rs_body r @ rest)"
proof -
  define ls where "ls = (''HTTP/1.1 '' @ to_string (status_value (rs_statusCode r)) @ '' '' @ status_text (rs_statusCode r))
          # (if rs_closeConnection r then ''Connection: close'' else ''Connection: Keep-Alive'')
          # (''Content-Length: '' @ to_string (length (rs_body r)))
          # map header_line (rs_headers r)"
  have "HttpResponse_text r = concat (map (\<lambda>l. l @ kCRLF) ls) @ kCRLF @ rs_body r"
    using assms(3) unfolding HttpResponse_text_def concat_header_lines ls_def by simp
  then have eq: "drop (length (Buffer_content b)) (Buffer_content (HttpResponse_appendToBuffer r b)) @ rest =
      concat (map (\<lambda>l. l @ kCRLF) ls) @ kCRLF @ rs_body r @ rest"
    by (simp add: HttpResponse_appendToBuffer_def append_correct [OF assms(1)])
  have hdr: "list_all (\<lambda>l. one_line l \<and> l \<noteq> []) (map header_line (rs_headers r))"
    using assms(2) by (auto simp: list_all_iff header_line_def one_line_def CR_def)
  have "list_all (\<lambda>l. one_line l \<and> l \<noteq> []) ls"
    using hdr digits_one_line one_line_status [of "rs_statusCode r", unfolded one_line_def CR_def]
    by (auto simp: ls_def) (auto simp: one_line_def CR_def)
  from head_lines_block [OF this] show ?thesis unfolding eq ls_def .
qed

theorem HttpResponse_framing_witness:
  "\<exists>ls. head_lines (drop (length (Buffer_content (Buffer_new 8)))
      (Buffer_content (HttpResponse_appendToBuffer
         (HttpResponse_setBody ''hi'' (HttpResponse_setContentType ''text/plain'' (HttpResponse_new True))) (Buffer_new 8)))
      @ ''next'') = Some (ls, ''hinext'')"
  using HttpResponse_framing [of "Buffer_new 8"
      "HttpResponse_setBody ''hi'' (HttpResponse_setContentType ''text/plain'' (HttpResponse_new True))" "''next''"]
  by (simp add: HttpResponse_setBody_def HttpResponse_setContentType_def HttpResponse_addHeader_def
      HttpResponse_new_def one_line_def CR_def)

text \<open>The header map: after any sequence of \<open>addHeader\<close> calls the printed headers are strictly
  ordered by name, so no name is printed twice, and each name has the value given last.\<close>

lemma HttpResponse_headers_ordered:
  "sorted_wrt (<) (map fst (rs_headers (fold (\<lambda>(k, v). HttpResponse_addHeader k v) hs (HttpResponse_new close))))
   \<and> map_of (rs_headers (fold (\<lambda>(k, v). HttpResponse_addHeader k v) hs (HttpResponse_new close))) = map_of (rev hs)"
proof (induction hs rule: rev_induct)
  case Nil
  then show ?case by (simp add: HttpResponse_new_def)
next
  case (snoc h hs)
  then show ?case
    by (cases h) (simp add: HttpResponse_addHeader_def map_assign_sorted map_assign_lookup)
qed

text \<open>Content types: the type of a file name depends only on what follows its last dot.\<close>

lemma HttpResponse_mime_by_extension:
  assumes "CHR ''.'' \<notin> set ext"
  shows "HttpResponse_getMimeType (stem @ ''.'' @ ext) =
    (if ext = ''html'' \<or> ext = ''htm'' then ''text/html''
     else if ext = ''jpg'' \<or> ext = ''jpeg'' then ''image/jpeg''
     else if ext = ''png'' then ''image/png'' else if ext = ''gif'' then ''image/gif''
     else if ext = ''css'' then ''text/css'' else if ext = ''js'' then ''application/javascript''
     else if ext = ''ico'' then ''image/x-icon'' else ''application/octet-stream'')"
  using find_last_of_ext [OF assms, of stem] by (simp add: HttpResponse_getMimeType_def)

section \<open>Behaviours to know about\<close>

text \<open>The status message is stored and never printed.\<close>

lemma status_message_unused: "HttpResponse_text (HttpResponse_setStatusMessage m r) = HttpResponse_text r"
  by (simp add: HttpResponse_text_def HttpResponse_setStatusMessage_def)

end
