(* ===== verification/Float64.thy ===== *)
theory Float64
  imports Complex_Main AegisPrelude
begin

text \<open>
  The part of \<open>double\<close> arithmetic the sources use. A finite value is an integer mantissa and a binary
  exponent; a negative zero and the payload of a NaN are not distinguished. Comparisons are exact,
  the product with an integer rounds to 53 bits, to nearest with ties to even, and
  \<open>std::to_string\<close> prints with six decimals, rounded the same way from the exact value.
\<close>

section \<open>Floating point\<close>

datatype f64 = NaN | Infinity bool | Finite int int

definition isfinite :: "f64 \<Rightarrow> bool" where
  "isfinite x \<longleftrightarrow> (case x of Finite m e \<Rightarrow> True | _ \<Rightarrow> False)"

text \<open>The mantissas a double can have.\<close>

definition f64_ok :: "f64 \<Rightarrow> bool" where
  "f64_ok x \<longleftrightarrow> (case x of Finite m e \<Rightarrow> \<bar>m\<bar> < 2 ^ 53 | _ \<Rightarrow> True)"

text \<open>Comparisons with 0.0 and with an integer constant; the flag of an infinity is its sign.\<close>

definition f64_less_0 :: "f64 \<Rightarrow> bool" where
  "f64_less_0 x \<longleftrightarrow> (case x of Finite m e \<Rightarrow> m < 0 | Infinity neg \<Rightarrow> neg | NaN \<Rightarrow> False)"

definition f64_le_0 :: "f64 \<Rightarrow> bool" where
  "f64_le_0 x \<longleftrightarrow> (case x of Finite m e \<Rightarrow> m \<le> 0 | Infinity neg \<Rightarrow> neg | NaN \<Rightarrow> False)"

definition f64_greater_0 :: "f64 \<Rightarrow> bool" where
  "f64_greater_0 x \<longleftrightarrow> (case x of Finite m e \<Rightarrow> 0 < m | Infinity neg \<Rightarrow> \<not> neg | NaN \<Rightarrow> False)"

definition f64_ge_int :: "f64 \<Rightarrow> int \<Rightarrow> bool" where
  "f64_ge_int x k \<longleftrightarrow>
     (case x of
        Finite m e \<Rightarrow> if 0 \<le> e then k \<le> m * 2 ^ nat e else k * 2 ^ nat (- e) \<le> m
      | Infinity neg \<Rightarrow> \<not> neg
      | NaN \<Rightarrow> False)"

fun bit_len :: "nat \<Rightarrow> nat" where
  "bit_len n = (if n = 0 then 0 else Suc (bit_len (n div 2)))"

declare bit_len.simps [simp del]

text \<open>Round half to even at bit \<open>k\<close>: the quotient by \<open>2 ^ k\<close>.\<close>

definition round_at :: "nat \<Rightarrow> nat \<Rightarrow> nat" where
  "round_at k n =
     (let q = n div 2 ^ k; r = n mod 2 ^ k in
      if 2 * r < 2 ^ k then q else if 2 ^ k < 2 * r then q + 1
      else if even q then q else q + 1)"

text \<open>A nonnegative double times an integer, rounded to 53 bits, and truncated to an integer.\<close>

definition f64_mul_int :: "f64 \<Rightarrow> nat \<Rightarrow> f64" where
  "f64_mul_int x k =
     (case x of
        Finite m e \<Rightarrow>
          (let n = nat m * k; s = bit_len n - 53
           in if s = 0 then Finite (int n) e else Finite (int (round_at s n)) (e + int s))
      | _ \<Rightarrow> x)"

definition f64_trunc :: "f64 \<Rightarrow> int" where
  "f64_trunc x =
     (case x of
        Finite m e \<Rightarrow> if 0 \<le> e then m * 2 ^ nat e else m div 2 ^ nat (- e)
      | _ \<Rightarrow> 0)"

text \<open>Zero-padded decimals, and \<open>std::to_string(double)\<close>, that is \<open>printf\<close> with \<open>%f\<close>.\<close>

definition pad :: "nat \<Rightarrow> nat \<Rightarrow> bytes" where
  "pad w n = replicate (w - length (to_string n)) (CHR ''0'') @ to_string n"

definition f64_to_string :: "f64 \<Rightarrow> bytes" where
  "f64_to_string x =
     (case x of
        NaN \<Rightarrow> ''nan''
      | Infinity neg \<Rightarrow> (if neg then ''-inf'' else ''inf'')
      | Finite m e \<Rightarrow>
          (let a = nat \<bar>m\<bar> * 1000000;
               micros = (if 0 \<le> e then a * 2 ^ nat e else round_at (nat (- e)) a)
           in (if m < 0 then ''-'' else []) @ to_string (micros div 1000000) @ ''.'' @ pad 6 (micros mod 1000000)))"

section \<open>Rounding errors\<close>

lemma bit_len_bounds: "0 < n \<Longrightarrow> 0 < bit_len n \<and> 2 ^ (bit_len n - 1) \<le> n"
proof (induction n rule: bit_len.induct)
  case (1 n)
  show ?case
  proof (cases "n = 1")
    case True
    then show ?thesis by (simp add: bit_len.simps)
  next
    case False
    with 1 have "0 < n div 2" by simp
    with 1 have IH: "0 < bit_len (n div 2)" "2 ^ (bit_len (n div 2) - 1) \<le> n div 2" by auto
    have "bit_len n = Suc (bit_len (n div 2))" using 1(2) by (subst bit_len.simps) simp
    moreover have "(2::nat) ^ bit_len (n div 2) = 2 * 2 ^ (bit_len (n div 2) - 1)"
      using IH(1) by (cases "bit_len (n div 2)") simp_all
    ultimately have eq: "0 < bit_len n" "(2::nat) ^ (bit_len n - 1) = 2 * 2 ^ (bit_len (n div 2) - 1)" by simp_all
    have "2 * (n div 2) \<le> n" by simp
    with IH(2) have "2 * 2 ^ (bit_len (n div 2) - 1) \<le> n" by linarith
    with eq show ?thesis by simp
  qed
qed

lemma round_at_bound: "2 * (round_at k n * 2 ^ k) \<le> 2 * n + 2 ^ k"
proof -
  define q r where "q = n div 2 ^ k" and "r = n mod 2 ^ k"
  have n: "n = q * 2 ^ k + r" unfolding q_def r_def by (rule div_mult_mod_eq [symmetric])
  have "round_at k n = q \<or> round_at k n = q + 1 \<and> 2 ^ k \<le> 2 * r"
    unfolding round_at_def Let_def q_def [symmetric] r_def [symmetric] by auto
  then show ?thesis by (auto simp: n algebra_simps)
qed

lemma f64_trunc_floor: "f64_trunc (Finite m e) = \<lfloor>of_int m * 2 powi e :: real\<rfloor>"
proof (cases "0 \<le> e")
  case True
  then have "of_int m * 2 powi e = (of_int (m * 2 ^ nat e) :: real)" by (simp add: power_int_def)
  then show ?thesis using True by (simp only: floor_of_int f64_trunc_def f64.case if_True)
next
  case False
  then have "of_int m * 2 powi e = (of_int m / of_int (2 ^ nat (- e)) :: real)"
    by (simp add: power_int_def field_simps)
  then have "\<lfloor>of_int m * 2 powi e :: real\<rfloor> = m div 2 ^ nat (- e)"
    by (metis floor_divide_of_int_eq)
  then show ?thesis using False by (simp add: f64_trunc_def)
qed

lemma f64_less_value:
  assumes "\<not> f64_ge_int (Finite m e) k"
  shows "of_int m * 2 powi e < (of_int k :: real)"
proof (cases "0 \<le> e")
  case True
  with assms have "m * 2 ^ nat e < k" by (simp add: f64_ge_int_def)
  then have "of_int (m * 2 ^ nat e) < (of_int k :: real)" by (simp only: of_int_less_iff)
  with True show ?thesis by (simp add: power_int_def)
next
  case False
  with assms have "m < k * 2 ^ nat (- e)" by (simp add: f64_ge_int_def)
  then have "of_int m < (of_int (k * 2 ^ nat (- e)) :: real)" by (simp only: of_int_less_iff)
  then show ?thesis using False by (simp add: power_int_def field_simps)
qed

text \<open>The rounded product exceeds the exact one by a relative error of at most \<open>2 ^ -53\<close>.\<close>

lemma f64_mul_value:
  assumes "0 < m" "0 < k" "f64_mul_int (Finite m e) k = Finite m' e'"
  shows "of_int m' * 2 powi e' \<le> of_int m * 2 powi e * real k * (1 + 1 / 2 ^ 53)"
proof -
  define n where "n = nat m * k"
  define s where "s = bit_len n - 53"
  have n0: "0 < n" using assms by (simp add: n_def)
  have nval: "real n = of_int m * real k" using assms(1) by (simp add: n_def)
  show ?thesis
  proof (cases "s = 0")
    case True
    with assms(3) have "m' = int n" "e' = e" by (auto simp: f64_mul_int_def Let_def n_def s_def)
    then show ?thesis using assms(1,2) nval by (simp add: mult_left_le field_simps)
  next
    case False
    with assms(3) have e': "m' = int (round_at s n)" "e' = e + int s" by (auto simp: f64_mul_int_def Let_def n_def s_def)
    have "2 ^ (s + 52) \<le> n" using bit_len_bounds [OF n0] False by (simp add: s_def)
    then have big: "2 ^ s * 2 ^ 52 \<le> real n" using of_nat_mono [of "2 ^ (s + 52)" n, where ?'a = real]
      by (simp add: power_add)
    have "real (2 * (round_at s n * 2 ^ s)) \<le> real (2 * n + 2 ^ s)" using round_at_bound by (simp only: of_nat_le_iff)
    then have "2 * (real (round_at s n) * 2 ^ s) \<le> 2 * real n + 2 ^ s" by simp
    with big have "real (round_at s n) * 2 ^ s \<le> real n * (1 + 1 / 2 ^ 53)" by (simp add: field_simps)
    then have "(real (round_at s n) * 2 ^ s) * 2 powi e \<le> (real n * (1 + 1 / 2 ^ 53)) * 2 powi e"
      by (intro mult_right_mono) simp_all
    moreover have "of_int m' * 2 powi e' = (real (round_at s n) * 2 ^ s) * 2 powi e"
      by (simp add: e' power_int_add)
    ultimately show ?thesis by (simp add: nval mult_ac)
  qed
qed

end
