(* ===== verification/TimerQueue.thy ===== *)
theory TimerQueue
  imports Float64 Channel "HOL-Library.Product_Lexorder"
begin

text \<open>
  Timers of one loop: \<open>src/src/net/TimerQueue.h\<close> and \<open>TimerQueue.cpp\<close>. Timers are shared objects, so
  they live in a heap indexed by address; \<open>timers_\<close>, a \<open>std::set\<close> of (expiration, pointer) pairs,
  is a strictly sorted list, \<open>activeTimers_\<close> a map from ids to addresses. The heap never frees, so
  an address is not used twice. \<open>tq_timerfd\<close> is the value last given to \<open>timerfd_settime\<close> as
  seconds and nanoseconds. Clock readings and the calls a callback makes are parameters; \<open>int64_t\<close>
  values are unbounded integers whose range is proved.
\<close>

section \<open>Time\<close>

definition kMicrosecondsPerSecond :: int where "kMicrosecondsPerSecond = 1000000"

text \<open>The clock's \<open>timespec\<close>, or \<open>None\<close> where \<open>clock_gettime\<close> failed.\<close>

type_synonym clock = "(int \<times> int) option"

definition monotonicMicroseconds :: "clock \<Rightarrow> int" where
  "monotonicMicroseconds now =
     (case now of
        None \<Rightarrow> 0
      | Some (tv_sec, tv_nsec) \<Rightarrow> tv_sec * kMicrosecondsPerSecond + tv_nsec div 1000)"

text \<open>A failure of \<open>timerfd_create\<close> is only reported: the queue goes on with the descriptor -1.\<close>

definition createTimerfd :: "errno + fd \<Rightarrow> fd" where
  "createTimerfd created = (case created of Inr timerfd \<Rightarrow> timerfd | Inl err \<Rightarrow> -1)"

text \<open>The argument is never a NaN or an infinity: \<open>addTimer\<close> has refused those.\<close>

definition secondsToMicroseconds :: "f64 \<Rightarrow> int" where
  "secondsToMicroseconds seconds =
     (if f64_le_0 seconds then 0
      else if f64_ge_int seconds (INT64_MAX div kMicrosecondsPerSecond) then INT64_MAX
      else max 1 (f64_trunc (f64_mul_int seconds 1000000)))"

text \<open>The saturating sum of \<open>addTimerInLoop\<close> and \<open>handleRead\<close>.\<close>

definition saturating_after :: "int \<Rightarrow> int \<Rightarrow> int" where
  "saturating_after now delayUs = (if INT64_MAX - now < delayUs then INT64_MAX else now + delayUs)"

section \<open>State\<close>

type_synonym TimerId = "64 word"
type_synonym addr = nat

record Timer =
  tm_id :: TimerId
  tm_callback :: nat
  tm_expiration :: int
  tm_interval :: int
  tm_repeating :: bool
  tm_canceled :: bool

definition Timer_new :: "TimerId \<Rightarrow> nat \<Rightarrow> f64 \<Rightarrow> Timer" where
  "Timer_new timerId cb repeatInterval =
     \<lparr>tm_id = timerId, tm_callback = cb, tm_expiration = 0,
      tm_interval = secondsToMicroseconds repeatInterval,
      tm_repeating = f64_greater_0 repeatInterval, tm_canceled = False\<rparr>"

record TimerQueue =
  tq_nextTimerId :: TimerId
  tq_heap :: "addr \<rightharpoonup> Timer"
  tq_timers :: "(int \<times> addr) list"
  tq_active :: "TimerId \<rightharpoonup> addr"
  tq_timerfd :: "int \<times> int"
  tq_timerfdChannel :: Channel

text \<open>\<open>timerfd\<close> is what \<open>timerfd_create\<close> returned. The constructor registers the channel; the
  destructor unregisters it and returns the descriptor it closes.\<close>

definition TimerQueue_new :: "fd \<Rightarrow> TimerQueue \<times> ctl_call list" where
  "TimerQueue_new timerfd =
     (let (ch, calls) = Channel_enableReading (Channel_setReadCallback (Channel_new timerfd) True)
      in (\<lparr>tq_nextTimerId = 1, tq_heap = Map.empty, tq_timers = [], tq_active = Map.empty, tq_timerfd = (0, 0),
           tq_timerfdChannel = ch\<rparr>, calls))"

definition TimerQueue_destroy :: "TimerQueue \<Rightarrow> TimerQueue \<times> ctl_call list \<times> fd list" where
  "TimerQueue_destroy q =
     (let (ch1, calls1) = Channel_disableAll (tq_timerfdChannel q); (ch2, calls2) = Channel_remove ch1
      in (q\<lparr>tq_timerfdChannel := ch2\<rparr>, calls1 @ calls2, if 0 \<le> ch_fd ch2 then [ch_fd ch2] else []))"

section \<open>Operations\<close>

definition timespec_of :: "int \<Rightarrow> int \<times> int" where
  "timespec_of expiration =
     (if 0 < expiration
      then (expiration div kMicrosecondsPerSecond, (expiration mod kMicrosecondsPerSecond) * 1000)
      else (0, 0))"

definition TimerQueue_resetTimerfd :: "int \<Rightarrow> TimerQueue \<Rightarrow> TimerQueue" where
  "TimerQueue_resetTimerfd expiration q = q\<lparr>tq_timerfd := timespec_of expiration\<rparr>"

text \<open>\<open>*timer\<close> through a pointer; a pointer of the queue is never dangling.\<close>

definition timer_at :: "TimerQueue \<Rightarrow> addr \<Rightarrow> Timer" where
  "timer_at q a = (case tq_heap q a of Some t \<Rightarrow> t | None \<Rightarrow> Timer_new 0 0 (Finite 0 0))"

definition set_timer :: "addr \<Rightarrow> Timer \<Rightarrow> TimerQueue \<Rightarrow> TimerQueue" where
  "set_timer a t q = q\<lparr>tq_heap := (tq_heap q)(a \<mapsto> t)\<rparr>"

definition TimerQueue_addTimerInLoop :: "clock \<Rightarrow> addr \<Rightarrow> f64 \<Rightarrow> TimerQueue \<Rightarrow> TimerQueue" where
  "TimerQueue_addTimerInLoop clock timer delay q =
     (let delayUs = secondsToMicroseconds delay;
          now = monotonicMicroseconds clock;
          expiration = saturating_after now delayUs;
          q1 = set_timer timer ((timer_at q timer)\<lparr>tm_expiration := expiration\<rparr>) q;
          earliestChanged = (tq_timers q1 = [] \<or> expiration < fst (hd (tq_timers q1)));
          q2 = q1\<lparr>tq_timers := insort_insert (expiration, timer) (tq_timers q1)\<rparr>;
          timerId = tm_id (timer_at q2 timer);
          q3 = q2\<lparr>tq_active :=
                 (if tq_active q2 timerId = None then (tq_active q2)(timerId \<mapsto> timer) else tq_active q2)\<rparr>
      in if earliestChanged then TimerQueue_resetTimerfd expiration q3 else q3)"

definition TimerQueue_cancelInLoop :: "TimerId \<Rightarrow> TimerQueue \<Rightarrow> TimerQueue" where
  "TimerQueue_cancelInLoop timerId q =
     (case tq_active q timerId of
        None \<Rightarrow> q
      | Some timer \<Rightarrow>
          (let q1 = set_timer timer ((timer_at q timer)\<lparr>tm_canceled := True\<rparr>) q;
               entry = (tm_expiration (timer_at q1 timer), timer);
               found = entry \<in> set (tq_timers q1);
               earliestChanged = (found \<and> entry = hd (tq_timers q1));
               q2 = (if found then q1\<lparr>tq_timers := remove1 entry (tq_timers q1)\<rparr> else q1);
               q3 = q2\<lparr>tq_active := (tq_active q2)(timerId := None)\<rparr>
           in if earliestChanged
              then (if tq_timers q3 = [] then TimerQueue_resetTimerfd 0 q3
                    else TimerQueue_resetTimerfd (fst (hd (tq_timers q3))) q3)
              else q3))"

text \<open>Work handed to the loop by \<open>runInLoop\<close> from another thread.\<close>

datatype timer_task = AddTask addr f64 | CancelTask TimerId

text \<open>\<open>addTimer\<close>: the id it returns, the new state and the tasks it queues. \<open>place\<close> gives the address
  of the object \<open>make_shared\<close> allocates for the timer; an empty \<open>std::function\<close> is \<open>None\<close>.\<close>

definition TimerQueue_addTimer ::
    "(TimerId \<Rightarrow> addr) \<Rightarrow> bool \<Rightarrow> clock \<Rightarrow> nat option \<Rightarrow> f64 \<Rightarrow> f64 \<Rightarrow> TimerQueue \<Rightarrow>
     TimerId \<times> TimerQueue \<times> timer_task list" where
  "TimerQueue_addTimer place inLoop clock cb delay interval q =
     (case cb of
        None \<Rightarrow> (0, q, [])
      | Some f \<Rightarrow>
          if \<not> isfinite delay \<or> f64_less_0 delay \<or> \<not> isfinite interval \<or> f64_less_0 interval
          then (0, q, [])
          else
            let timerId = tq_nextTimerId q;
                timer = place timerId;
                q1 = set_timer timer (Timer_new timerId f interval)
                       (q\<lparr>tq_nextTimerId := tq_nextTimerId q + 1\<rparr>)
            in if inLoop then (timerId, TimerQueue_addTimerInLoop clock timer delay q1, [])
               else (timerId, q1, [AddTask timer delay]))"

definition TimerQueue_cancel :: "bool \<Rightarrow> TimerId \<Rightarrow> TimerQueue \<Rightarrow> TimerQueue \<times> timer_task list" where
  "TimerQueue_cancel inLoop timerId q =
     (if timerId = 0 then (q, [])
      else if inLoop then (TimerQueue_cancelInLoop timerId q, [])
      else (q, [CancelTask timerId]))"

text \<open>What a callback does to its queue, on the loop thread.\<close>

datatype timer_call = AddTimer clock "nat option" f64 f64 | CancelTimer TimerId

fun timer_call_do :: "(TimerId \<Rightarrow> addr) \<Rightarrow> timer_call \<Rightarrow> TimerQueue \<Rightarrow> TimerQueue" where
  "timer_call_do place (AddTimer clock cb delay interval) q =
     fst (snd (TimerQueue_addTimer place True clock cb delay interval q))"
| "timer_call_do place (CancelTimer i) q = fst (TimerQueue_cancel True i q)"

text \<open>The two loops of \<open>handleRead\<close> over the expired timers, and the function.\<close>

fun handleRead_fire ::
    "(TimerId \<Rightarrow> addr) \<Rightarrow> (addr \<Rightarrow> timer_call list) \<Rightarrow> addr list \<Rightarrow> TimerQueue \<Rightarrow> TimerQueue \<times> TimerId list" where
  "handleRead_fire place behave [] q = (q, [])"
| "handleRead_fire place behave (timer # expired) q =
     (if tm_canceled (timer_at q timer) then handleRead_fire place behave expired q
      else
        let (q', fired) =
              handleRead_fire place behave expired (fold (timer_call_do place) (behave timer) q)
        in (q', tm_id (timer_at q timer) # fired))"

fun handleRead_restart :: "(addr \<Rightarrow> clock) \<Rightarrow> addr list \<Rightarrow> TimerQueue \<Rightarrow> TimerQueue" where
  "handleRead_restart restart [] q = q"
| "handleRead_restart restart (timer # expired) q =
     (let t = timer_at q timer in
      if tq_active q (tm_id t) = None \<or> tm_canceled t then handleRead_restart restart expired q
      else if tm_repeating t then
        let expiration = saturating_after (monotonicMicroseconds (restart timer)) (tm_interval t);
            q1 = set_timer timer (t\<lparr>tm_expiration := expiration\<rparr>) q
        in handleRead_restart restart expired
             (q1\<lparr>tq_timers := insort_insert (expiration, timer) (tq_timers q1)\<rparr>)
      else handleRead_restart restart expired (q\<lparr>tq_active := (tq_active q)(tm_id t := None)\<rparr>))"

definition TimerQueue_handleRead ::
    "(TimerId \<Rightarrow> addr) \<Rightarrow> clock \<Rightarrow> (addr \<Rightarrow> timer_call list) \<Rightarrow> (addr \<Rightarrow> clock) \<Rightarrow> TimerQueue \<Rightarrow>
     TimerQueue \<times> TimerId list" where
  "TimerQueue_handleRead place clock behave restart q =
     (let now = monotonicMicroseconds clock;
          due = takeWhile (\<lambda>e. fst e \<le> now) (tq_timers q);
          expired = map snd due;
          q1 = q\<lparr>tq_timers := dropWhile (\<lambda>e. fst e \<le> now) (tq_timers q)\<rparr>;
          (q2, fired) = handleRead_fire place behave expired q1;
          q3 = handleRead_restart restart expired q2
      in (if tq_timers q3 \<noteq> [] then TimerQueue_resetTimerfd (fst (hd (tq_timers q3))) q3 else q3, fired))"

section \<open>Time conversion\<close>

lemma secondsToMicroseconds_bounds:
  assumes "isfinite x"
  shows "0 \<le> secondsToMicroseconds x \<and> secondsToMicroseconds x \<le> INT64_MAX
    \<and> (secondsToMicroseconds x = 0 \<longleftrightarrow> f64_le_0 x)"
proof -
  from assms obtain m e where x: "x = Finite m e" by (cases x) (auto simp: isfinite_def)
  show ?thesis
  proof (cases "m \<le> 0 \<or> f64_ge_int x (INT64_MAX div kMicrosecondsPerSecond)")
    case True
    then show ?thesis by (auto simp: secondsToMicroseconds_def x f64_le_0_def INT64_MAX_def)
  next
    case False
    then have pos: "0 < m" and lt: "\<not> f64_ge_int (Finite m e) 9223372036854"
      by (auto simp: x INT64_MAX_def kMicrosecondsPerSecond_def)
    obtain m' e' where p: "f64_mul_int x 1000000 = Finite m' e'"
      by (cases "f64_mul_int x 1000000") (auto simp: f64_mul_int_def x Let_def split: if_splits)
    have "of_int m' * 2 powi e' \<le> of_int m * 2 powi e * real 1000000 * (1 + 1 / 2 ^ 53)"
      by (rule f64_mul_value) (use pos p x in auto)
    also have "\<dots> \<le> of_int 9223372036854 * real 1000000 * (1 + 1 / 2 ^ 53)"
      using f64_less_value [OF lt] by (intro mult_right_mono) simp_all
    also have "\<dots> \<le> (of_int INT64_MAX :: real)" by (simp add: INT64_MAX_def)
    finally have "f64_trunc (f64_mul_int x 1000000) \<le> INT64_MAX"
      unfolding p f64_trunc_floor by (metis floor_mono floor_of_int)
    with False show ?thesis
      by (auto simp: secondsToMicroseconds_def x f64_le_0_def INT64_MAX_def)
  qed
qed

section \<open>Invariant\<close>

text \<open>
  \<open>P\<close> are the timers allocated but still waiting in the loop's task queue, \<open>X\<close> those a running
  \<open>handleRead\<close> has taken out of the set and not yet put back or dropped.
\<close>

definition tq_inv :: "(TimerId \<Rightarrow> addr) \<Rightarrow> addr set \<Rightarrow> addr set \<Rightarrow> TimerQueue \<Rightarrow> bool" where
  "tq_inv place P X q \<longleftrightarrow>
     sorted (tq_timers q) \<and> distinct (tq_timers q)
     \<and> (\<forall>e a. (e, a) \<in> set (tq_timers q) \<longrightarrow> a \<notin> X
          \<and> (\<exists>t. tq_heap q a = Some t \<and> tm_expiration t = e \<and> \<not> tm_canceled t \<and> tq_active q (tm_id t) = Some a))
     \<and> (\<forall>i a. tq_active q i = Some a \<longrightarrow>
          (\<exists>t. tq_heap q a = Some t \<and> tm_id t = i \<and> \<not> tm_canceled t
               \<and> ((tm_expiration t, a) \<in> set (tq_timers q) \<or> a \<in> X)))
     \<and> (\<forall>a t. tq_heap q a = Some t \<longrightarrow>
          a = place (tm_id t) \<and> 0 < unat (tm_id t) \<and> unat (tm_id t) < unat (tq_nextTimerId q))
     \<and> (\<forall>a. a \<in> X \<longrightarrow> (\<exists>t. tq_heap q a = Some t \<and> (tm_canceled t \<or> tq_active q (tm_id t) = Some a)))
     \<and> (\<forall>a. a \<in> P \<longrightarrow> (\<exists>t. tq_heap q a = Some t \<and> tq_active q (tm_id t) = None \<and> \<not> tm_canceled t))"

definition tq_armed :: "TimerQueue \<Rightarrow> bool" where
  "tq_armed q \<longleftrightarrow> tq_timers q = [] \<or> tq_timerfd q = timespec_of (fst (hd (tq_timers q)))"

lemma timer_at_Some [simp]: "tq_heap q a = Some t \<Longrightarrow> timer_at q a = t"
  by (simp add: timer_at_def)

lemma set_timer_sel [simp]:
  "tq_heap (set_timer a t q) = (tq_heap q)(a \<mapsto> t)" "tq_timers (set_timer a t q) = tq_timers q"
  "tq_active (set_timer a t q) = tq_active q" "tq_nextTimerId (set_timer a t q) = tq_nextTimerId q"
  "tq_timerfd (set_timer a t q) = tq_timerfd q" "timer_at (set_timer a t q) a = t"
  by (simp_all add: set_timer_def timer_at_def)

lemma resetTimerfd_sel [simp]:
  "tq_heap (TimerQueue_resetTimerfd x q) = tq_heap q" "tq_timers (TimerQueue_resetTimerfd x q) = tq_timers q"
  "tq_active (TimerQueue_resetTimerfd x q) = tq_active q"
  "tq_nextTimerId (TimerQueue_resetTimerfd x q) = tq_nextTimerId q"
  "tq_timerfd (TimerQueue_resetTimerfd x q) = timespec_of x"
  by (simp_all add: TimerQueue_resetTimerfd_def)

lemma tq_inv_reset [simp]: "tq_inv place P X (TimerQueue_resetTimerfd x q) = tq_inv place P X q"
  by (simp add: tq_inv_def)

lemma unat_next:
  fixes i :: TimerId
  assumes "unat i < 2 ^ 64 - 1"
  shows "unat (i + 1) = unat i + 1"
  using assms by (simp add: unat_word_ariths)

lemma tq_invD:
  assumes "tq_inv place P X q"
  shows "sorted (tq_timers q)" "distinct (tq_timers q)"
    and "(e, a) \<in> set (tq_timers q) \<Longrightarrow> a \<notin> X"
    and "(e, a) \<in> set (tq_timers q) \<Longrightarrow>
      \<exists>t. tq_heap q a = Some t \<and> tm_expiration t = e \<and> \<not> tm_canceled t \<and> tq_active q (tm_id t) = Some a"
    and "tq_active q i = Some a \<Longrightarrow>
      \<exists>t. tq_heap q a = Some t \<and> tm_id t = i \<and> \<not> tm_canceled t
         \<and> ((tm_expiration t, a) \<in> set (tq_timers q) \<or> a \<in> X)"
    and "tq_heap q a = Some u \<Longrightarrow>
      a = place (tm_id u) \<and> 0 < unat (tm_id u) \<and> unat (tm_id u) < unat (tq_nextTimerId q)"
    and "a \<in> X \<Longrightarrow> \<exists>t. tq_heap q a = Some t \<and> (tm_canceled t \<or> tq_active q (tm_id t) = Some a)"
    and "a \<in> P \<Longrightarrow> \<exists>t. tq_heap q a = Some t \<and> tq_active q (tm_id t) = None \<and> \<not> tm_canceled t"
  using assms unfolding tq_inv_def by blast+

lemma tq_invI:
  assumes "sorted (tq_timers q)" "distinct (tq_timers q)"
    and "\<And>e a. (e, a) \<in> set (tq_timers q) \<Longrightarrow> a \<notin> X
      \<and> (\<exists>t. tq_heap q a = Some t \<and> tm_expiration t = e \<and> \<not> tm_canceled t \<and> tq_active q (tm_id t) = Some a)"
    and "\<And>i a. tq_active q i = Some a \<Longrightarrow>
      \<exists>t. tq_heap q a = Some t \<and> tm_id t = i \<and> \<not> tm_canceled t
         \<and> ((tm_expiration t, a) \<in> set (tq_timers q) \<or> a \<in> X)"
    and "\<And>a t. tq_heap q a = Some t \<Longrightarrow>
      a = place (tm_id t) \<and> 0 < unat (tm_id t) \<and> unat (tm_id t) < unat (tq_nextTimerId q)"
    and "\<And>a. a \<in> X \<Longrightarrow> \<exists>t. tq_heap q a = Some t \<and> (tm_canceled t \<or> tq_active q (tm_id t) = Some a)"
    and "\<And>a. a \<in> P \<Longrightarrow> \<exists>t. tq_heap q a = Some t \<and> tq_active q (tm_id t) = None \<and> \<not> tm_canceled t"
  shows "tq_inv place P X q"
  using assms unfolding tq_inv_def by blast

text \<open>A timer's address and its id determine each other.\<close>

lemma tq_active_place:
  assumes "tq_inv place P X q" "tq_active q i = Some a"
  shows "a = place i" "\<exists>t. tq_heap q a = Some t \<and> tm_id t = i"
proof -
  from tq_invD(5) [OF assms] obtain t where t: "tq_heap q a = Some t" "tm_id t = i" by blast
  with tq_invD(6) [OF assms(1) t(1)] show "a = place i" "\<exists>t. tq_heap q a = Some t \<and> tm_id t = i" by auto
qed

lemma tq_inv_alloc:
  assumes inv: "tq_inv place P X q" and "inj place" "unat (tq_nextTimerId q) < 2 ^ 64 - 1"
    "0 < unat (tq_nextTimerId q)"
    and q'_def: "q' = set_timer (place (tq_nextTimerId q)) (Timer_new (tq_nextTimerId q) f iv)
       (q\<lparr>tq_nextTimerId := tq_nextTimerId q + 1\<rparr>)"
  shows "tq_inv place (insert (place (tq_nextTimerId q)) P) X q'"
proof -
  let ?n = "tq_nextTimerId q" and ?a = "place (tq_nextTimerId q)"
  have fresh: "tq_heap q ?a = None"
  proof (rule ccontr)
    assume "tq_heap q ?a \<noteq> None"
    then obtain t where "tq_heap q ?a = Some t" by auto
    from tq_invD(6) [OF inv this] assms(2) show False by (auto dest: injD)
  qed
  then have none: "tq_active q ?n = None"
    using tq_active_place [OF inv, of ?n] by (cases "tq_active q ?n") auto
  have old: "tq_heap q' a = Some t" if "tq_heap q a = Some t" for a t
    using that fresh by (auto simp: q'_def)
  have sel: "tq_timers q' = tq_timers q" "tq_active q' = tq_active q" "unat (tq_nextTimerId q') = unat ?n + 1"
    by (simp_all add: q'_def unat_next [OF assms(3)])
  show ?thesis
  proof (rule tq_invI)
    show "\<exists>t. tq_heap q' a = Some t \<and> tq_active q' (tm_id t) = None \<and> \<not> tm_canceled t"
      if "a \<in> insert ?a P" for a
      using that tq_invD(8) [OF inv, of a] none old by (auto simp: sel q'_def Timer_new_def)
    show "a = place (tm_id t) \<and> 0 < unat (tm_id t) \<and> unat (tm_id t) < unat (tq_nextTimerId q')"
      if "tq_heap q' a = Some t" for a t
      using that tq_invD(6) [OF inv, of a t] assms(4)
      by (auto simp: sel(3)) (auto simp: q'_def Timer_new_def split: if_splits)
    show "sorted (tq_timers q')" "distinct (tq_timers q')"
      using tq_invD(1,2) [OF inv] by (simp_all add: sel)
    show "a \<notin> X \<and> (\<exists>t. tq_heap q' a = Some t \<and> tm_expiration t = e \<and> \<not> tm_canceled t
        \<and> tq_active q' (tm_id t) = Some a)" if "(e, a) \<in> set (tq_timers q')" for e a
      using that tq_invD(3,4) [OF inv, of e a] old by (auto simp: sel)
    show "\<exists>t. tq_heap q' a = Some t \<and> tm_id t = i \<and> \<not> tm_canceled t
        \<and> ((tm_expiration t, a) \<in> set (tq_timers q') \<or> a \<in> X)" if "tq_active q' i = Some a" for i a
      using that tq_invD(5) [OF inv, of i a] old by (auto simp: sel)
    show "\<exists>t. tq_heap q' a = Some t \<and> (tm_canceled t \<or> tq_active q' (tm_id t) = Some a)" if "a \<in> X" for a
      using tq_invD(7) [OF inv that] old by (auto simp: sel)
  qed
qed

lemma tq_inv_add:
  assumes inv: "tq_inv place P X q" and "inj place" "a \<in> P"
  shows "tq_inv place (P - {a}) X (TimerQueue_addTimerInLoop clock a delay q)"
proof -
  obtain t where t: "tq_heap q a = Some t" "tq_active q (tm_id t) = None" "\<not> tm_canceled t"
    using tq_invD(8) [OF inv assms(3)] by blast
  define ex where "ex = saturating_after (monotonicMicroseconds clock) (secondsToMicroseconds delay)"
  define q' where "q' = q\<lparr>tq_heap := (tq_heap q)(a \<mapsto> t\<lparr>tm_expiration := ex\<rparr>),
      tq_timers := insort_insert (ex, a) (tq_timers q), tq_active := (tq_active q)(tm_id t \<mapsto> a)\<rparr>"
  have "TimerQueue_addTimerInLoop clock a delay q = q' \<or>
      TimerQueue_addTimerInLoop clock a delay q = TimerQueue_resetTimerfd ex q'"
    using t by (auto simp: TimerQueue_addTimerInLoop_def Let_def ex_def q'_def set_timer_def)
  moreover have "tq_inv place (P - {a}) X q'"
  proof -
    have notin: "(e, a) \<notin> set (tq_timers q)" for e using tq_invD(4) [OF inv, of e a] t by auto
    have aX: "a \<notin> X" using tq_invD(7) [OF inv, of a] t by auto
    have id_neq: "tm_id u \<noteq> tm_id t" if "tq_heap q b = Some u" "b \<noteq> a" for b u
      using tq_invD(6) [OF inv that(1)] tq_invD(6) [OF inv t(1)] that(2) by auto
    have sel: "tq_timers q' = insort_insert (ex, a) (tq_timers q)"
      "tq_heap q' a = Some (t\<lparr>tm_expiration := ex\<rparr>)" "\<And>b. b \<noteq> a \<Longrightarrow> tq_heap q' b = tq_heap q b"
      "tq_active q' (tm_id t) = Some a" "\<And>i. i \<noteq> tm_id t \<Longrightarrow> tq_active q' i = tq_active q i"
      "tq_nextTimerId q' = tq_nextTimerId q"
      by (simp_all add: q'_def)
    show ?thesis
    proof (rule tq_invI)
      show "sorted (tq_timers q')" "distinct (tq_timers q')"
        using tq_invD(1,2) [OF inv] by (simp_all add: sel sorted_insort_insert distinct_insort_insert)
      show "b \<notin> X \<and> (\<exists>u. tq_heap q' b = Some u \<and> tm_expiration u = e \<and> \<not> tm_canceled u
          \<and> tq_active q' (tm_id u) = Some b)" if "(e, b) \<in> set (tq_timers q')" for e b
      proof (cases "b = a")
        case True
        with that notin aX t(3) show ?thesis by (auto simp: sel set_insort_insert)
      next
        case False
        with that have "(e, b) \<in> set (tq_timers q)" by (simp add: sel set_insort_insert)
        from tq_invD(3,4) [OF inv this] False id_neq show ?thesis by (auto simp: sel)
      qed
      show "\<exists>u. tq_heap q' b = Some u \<and> tm_id u = i \<and> \<not> tm_canceled u
          \<and> ((tm_expiration u, b) \<in> set (tq_timers q') \<or> b \<in> X)" if "tq_active q' i = Some b" for i b
      proof (cases "i = tm_id t")
        case True
        with that have "b = a" by (simp add: sel)
        with True t(3) sel(2) show ?thesis by (simp add: sel set_insort_insert)
      next
        case False
        with that have act: "tq_active q i = Some b" by (simp add: sel)
        from tq_invD(5) [OF inv act] obtain u where u: "tq_heap q b = Some u" "tm_id u = i" "\<not> tm_canceled u"
          "(tm_expiration u, b) \<in> set (tq_timers q) \<or> b \<in> X" by blast
        with False t(1) have "b \<noteq> a" by auto
        with u show ?thesis by (auto simp: sel set_insort_insert)
      qed
      show "b = place (tm_id u) \<and> 0 < unat (tm_id u) \<and> unat (tm_id u) < unat (tq_nextTimerId q')"
        if "tq_heap q' b = Some u" for b u
      proof (cases "b = a")
        case True
        with that sel(2) have "tm_id u = tm_id t" by auto
        with True tq_invD(6) [OF inv t(1)] show ?thesis by (simp add: sel)
      next
        case False
        with that tq_invD(6) [OF inv, of b u] show ?thesis by (simp add: sel)
      qed
      show "\<exists>u. tq_heap q' b = Some u \<and> (tm_canceled u \<or> tq_active q' (tm_id u) = Some b)" if "b \<in> X" for b
        using tq_invD(7) [OF inv that] aX that id_neq by (cases "b = a") (auto simp: sel)
      show "\<exists>u. tq_heap q' b = Some u \<and> tq_active q' (tm_id u) = None \<and> \<not> tm_canceled u"
        if "b \<in> P - {a}" for b
        using tq_invD(8) [OF inv, of b] that id_neq by (auto simp: sel)
    qed
  qed
  ultimately show ?thesis by auto
qed

lemma sorted_remove_hd_unchanged:
  "x \<in> set xs \<Longrightarrow> x \<noteq> hd xs \<Longrightarrow> remove1 x xs \<noteq> [] \<and> hd (remove1 x xs) = hd xs"
  by (cases xs) auto

text \<open>The effect of cancelling an active timer.\<close>

lemma cancelInLoop_eq:
  assumes inv: "tq_inv place P X q" and act: "tq_active q i = Some a"
  obtains t where "tq_heap q a = Some t" "tm_id t = i"
    "tq_heap (TimerQueue_cancelInLoop i q) = (tq_heap q)(a \<mapsto> t\<lparr>tm_canceled := True\<rparr>)"
    "tq_timers (TimerQueue_cancelInLoop i q) = remove1 (tm_expiration t, a) (tq_timers q)"
    "tq_active (TimerQueue_cancelInLoop i q) = (tq_active q)(i := None)"
    "tq_nextTimerId (TimerQueue_cancelInLoop i q) = tq_nextTimerId q"
    "tq_armed q \<Longrightarrow> tq_armed (TimerQueue_cancelInLoop i q)"
proof -
  obtain t where t: "tq_heap q a = Some t" "tm_id t = i" using tq_invD(5) [OF inv act] by blast
  let ?e = "(tm_expiration t, a)"
  let ?q' = "TimerQueue_cancelInLoop i q"
  have "tq_heap ?q' = (tq_heap q)(a \<mapsto> t\<lparr>tm_canceled := True\<rparr>)"
    "tq_timers ?q' = remove1 ?e (tq_timers q)" "tq_active ?q' = (tq_active q)(i := None)"
    "tq_nextTimerId ?q' = tq_nextTimerId q"
    using act t(1) by (auto simp: TimerQueue_cancelInLoop_def Let_def remove1_idem)
  moreover have "tq_armed ?q'" if "tq_armed q"
  proof (cases "?e \<in> set (tq_timers q) \<and> ?e = hd (tq_timers q)")
    case True
    then show ?thesis using act t(1) by (auto simp: TimerQueue_cancelInLoop_def Let_def tq_armed_def)
  next
    case False
    then have "tq_timerfd ?q' = tq_timerfd q" using act t(1) by (auto simp: TimerQueue_cancelInLoop_def Let_def)
    with False that sorted_remove_hd_unchanged [of ?e "tq_timers q"] show ?thesis
      using calculation(2) by (cases "?e \<in> set (tq_timers q)") (auto simp: tq_armed_def remove1_idem)
  qed
  ultimately show thesis using that t by blast
qed

lemma cancelInLoop_inactive: "tq_active q i = None \<Longrightarrow> TimerQueue_cancelInLoop i q = q"
  by (simp add: TimerQueue_cancelInLoop_def)

lemma tq_inv_cancel:
  assumes inv: "tq_inv place P X q"
  shows "tq_inv place P X (TimerQueue_cancelInLoop i q)"
proof (cases "tq_active q i")
  case None
  with inv show ?thesis by (simp add: cancelInLoop_inactive)
next
  case (Some a)
  define q' where "q' = TimerQueue_cancelInLoop i q"
  obtain t where t: "tq_heap q a = Some t" "tm_id t = i"
    and sel: "tq_heap q' = (tq_heap q)(a \<mapsto> t\<lparr>tm_canceled := True\<rparr>)"
      "tq_timers q' = remove1 (tm_expiration t, a) (tq_timers q)" "tq_active q' = (tq_active q)(i := None)"
      "tq_nextTimerId q' = tq_nextTimerId q"
    unfolding q'_def by (rule cancelInLoop_eq [OF inv Some])
  have tm: "(e, b) \<in> set (tq_timers q') \<longleftrightarrow> (e, b) \<in> set (tq_timers q) \<and> b \<noteq> a" for e b
  proof -
    have "e = tm_expiration t" if "(e, a) \<in> set (tq_timers q)" using tq_invD(4) [OF inv that] t(1) by auto
    then show ?thesis using tq_invD(2) [OF inv] by (auto simp: sel)
  qed
  have idn: "tm_id u \<noteq> i" if "tq_heap q b = Some u" "b \<noteq> a" for b u
    using tq_invD(6) [OF inv that(1)] tq_invD(6) [OF inv t(1)] that(2) t(2) by auto
  have "tq_inv place P X q'"
  proof (rule tq_invI)
    show "sorted (tq_timers q')" "distinct (tq_timers q')"
      using tq_invD(1,2) [OF inv] by (simp_all add: sel sorted_remove1)
    show "b \<notin> X \<and> (\<exists>u. tq_heap q' b = Some u \<and> tm_expiration u = e \<and> \<not> tm_canceled u
        \<and> tq_active q' (tm_id u) = Some b)" if "(e, b) \<in> set (tq_timers q')" for e b
      using that tq_invD(3,4) [OF inv, of e b] idn unfolding tm by (auto simp: sel)
    show "\<exists>u. tq_heap q' b = Some u \<and> tm_id u = j \<and> \<not> tm_canceled u
        \<and> ((tm_expiration u, b) \<in> set (tq_timers q') \<or> b \<in> X)" if "tq_active q' j = Some b" for j b
    proof -
      from that have j: "j \<noteq> i" "tq_active q j = Some b" by (auto simp: sel split: if_splits)
      from tq_invD(5) [OF inv j(2)] obtain u where u: "tq_heap q b = Some u" "tm_id u = j" "\<not> tm_canceled u"
          "(tm_expiration u, b) \<in> set (tq_timers q) \<or> b \<in> X" by blast
      with j t have "b \<noteq> a" by auto
      with u show ?thesis unfolding tm by (simp add: sel)
    qed
    show "b = place (tm_id u) \<and> 0 < unat (tm_id u) \<and> unat (tm_id u) < unat (tq_nextTimerId q')"
      if "tq_heap q' b = Some u" for b u
    proof (cases "b = a")
      case True
      with that have "tm_id u = tm_id t" by (auto simp: sel)
      with True tq_invD(6) [OF inv t(1)] show ?thesis by (simp add: sel)
    next
      case False
      with that tq_invD(6) [OF inv, of b u] show ?thesis by (simp add: sel)
    qed
    show "\<exists>u. tq_heap q' b = Some u \<and> (tm_canceled u \<or> tq_active q' (tm_id u) = Some b)" if "b \<in> X" for b
      using tq_invD(7) [OF inv that] idn by (cases "b = a") (auto simp: sel)
    show "\<exists>u. tq_heap q' b = Some u \<and> tq_active q' (tm_id u) = None \<and> \<not> tm_canceled u" if "b \<in> P" for b
      using tq_invD(8) [OF inv that] t Some by (cases "b = a") (auto simp: sel)
  qed
  then show ?thesis by (simp add: q'_def)
qed

lemma hd_insort_insert:
  fixes x :: "int \<times> nat"
  assumes "sorted xs" "xs \<noteq> []"
  shows "fst (hd (insort_insert x xs)) = (if fst x < fst (hd xs) then fst x else fst (hd xs))"
proof -
  obtain y ys where xs: "xs = y # ys" using assms(2) by (cases xs) auto
  have "\<not> fst x < fst y" if "x \<in> set xs" using that assms(1) xs by (auto simp: less_eq_prod_def)
  then show ?thesis by (auto simp: insort_insert_key_def xs less_eq_prod_def)
qed

lemma tq_armed_add:
  assumes "tq_armed q" "sorted (tq_timers q)"
  shows "tq_armed (TimerQueue_addTimerInLoop clock a delay q)"
proof (cases "tq_timers q = []")
  case True
  then show ?thesis by (simp add: TimerQueue_addTimerInLoop_def Let_def tq_armed_def insort_insert_key_def)
next
  case False
  with assms hd_insort_insert [OF assms(2) False] show ?thesis
    by (auto simp: TimerQueue_addTimerInLoop_def Let_def tq_armed_def)
qed

section \<open>Firing\<close>

lemma addTimer_cases:
  obtains (invalid) "TimerQueue_addTimer place inLoop clock cb delay iv q = (0, q, [])"
  | (valid) f q1 where "cb = Some f"
      "q1 = set_timer (place (tq_nextTimerId q)) (Timer_new (tq_nextTimerId q) f iv)
         (q\<lparr>tq_nextTimerId := tq_nextTimerId q + 1\<rparr>)"
      "TimerQueue_addTimer place inLoop clock cb delay iv q =
         (tq_nextTimerId q,
          if inLoop then (TimerQueue_addTimerInLoop clock (place (tq_nextTimerId q)) delay q1, [])
          else (q1, [AddTask (place (tq_nextTimerId q)) delay]))"
proof (cases cb)
  case None
  then show thesis by (intro invalid) (simp add: TimerQueue_addTimer_def)
next
  case (Some f)
  show thesis
  proof (cases "\<not> isfinite delay \<or> f64_less_0 delay \<or> \<not> isfinite iv \<or> f64_less_0 iv")
    case True
    with Some show thesis by (intro invalid) (simp add: TimerQueue_addTimer_def)
  next
    case False
    with Some show thesis by (intro valid [OF Some refl]) (simp add: TimerQueue_addTimer_def Let_def)
  qed
qed

lemma addTimerInLoop_sel:
  "tq_nextTimerId (TimerQueue_addTimerInLoop clock a delay q) = tq_nextTimerId q"
  by (simp add: TimerQueue_addTimerInLoop_def Let_def)

lemma cancelInLoop_next: "tq_nextTimerId (TimerQueue_cancelInLoop i q) = tq_nextTimerId q"
  by (simp add: TimerQueue_cancelInLoop_def Let_def split: option.splits)

text \<open>A call of a callback keeps the invariant and uses up at most one id.\<close>

lemma timer_call_inv:
  assumes inv: "tq_inv place P X q" and inj: "inj place" and n: "unat (tq_nextTimerId q) < 2 ^ 64 - 1"
    "0 < unat (tq_nextTimerId q)"
  shows "tq_inv place P X (timer_call_do place c q)
    \<and> unat (tq_nextTimerId q) \<le> unat (tq_nextTimerId (timer_call_do place c q))
    \<and> unat (tq_nextTimerId (timer_call_do place c q)) \<le> unat (tq_nextTimerId q) + 1"
proof (cases c)
  case (AddTimer clock cb delay iv)
  let ?a = "place (tq_nextTimerId q)"
  show ?thesis
  proof (cases rule: addTimer_cases [of place True clock cb delay iv q])
    case invalid
    with inv AddTimer show ?thesis by simp
  next
    case (valid f q1)
    have i1: "tq_inv place (insert ?a P) X q1" by (rule tq_inv_alloc [OF inv inj n valid(2)])
    have "a \<notin> P" if "tq_heap q a = None" for a using tq_invD(8) [OF inv] that by fastforce
    moreover have "tq_heap q ?a = None"
    proof (rule ccontr)
      assume "tq_heap q ?a \<noteq> None"
      then obtain t where "tq_heap q ?a = Some t" by auto
      from tq_invD(6) [OF inv this] inj show False by (auto dest: injD)
    qed
    ultimately have P: "insert ?a P - {?a} = P" by auto
    from tq_inv_add [OF i1 inj, of ?a clock delay] P
    have "tq_inv place P X (TimerQueue_addTimerInLoop clock ?a delay q1)" by simp
    with valid AddTimer unat_next [OF n(1)] show ?thesis by (simp add: addTimerInLoop_sel)
  qed
next
  case (CancelTimer i)
  then show ?thesis using inv tq_inv_cancel [OF inv]
    by (simp add: TimerQueue_cancel_def cancelInLoop_next)
qed

lemma timer_calls_inv:
  assumes "tq_inv place P X q" "inj place" "unat (tq_nextTimerId q) + length cs < 2 ^ 64" "0 < unat (tq_nextTimerId q)"
  shows "tq_inv place P X (fold (timer_call_do place) cs q)
    \<and> unat (tq_nextTimerId q) \<le> unat (tq_nextTimerId (fold (timer_call_do place) cs q))
    \<and> unat (tq_nextTimerId (fold (timer_call_do place) cs q)) \<le> unat (tq_nextTimerId q) + length cs"
  using assms
proof (induction cs arbitrary: q)
  case (Cons c cs)
  let ?q1 = "timer_call_do place c q"
  have c: "tq_inv place P X ?q1" "unat (tq_nextTimerId q) \<le> unat (tq_nextTimerId ?q1)"
    "unat (tq_nextTimerId ?q1) \<le> unat (tq_nextTimerId q) + 1"
    using timer_call_inv [OF Cons.prems(1,2), of c] Cons.prems by auto
  from Cons.IH [OF c(1) Cons.prems(2)] c Cons.prems show ?case by fastforce
qed simp

text \<open>A timer that is neither active nor waiting to be added; its id is used up.\<close>

definition timer_gone :: "(TimerId \<Rightarrow> addr) \<Rightarrow> addr set \<Rightarrow> TimerId \<Rightarrow> TimerQueue \<Rightarrow> bool" where
  "timer_gone place P i q \<longleftrightarrow>
     tq_active q i = None \<and> unat i < unat (tq_nextTimerId q) \<and> place i \<notin> P"

lemma tq_fresh:
  assumes "tq_inv place P X q" "inj place"
  shows "tq_heap q (place (tq_nextTimerId q)) = None"
proof (rule ccontr)
  assume "tq_heap q (place (tq_nextTimerId q)) \<noteq> None"
  then obtain t where "tq_heap q (place (tq_nextTimerId q)) = Some t" by auto
  from tq_invD(6) [OF assms(1) this] assms(2) show False by (auto dest: injD)
qed

lemma addTimerInLoop_active:
  "tq_heap q a = Some t \<Longrightarrow> i \<noteq> tm_id t \<Longrightarrow> tq_active (TimerQueue_addTimerInLoop clock a delay q) i = tq_active q i"
  by (simp add: TimerQueue_addTimerInLoop_def Let_def)

lemma addTimerInLoop_heap:
  "b \<noteq> a \<Longrightarrow> tq_heap (TimerQueue_addTimerInLoop clock a delay q) b = tq_heap q b"
  by (simp add: TimerQueue_addTimerInLoop_def Let_def)

lemma timer_call_gone:
  assumes inv: "tq_inv place P X q" and inj: "inj place" and n: "unat (tq_nextTimerId q) < 2 ^ 64 - 1"
    "0 < unat (tq_nextTimerId q)" and gone: "timer_gone place P i q"
  shows "timer_gone place P i (timer_call_do place c q)"
proof -
  have mono: "unat (tq_nextTimerId q) \<le> unat (tq_nextTimerId (timer_call_do place c q))"
    using timer_call_inv [OF inv inj n] by simp
  have "tq_active (timer_call_do place c q) i = None"
  proof (cases c)
    case (AddTimer clock cb delay iv)
    have neq: "i \<noteq> tq_nextTimerId q" using gone by (auto simp: timer_gone_def)
    show ?thesis
    proof (cases rule: addTimer_cases [of place True clock cb delay iv q])
      case invalid
      with AddTimer gone show ?thesis by (simp add: timer_gone_def)
    next
      case (valid f q1)
      with AddTimer gone neq show ?thesis
        by (simp add: timer_gone_def addTimerInLoop_active Timer_new_def)
    qed
  next
    case (CancelTimer j)
    then show ?thesis using gone
      by (cases "tq_active q j") (auto simp: TimerQueue_cancel_def timer_gone_def cancelInLoop_inactive
          elim!: cancelInLoop_eq [OF inv])
  qed
  with gone mono show ?thesis by (simp add: timer_gone_def)
qed

lemma timer_calls_gone:
  assumes "tq_inv place P X q" "inj place" "unat (tq_nextTimerId q) + length cs < 2 ^ 64"
    "0 < unat (tq_nextTimerId q)" "timer_gone place P i q"
  shows "timer_gone place P i (fold (timer_call_do place) cs q)"
  using assms
proof (induction cs arbitrary: q)
  case (Cons c cs)
  have n: "unat (tq_nextTimerId q) < 2 ^ 64 - 1" using Cons.prems(3) by simp
  note c = timer_call_inv [OF Cons.prems(1,2) n Cons.prems(4), of c]
  have "timer_gone place P i (timer_call_do place c q)"
    by (rule timer_call_gone [OF Cons.prems(1,2) n Cons.prems(4,5)])
  with Cons.IH [of "timer_call_do place c q"] c Cons.prems(2,3,4) show ?case by simp
qed simp

text \<open>A cancellation takes the timer out, whether it is active or already gone; so do calls that
  contain one.\<close>

lemma cancelInLoop_gone:
  assumes "tq_inv place P X q" "unat i < unat (tq_nextTimerId q)" "place i \<notin> P"
  shows "timer_gone place P i (TimerQueue_cancelInLoop i q)"
  using assms
  by (cases "tq_active q i")
    (auto simp: timer_gone_def cancelInLoop_inactive cancelInLoop_next intro: cancelInLoop_eq [OF assms(1)])

lemma timer_calls_cancel:
  assumes inv: "tq_inv place P X q" and inj: "inj place" and n: "unat (tq_nextTimerId q) + length cs < 2 ^ 64"
    "0 < unat (tq_nextTimerId q)" and i: "0 < unat i" "unat i < unat (tq_nextTimerId q)" "place i \<notin> P"
    and c: "CancelTimer i \<in> set cs"
  shows "timer_gone place P i (fold (timer_call_do place) cs q)"
proof -
  from split_list [OF c] obtain bs ds where cs: "cs = bs @ CancelTimer i # ds" by blast
  let ?q1 = "fold (timer_call_do place) bs q"
  have b: "tq_inv place P X ?q1" "unat (tq_nextTimerId q) \<le> unat (tq_nextTimerId ?q1)"
    "unat (tq_nextTimerId ?q1) \<le> unat (tq_nextTimerId q) + length bs"
    using timer_calls_inv [OF inv inj _ n(2), of bs] n(1) by (auto simp: cs)
  let ?q2 = "TimerQueue_cancelInLoop i ?q1"
  have gone: "timer_gone place P i ?q2" by (rule cancelInLoop_gone [OF b(1) _ i(3)]) (use i(2) b(2) in simp)
  have "timer_gone place P i (fold (timer_call_do place) ds ?q2)"
    by (rule timer_calls_gone [OF tq_inv_cancel [OF b(1)] inj _ _ gone])
      (use n b in \<open>auto simp: cs cancelInLoop_next\<close>)
  moreover have "i \<noteq> 0" using i(1) by auto
  ultimately show ?thesis by (simp add: cs TimerQueue_cancel_def)
qed

text \<open>Without a cancellation no timer object that exists is touched.\<close>

fun is_add :: "timer_call \<Rightarrow> bool" where
  "is_add (AddTimer _ _ _ _) \<longleftrightarrow> True"
| "is_add (CancelTimer _) \<longleftrightarrow> False"

lemma timer_call_heap:
  assumes "tq_inv place P X q" "inj place" "is_add c" "tq_heap q a = Some t"
  shows "tq_heap (timer_call_do place c q) a = Some t"
proof (cases c)
  case (AddTimer clock cb delay iv)
  have "a \<noteq> place (tq_nextTimerId q)" using tq_fresh [OF assms(1,2)] assms(4) by auto
  then show ?thesis using AddTimer assms(4)
    by (cases rule: addTimer_cases [of place True clock cb delay iv q]) (simp_all add: addTimerInLoop_heap)
qed (use assms(3) in simp)

lemma timer_calls_heap:
  assumes "tq_inv place P X q" "inj place" "unat (tq_nextTimerId q) + length cs < 2 ^ 64"
    "0 < unat (tq_nextTimerId q)" "list_all is_add cs" "tq_heap q a = Some t"
  shows "tq_heap (fold (timer_call_do place) cs q) a = Some t"
  using assms
proof (induction cs arbitrary: q)
  case (Cons c cs)
  have n: "unat (tq_nextTimerId q) < 2 ^ 64 - 1" using Cons.prems(3) by simp
  note c = timer_call_inv [OF Cons.prems(1,2) n Cons.prems(4), of c]
  have "tq_heap (timer_call_do place c q) a = Some t"
    by (rule timer_call_heap [OF Cons.prems(1,2) _ Cons.prems(6)]) (use Cons.prems(5) in simp)
  with Cons.IH [of "timer_call_do place c q"] c Cons.prems show ?case by simp
qed simp

definition calls_of :: "(addr \<Rightarrow> timer_call list) \<Rightarrow> addr list \<Rightarrow> nat" where
  "calls_of behave as = sum_list (map (\<lambda>a. length (behave a)) as)"

lemma handleRead_fire_inv:
  assumes "tq_inv place P X q" "inj place" "set expired \<subseteq> X"
    "unat (tq_nextTimerId q) + calls_of behave expired < 2 ^ 64" "0 < unat (tq_nextTimerId q)"
    "handleRead_fire place behave expired q = (q', fired)"
  shows "tq_inv place P X q' \<and> unat (tq_nextTimerId q) \<le> unat (tq_nextTimerId q')
    \<and> unat (tq_nextTimerId q') \<le> unat (tq_nextTimerId q) + calls_of behave expired
    \<and> subseq (map place fired) expired
    \<and> (timer_gone place P i q \<longrightarrow> timer_gone place P i q' \<and> i \<notin> set fired)
    \<and> (list_all (\<lambda>a. list_all is_add (behave a) \<and> \<not> tm_canceled (timer_at q a)) expired
        \<longrightarrow> map place fired = expired)"
  using assms
proof (induction expired arbitrary: q q' fired)
  case Nil
  then show ?case by simp
next
  case (Cons a expired)
  from Cons.prems(3) tq_invD(7) [OF Cons.prems(1), of a] obtain t where t: "tq_heap q a = Some t"
    "tm_canceled t \<or> tq_active q (tm_id t) = Some a" by auto
  have pl: "place (tm_id t) = a" using tq_invD(6) [OF Cons.prems(1) t(1)] by simp
  show ?case
  proof (cases "tm_canceled t")
    case True
    with t Cons.prems have "handleRead_fire place behave expired q = (q', fired)" by simp
    from Cons.IH [OF Cons.prems(1,2) _ _ Cons.prems(5) this] Cons.prems(3,4) True t show ?thesis
      by (auto simp: calls_of_def)
  next
    case False
    let ?q1 = "fold (timer_call_do place) (behave a) q"
    obtain fs where r: "handleRead_fire place behave expired ?q1 = (q', fs)" and f: "fired = tm_id t # fs"
      using Cons.prems(6) False t by (auto split: prod.splits)
    have len: "unat (tq_nextTimerId q) + length (behave a) < 2 ^ 64" using Cons.prems(4) by (simp add: calls_of_def)
    note c = timer_calls_inv [OF Cons.prems(1,2) len Cons.prems(5)]
    have bound: "unat (tq_nextTimerId ?q1) + calls_of behave expired < 2 ^ 64" "0 < unat (tq_nextTimerId ?q1)"
      using c Cons.prems(4,5) by (auto simp: calls_of_def)
    have IH: "tq_inv place P X q' \<and> unat (tq_nextTimerId ?q1) \<le> unat (tq_nextTimerId q')
      \<and> unat (tq_nextTimerId q') \<le> unat (tq_nextTimerId ?q1) + calls_of behave expired
      \<and> subseq (map place fs) expired
      \<and> (timer_gone place P i ?q1 \<longrightarrow> timer_gone place P i q' \<and> i \<notin> set fs)
      \<and> (list_all (\<lambda>a. list_all is_add (behave a) \<and> \<not> tm_canceled (timer_at ?q1 a)) expired
          \<longrightarrow> map place fs = expired)"
      by (rule Cons.IH [OF _ Cons.prems(2) _ bound r]) (use c Cons.prems(3) in auto)
    have gone: "timer_gone place P i ?q1" "i \<noteq> tm_id t" if "timer_gone place P i q"
      using timer_calls_gone [OF Cons.prems(1,2) len Cons.prems(5) that] that t False
      by (auto simp: timer_gone_def)
    have all: "map place fired = a # expired"
      if "list_all (\<lambda>a. list_all is_add (behave a) \<and> \<not> tm_canceled (timer_at q a)) (a # expired)"
    proof -
      have "\<not> tm_canceled (timer_at ?q1 b)" if "b \<in> set expired" "\<not> tm_canceled (timer_at q b)" for b
      proof -
        from that(1) Cons.prems(3) tq_invD(7) [OF Cons.prems(1), of b] obtain u where u: "tq_heap q b = Some u" by auto
        with timer_calls_heap [OF Cons.prems(1,2) len Cons.prems(5) _ u] \<open>list_all _ (a # expired)\<close> that(2)
        show ?thesis by simp
      qed
      with that IH f pl show ?thesis by (auto simp: list_all_iff)
    qed
    from IH f pl c gone all show ?thesis by (auto simp: calls_of_def)
  qed
qed

text \<open>A callback of the batch that cancels a timer keeps it from running in the rest of the batch.\<close>

lemma handleRead_fire_cancel:
  assumes "tq_inv place P X q" "inj place" "set expired \<subseteq> X"
    "unat (tq_nextTimerId q) + calls_of behave expired < 2 ^ 64" "0 < unat i" "unat i < unat (tq_nextTimerId q)"
    "place i \<notin> P" "handleRead_fire place behave expired q = (q', xs @ j # ys)"
    "CancelTimer i \<in> set (behave (place j))"
  shows "timer_gone place P i q' \<and> i \<notin> set ys"
  using assms
proof (induction expired arbitrary: q xs)
  case Nil
  then show ?case by simp
next
  case (Cons a expired)
  from Cons.prems(3) tq_invD(7) [OF Cons.prems(1), of a] obtain t where t: "tq_heap q a = Some t" by auto
  have pl: "place (tm_id t) = a" using tq_invD(6) [OF Cons.prems(1) t] by simp
  show ?case
  proof (cases "tm_canceled t")
    case True
    with t Cons.prems(8) have "handleRead_fire place behave expired q = (q', xs @ j # ys)" by simp
    from Cons.IH [OF Cons.prems(1,2) _ _ Cons.prems(5,6,7) this Cons.prems(9)] Cons.prems(3,4) show ?thesis
      by (auto simp: calls_of_def)
  next
    case False
    let ?q1 = "fold (timer_call_do place) (behave a) q"
    obtain fs where r: "handleRead_fire place behave expired ?q1 = (q', fs)" and f: "xs @ j # ys = tm_id t # fs"
      using Cons.prems(8) False t by (auto split: prod.splits)
    have len: "unat (tq_nextTimerId q) + length (behave a) < 2 ^ 64" "0 < unat (tq_nextTimerId q)"
      using Cons.prems(4,6) by (simp_all add: calls_of_def)
    note c = timer_calls_inv [OF Cons.prems(1,2) len]
    have bound: "unat (tq_nextTimerId ?q1) + calls_of behave expired < 2 ^ 64" "0 < unat (tq_nextTimerId ?q1)"
      "unat i < unat (tq_nextTimerId ?q1)" "tq_inv place P X ?q1" "set expired \<subseteq> X"
      using c Cons.prems(3,4,6) by (auto simp: calls_of_def)
    show ?thesis
    proof (cases xs)
      case Nil
      with f pl Cons.prems(9) have "CancelTimer i \<in> set (behave a)" "fs = ys" by auto
      with timer_calls_cancel [OF Cons.prems(1,2) len Cons.prems(5,6,7)]
        handleRead_fire_inv [OF bound(4) Cons.prems(2) bound(5,1,2) r, of i] show ?thesis by blast
    next
      case xs: (Cons x xs')
      with f r have "handleRead_fire place behave expired ?q1 = (q', xs' @ j # ys)" by simp
      from Cons.IH [OF bound(4) Cons.prems(2) bound(5,1) Cons.prems(5) bound(3) Cons.prems(7) this Cons.prems(9)]
      show ?thesis .
    qed
  qed
qed

text \<open>One expired timer put back, or dropped.\<close>

lemma tq_inv_drop:
  assumes inv: "tq_inv place P X q" and "tq_heap q a = Some t" "a \<in> X" "tq_active q (tm_id t) \<noteq> Some a"
  shows "tq_inv place P (X - {a}) q"
proof (rule tq_invI)
  show "\<exists>t. tq_heap q b = Some t \<and> tm_id t = i \<and> \<not> tm_canceled t
        \<and> ((tm_expiration t, b) \<in> set (tq_timers q) \<or> b \<in> X - {a})" if "tq_active q i = Some b" for i b
    using tq_invD(5) [OF inv that] that assms(2,4) by auto
  show "sorted (tq_timers q)" "distinct (tq_timers q)" using tq_invD(1,2) [OF inv] .
qed (use tq_invD(3,4,6,7,8) [OF inv] in blast)+

lemma tq_inv_finish:
  assumes inv: "tq_inv place P X q" and t: "tq_heap q a = Some t" and "a \<in> X" "tq_active q (tm_id t) = Some a"
  shows "tq_inv place P (X - {a}) (q\<lparr>tq_active := (tq_active q)(tm_id t := None)\<rparr>)"
proof -
  let ?q' = "q\<lparr>tq_active := (tq_active q)(tm_id t := None)\<rparr>"
  have idn: "tm_id u \<noteq> tm_id t" if "tq_heap q b = Some u" "b \<noteq> a" for b u
    using tq_invD(6) [OF inv that(1)] tq_invD(6) [OF inv t] that(2) by auto
  have notin: "(e, a) \<notin> set (tq_timers q)" for e using tq_invD(3) [OF inv] assms(3) by blast
  show ?thesis
  proof (rule tq_invI)
    show "b \<notin> X - {a} \<and> (\<exists>t. tq_heap ?q' b = Some t \<and> tm_expiration t = e \<and> \<not> tm_canceled t
        \<and> tq_active ?q' (tm_id t) = Some b)" if "(e, b) \<in> set (tq_timers ?q')" for e b
    proof -
      from that notin have "(e, b) \<in> set (tq_timers q)" "b \<noteq> a" by auto
      with tq_invD(3,4) [OF inv this(1)] idn show ?thesis by auto
    qed
    show "\<exists>u. tq_heap ?q' b = Some u \<and> tm_id u = i \<and> \<not> tm_canceled u
        \<and> ((tm_expiration u, b) \<in> set (tq_timers ?q') \<or> b \<in> X - {a})" if "tq_active ?q' i = Some b" for i b
    proof -
      from that have i: "i \<noteq> tm_id t" "tq_active q i = Some b" by (auto split: if_splits)
      with tq_invD(5) [OF inv i(2)] t show ?thesis by auto
    qed
    show "\<exists>u. tq_heap ?q' b = Some u \<and> (tm_canceled u \<or> tq_active ?q' (tm_id u) = Some b)" if "b \<in> X - {a}" for b
      using tq_invD(7) [OF inv, of b] that idn by auto
    show "\<exists>u. tq_heap ?q' b = Some u \<and> tq_active ?q' (tm_id u) = None \<and> \<not> tm_canceled u" if "b \<in> P" for b
      using tq_invD(8) [OF inv that] by auto
  qed (use tq_invD(1,2,6) [OF inv] in auto)
qed

lemma tq_inv_rearm:
  assumes inv: "tq_inv place P X q" and t: "tq_heap q a = Some t" and "a \<in> X" "tq_active q (tm_id t) = Some a"
    and q'_def: "q' = q\<lparr>tq_heap := (tq_heap q)(a \<mapsto> t\<lparr>tm_expiration := ex\<rparr>),
        tq_timers := insort_insert (ex, a) (tq_timers q)\<rparr>"
  shows "tq_inv place P (X - {a}) q'"
proof -
  have notin: "(e, a) \<notin> set (tq_timers q)" for e using tq_invD(3) [OF inv] assms(3) by blast
  have nc: "\<not> tm_canceled t" using tq_invD(5) [OF inv assms(4)] t by auto
  have sel: "tq_timers q' = insort_insert (ex, a) (tq_timers q)" "tq_heap q' a = Some (t\<lparr>tm_expiration := ex\<rparr>)"
    "\<And>b. b \<noteq> a \<Longrightarrow> tq_heap q' b = tq_heap q b" "tq_active q' = tq_active q" "tq_nextTimerId q' = tq_nextTimerId q"
    by (simp_all add: q'_def)
  show ?thesis
  proof (rule tq_invI)
    show "sorted (tq_timers q')" "distinct (tq_timers q')"
      using tq_invD(1,2) [OF inv] by (simp_all add: sel sorted_insort_insert distinct_insort_insert)
    show "b \<notin> X - {a} \<and> (\<exists>u. tq_heap q' b = Some u \<and> tm_expiration u = e \<and> \<not> tm_canceled u
        \<and> tq_active q' (tm_id u) = Some b)" if "(e, b) \<in> set (tq_timers q')" for e b
    proof (cases "b = a")
      case True
      with that notin nc assms(4) show ?thesis by (auto simp: sel set_insort_insert)
    next
      case False
      with that have "(e, b) \<in> set (tq_timers q)" by (simp add: sel set_insort_insert)
      from tq_invD(3,4) [OF inv this] False show ?thesis by (auto simp: sel)
    qed
    show "\<exists>u. tq_heap q' b = Some u \<and> tm_id u = i \<and> \<not> tm_canceled u
        \<and> ((tm_expiration u, b) \<in> set (tq_timers q') \<or> b \<in> X - {a})" if "tq_active q' i = Some b" for i b
    proof (cases "b = a")
      case True
      with that tq_invD(5) [OF inv, of i b] t nc sel(2) show ?thesis by (auto simp: sel(1,4) set_insort_insert)
    next
      case False
      with that tq_invD(5) [OF inv, of i b] show ?thesis by (auto simp: sel set_insort_insert)
    qed
    show "b = place (tm_id u) \<and> 0 < unat (tm_id u) \<and> unat (tm_id u) < unat (tq_nextTimerId q')"
      if "tq_heap q' b = Some u" for b u
    proof (cases "b = a")
      case True
      with that sel(2) have "tm_id u = tm_id t" by auto
      with True tq_invD(6) [OF inv t] show ?thesis by (simp add: sel)
    next
      case False
      with that tq_invD(6) [OF inv, of b u] show ?thesis by (simp add: sel)
    qed
    show "\<exists>u. tq_heap q' b = Some u \<and> (tm_canceled u \<or> tq_active q' (tm_id u) = Some b)" if "b \<in> X - {a}" for b
      using tq_invD(7) [OF inv, of b] that by (auto simp: sel)
    show "\<exists>u. tq_heap q' b = Some u \<and> tq_active q' (tm_id u) = None \<and> \<not> tm_canceled u" if "b \<in> P" for b
      using tq_invD(8) [OF inv that] t assms(4) by (cases "b = a") (auto simp: sel)
  qed
qed

lemma handleRead_restart_inv:
  assumes "tq_inv place P (set expired) q" "distinct expired"
  shows "tq_inv place P {} (handleRead_restart restart expired q)
    \<and> tq_nextTimerId (handleRead_restart restart expired q) = tq_nextTimerId q
    \<and> (timer_gone place P i q \<longrightarrow> timer_gone place P i (handleRead_restart restart expired q))"
  using assms
proof (induction expired arbitrary: q)
  case Nil
  then show ?case by simp
next
  case (Cons a expired)
  have X: "set (a # expired) - {a} = set expired" using Cons.prems(2) by auto
  obtain t where t: "tq_heap q a = Some t" "tm_canceled t \<or> tq_active q (tm_id t) = Some a"
    using tq_invD(7) [OF Cons.prems(1), of a] by auto
  have nc: "tq_active q (tm_id t) \<noteq> Some a" if "tm_canceled t"
    using tq_invD(5) [OF Cons.prems(1), of "tm_id t" a] t(1) that by auto
  show ?case
  proof (cases "tm_canceled t \<or> tq_active q (tm_id t) = None")
    case True
    with nc have "tq_active q (tm_id t) \<noteq> Some a" by auto
    from tq_inv_drop [OF Cons.prems(1) t(1) _ this] have "tq_inv place P (set expired) q"
      unfolding X by simp
    moreover have "handleRead_restart restart (a # expired) q = handleRead_restart restart expired q"
      using True t(1) by auto
    ultimately show ?thesis using Cons.IH [of q] Cons.prems(2) by simp
  next
    case False
    with t(2) have act: "tq_active q (tm_id t) = Some a" by simp
    show ?thesis
    proof (cases "tm_repeating t")
      case True
      define ex where "ex = saturating_after (monotonicMicroseconds (restart a)) (tm_interval t)"
      define q1 where "q1 = q\<lparr>tq_heap := (tq_heap q)(a \<mapsto> t\<lparr>tm_expiration := ex\<rparr>),
        tq_timers := insort_insert (ex, a) (tq_timers q)\<rparr>"
      have "tq_inv place P (set expired) q1"
        using tq_inv_rearm [OF Cons.prems(1) t(1) _ act q1_def] X by simp
      moreover have "handleRead_restart restart (a # expired) q = handleRead_restart restart expired q1"
        using True False t(1) act by (simp add: Let_def set_timer_def ex_def q1_def)
      moreover have "tq_nextTimerId q1 = tq_nextTimerId q" "timer_gone place P i q1 = timer_gone place P i q"
        by (simp_all add: q1_def timer_gone_def)
      ultimately show ?thesis using Cons.IH [of q1] Cons.prems(2) by simp
    next
      case once: False
      let ?q1 = "q\<lparr>tq_active := (tq_active q)(tm_id t := None)\<rparr>"
      have "tq_inv place P (set expired) ?q1"
        using tq_inv_finish [OF Cons.prems(1) t(1) _ act] X by simp
      moreover have "handleRead_restart restart (a # expired) q = handleRead_restart restart expired ?q1"
        using once False t(1) act by (simp add: Let_def)
      moreover have "timer_gone place P i ?q1" if "timer_gone place P i q"
        using that by (simp add: timer_gone_def)
      ultimately show ?thesis using Cons.IH [of ?q1] Cons.prems(2) by simp
    qed
  qed
qed

lemma tq_inv_take_due:
  assumes inv: "tq_inv place P {} q" and due_def: "due = map snd (takeWhile (\<lambda>e. fst e \<le> now) (tq_timers q))"
  shows "tq_inv place P (set due) (q\<lparr>tq_timers := dropWhile (\<lambda>e. fst e \<le> now) (tq_timers q)\<rparr>) \<and> distinct due"
proof -
  let ?tk = "takeWhile (\<lambda>e. fst e \<le> now) (tq_timers q)" and ?dr = "dropWhile (\<lambda>e. fst e \<le> now) (tq_timers q)"
  have app: "?tk @ ?dr = tq_timers q" by simp
  have dist: "distinct (?tk @ ?dr)" using tq_invD(2) [OF inv] by simp
  have same: "e = e'" if "(e, a) \<in> set (tq_timers q)" "(e', a) \<in> set (tq_timers q)" for e e' a
    using tq_invD(4) [OF inv that(1)] tq_invD(4) [OF inv that(2)] by auto
  have mem: "x \<in> set (tq_timers q) \<longleftrightarrow> x \<in> set ?tk \<or> x \<in> set ?dr" for x
    by (metis app Un_iff set_append)
  have out: "a \<notin> set due" if "(e, a) \<in> set ?dr" for e a
  proof
    assume "a \<in> set due"
    then obtain e' where e': "(e', a) \<in> set ?tk" by (auto simp: due_def)
    with that same [of e a e'] mem have "(e, a) \<in> set ?tk" by blast
    with that dist show False by (auto simp del: takeWhile_dropWhile_id)
  qed
  have "inj_on snd (set ?tk)"
  proof (rule inj_onI)
    fix x y assume "x \<in> set ?tk" "y \<in> set ?tk" "snd x = snd y"
    then have "x \<in> set (tq_timers q)" "y \<in> set (tq_timers q)" by (auto dest: set_takeWhileD)
    with same \<open>snd x = snd y\<close> show "x = y" by (cases x; cases y) auto
  qed
  then have "distinct due" using dist by (simp add: due_def distinct_map)
  moreover have "tq_inv place P (set due) (q\<lparr>tq_timers := ?dr\<rparr>)" (is "tq_inv _ _ _ ?q'")
  proof (rule tq_invI)
    show "sorted (tq_timers ?q')" "distinct (tq_timers ?q')"
      using tq_invD(1,2) [OF inv] by (simp_all add: sorted_dropWhile)
    show "a \<notin> set due \<and> (\<exists>t. tq_heap ?q' a = Some t \<and> tm_expiration t = e \<and> \<not> tm_canceled t
        \<and> tq_active ?q' (tm_id t) = Some a)" if "(e, a) \<in> set (tq_timers ?q')" for e a
      using that out tq_invD(4) [OF inv, of e a] mem by auto
    show "\<exists>t. tq_heap ?q' a = Some t \<and> tm_id t = i \<and> \<not> tm_canceled t
        \<and> ((tm_expiration t, a) \<in> set (tq_timers ?q') \<or> a \<in> set due)" if "tq_active ?q' i = Some a" for i a
      using tq_invD(5) [OF inv, of i a] that mem unfolding due_def by force
    show "\<exists>t. tq_heap ?q' a = Some t \<and> (tm_canceled t \<or> tq_active ?q' (tm_id t) = Some a)" if "a \<in> set due" for a
      using that tq_invD(4) [OF inv] mem unfolding due_def by force
    show "\<exists>t. tq_heap ?q' a = Some t \<and> tq_active ?q' (tm_id t) = None \<and> \<not> tm_canceled t" if "a \<in> P" for a
      using tq_invD(8) [OF inv that] by auto
  qed (use tq_invD(6) [OF inv] in auto)
  ultimately show ?thesis by simp
qed

lemma handleRead_inv:
  assumes inv: "tq_inv place P {} q" and inj: "inj place"
    and due_def: "due = map snd (takeWhile (\<lambda>e. fst e \<le> monotonicMicroseconds clock) (tq_timers q))"
    and n: "unat (tq_nextTimerId q) + calls_of behave due < 2 ^ 64" "0 < unat (tq_nextTimerId q)"
    and r: "TimerQueue_handleRead place clock behave restart q = (q', fired)"
  shows "tq_inv place P {} q' \<and> tq_armed q' \<and> 0 < unat (tq_nextTimerId q')
    \<and> subseq (map place fired) due
    \<and> (timer_gone place P i q \<longrightarrow> timer_gone place P i q' \<and> i \<notin> set fired)
    \<and> (list_all (\<lambda>a. list_all is_add (behave a)) due \<longrightarrow> map place fired = due)"
proof -
  define q1 where "q1 = q\<lparr>tq_timers := dropWhile (\<lambda>e. fst e \<le> monotonicMicroseconds clock) (tq_timers q)\<rparr>"
  have i1: "tq_inv place P (set due) q1" "distinct due"
    using tq_inv_take_due [OF inv due_def] by (auto simp: q1_def)
  obtain q2 fired' where f: "handleRead_fire place behave due q1 = (q2, fired')" by fastforce
  have n1: "unat (tq_nextTimerId q1) + calls_of behave due < 2 ^ 64" "0 < unat (tq_nextTimerId q1)"
    using n by (simp_all add: q1_def)
  note fire = handleRead_fire_inv [OF i1(1) inj order_refl n1 f, of i]
  define q3 where "q3 = handleRead_restart restart due q2"
  have re: "tq_inv place P {} q3 \<and> tq_nextTimerId q3 = tq_nextTimerId q2
      \<and> (timer_gone place P i q2 \<longrightarrow> timer_gone place P i q3)"
    unfolding q3_def by (rule handleRead_restart_inv [OF _ i1(2)]) (use fire in simp)
  have q': "q' = (if tq_timers q3 \<noteq> [] then TimerQueue_resetTimerfd (fst (hd (tq_timers q3))) q3 else q3)"
    "fired = fired'"
    using r f by (auto simp: TimerQueue_handleRead_def Let_def q1_def due_def q3_def)
  have gone_reset: "timer_gone place P i (TimerQueue_resetTimerfd x q3) = timer_gone place P i q3" for x
    by (simp add: timer_gone_def)
  have gone1: "timer_gone place P i q1 = timer_gone place P i q" by (simp add: q1_def timer_gone_def)
  have nc: "list_all (\<lambda>a. \<not> tm_canceled (timer_at q1 a)) due"
  proof (clarsimp simp: list_all_iff)
    fix a assume "a \<in> set due" "tm_canceled (timer_at q1 a)"
    then obtain e where "(e, a) \<in> set (tq_timers q)" unfolding due_def by (auto dest: set_takeWhileD)
    from tq_invD(4) [OF inv this] \<open>tm_canceled (timer_at q1 a)\<close> show False
      by (auto simp: q1_def timer_at_def)
  qed
  show ?thesis
    using fire re n1 gone1 nc
    by (auto simp: q' tq_armed_def gone_reset list_all_iff split: if_splits)
qed

lemma handleRead_cancel:
  assumes inv: "tq_inv place P {} q" and inj: "inj place"
    and due_def: "due = map snd (takeWhile (\<lambda>e. fst e \<le> monotonicMicroseconds clock) (tq_timers q))"
    and n: "unat (tq_nextTimerId q) + calls_of behave due < 2 ^ 64"
    and i: "0 < unat i" "unat i < unat (tq_nextTimerId q)" "place i \<notin> P"
    and r: "TimerQueue_handleRead place clock behave restart q = (q', xs @ j # ys)"
    and c: "CancelTimer i \<in> set (behave (place j))"
  shows "timer_gone place P i q' \<and> i \<notin> set ys"
proof -
  define q1 where "q1 = q\<lparr>tq_timers := dropWhile (\<lambda>e. fst e \<le> monotonicMicroseconds clock) (tq_timers q)\<rparr>"
  have i1: "tq_inv place P (set due) q1" "distinct due"
    using tq_inv_take_due [OF inv due_def] by (auto simp: q1_def)
  obtain q2 where f: "handleRead_fire place behave due q1 = (q2, xs @ j # ys)"
    and q': "q' = (let q3 = handleRead_restart restart due q2
      in if tq_timers q3 \<noteq> [] then TimerQueue_resetTimerfd (fst (hd (tq_timers q3))) q3 else q3)"
    using r by (auto simp: TimerQueue_handleRead_def Let_def q1_def due_def split: prod.splits)
  have n1: "unat (tq_nextTimerId q1) + calls_of behave due < 2 ^ 64" "0 < unat (tq_nextTimerId q1)"
    "unat i < unat (tq_nextTimerId q1)" using n i by (simp_all add: q1_def)
  have gone: "timer_gone place P i q2" "i \<notin> set ys"
    using handleRead_fire_cancel [OF i1(1) inj order_refl n1(1) i(1) n1(3) i(3) f c] by auto
  have "tq_inv place P (set due) q2" using handleRead_fire_inv [OF i1(1) inj order_refl n1(1,2) f] by simp
  from handleRead_restart_inv [OF this i1(2)] gone show ?thesis
    by (auto simp: q' Let_def timer_gone_def)
qed

section \<open>The timers of a loop\<close>

text \<open>Every interleaving of \<open>addTimer\<close> and \<open>cancel\<close> from any thread, the loop running the task at the
  head of its queue, and the timer descriptor becoming readable. The two bounds say that the
  64-bit id counter has not run out.\<close>

datatype timer_event =
    UserAdd bool clock "nat option" f64 f64
  | UserCancel bool TimerId
  | RunTimerTask clock
  | Expire clock "addr \<Rightarrow> timer_call list" "addr \<Rightarrow> clock"

record timer_sys =
  ts_queue :: TimerQueue
  ts_tasks :: "timer_task list"
  ts_fired :: "TimerId list"

fun timer_task_do :: "clock \<Rightarrow> timer_task \<Rightarrow> TimerQueue \<Rightarrow> TimerQueue" where
  "timer_task_do clock (AddTask a delay) q = TimerQueue_addTimerInLoop clock a delay q"
| "timer_task_do clock (CancelTask i) q = TimerQueue_cancelInLoop i q"

definition due_at :: "clock \<Rightarrow> TimerQueue \<Rightarrow> addr list" where
  "due_at clock q = map snd (takeWhile (\<lambda>e. fst e \<le> monotonicMicroseconds clock) (tq_timers q))"

inductive timer_step :: "(TimerId \<Rightarrow> addr) \<Rightarrow> timer_sys \<Rightarrow> timer_event \<Rightarrow> timer_sys \<Rightarrow> bool"
  for place where
  step_add:
  "unat (tq_nextTimerId (ts_queue s)) < 2 ^ 64 - 1 \<Longrightarrow>
   TimerQueue_addTimer place inLoop clock cb delay interval (ts_queue s) = (i, q', ts') \<Longrightarrow>
   timer_step place s (UserAdd inLoop clock cb delay interval) (s\<lparr>ts_queue := q', ts_tasks := ts_tasks s @ ts'\<rparr>)"
| step_cancel:
  "TimerQueue_cancel inLoop i (ts_queue s) = (q', ts') \<Longrightarrow>
   timer_step place s (UserCancel inLoop i) (s\<lparr>ts_queue := q', ts_tasks := ts_tasks s @ ts'\<rparr>)"
| step_task:
  "ts_tasks s = t # ts \<Longrightarrow>
   timer_step place s (RunTimerTask clock) (s\<lparr>ts_queue := timer_task_do clock t (ts_queue s), ts_tasks := ts\<rparr>)"
| step_expire:
  "unat (tq_nextTimerId (ts_queue s)) + calls_of behave (due_at clock (ts_queue s)) < 2 ^ 64 \<Longrightarrow>
   TimerQueue_handleRead place clock behave restart (ts_queue s) = (q', fired) \<Longrightarrow>
   timer_step place s (Expire clock behave restart) (s\<lparr>ts_queue := q', ts_fired := ts_fired s @ fired\<rparr>)"

definition timer_init :: "fd \<Rightarrow> timer_sys" where
  "timer_init timerfd = \<lparr>ts_queue = fst (TimerQueue_new timerfd), ts_tasks = [], ts_fired = []\<rparr>"

fun task_addr :: "timer_task \<Rightarrow> addr list" where
  "task_addr (AddTask a _) = [a]"
| "task_addr (CancelTask _) = []"

definition waiting :: "timer_task list \<Rightarrow> addr list" where
  "waiting ts = concat (map task_addr ts)"

definition timer_sys_ok :: "(TimerId \<Rightarrow> addr) \<Rightarrow> timer_sys \<Rightarrow> bool" where
  "timer_sys_ok place s \<longleftrightarrow>
     tq_inv place (set (waiting (ts_tasks s))) {} (ts_queue s) \<and> distinct (waiting (ts_tasks s))
     \<and> tq_armed (ts_queue s) \<and> 0 < unat (tq_nextTimerId (ts_queue s))"

lemma waiting_simps [simp]:
  "waiting [] = []" "waiting (t # ts) = task_addr t @ waiting ts" "waiting (ts @ us) = waiting ts @ waiting us"
  by (simp_all add: waiting_def)

lemma tq_armed_cancel: "tq_inv place P X q \<Longrightarrow> tq_armed q \<Longrightarrow> tq_armed (TimerQueue_cancelInLoop i q)"
  by (cases "tq_active q i") (auto simp: cancelInLoop_inactive elim!: cancelInLoop_eq)

lemma waiting_known: "tq_inv place P X q \<Longrightarrow> inj place \<Longrightarrow> place (tq_nextTimerId q) \<notin> P"
  using tq_invD(8) [of place P X q "place (tq_nextTimerId q)"] tq_fresh [of place P X q] by auto

lemma timer_add_ok:
  assumes ok: "timer_sys_ok place s" and inj: "inj place" and n: "unat (tq_nextTimerId (ts_queue s)) < 2 ^ 64 - 1"
    and r: "TimerQueue_addTimer place inLoop clock cb delay iv (ts_queue s) = (i, q', ts')"
  shows "timer_sys_ok place (s\<lparr>ts_queue := q', ts_tasks := ts_tasks s @ ts'\<rparr>)"
proof (cases rule: addTimer_cases [of place inLoop clock cb delay iv "ts_queue s"])
  case invalid
  with ok r show ?thesis by (simp add: timer_sys_ok_def)
next
  case (valid f q1)
  let ?q = "ts_queue s" and ?P = "set (waiting (ts_tasks s))"
  let ?a = "place (tq_nextTimerId ?q)"
  from ok have inv: "tq_inv place ?P {} ?q" and armed: "tq_armed ?q" and pos: "0 < unat (tq_nextTimerId ?q)"
    and dist: "distinct (waiting (ts_tasks s))" by (simp_all add: timer_sys_ok_def)
  have i1: "tq_inv place (insert ?a ?P) {} q1" by (rule tq_inv_alloc [OF inv inj n pos valid(2)])
  have a: "?a \<notin> ?P" by (rule waiting_known [OF inv inj])
  have q1: "tq_armed q1" "unat (tq_nextTimerId q1) = unat (tq_nextTimerId ?q) + 1" "sorted (tq_timers q1)"
    using armed tq_invD(1) [OF i1] by (simp_all add: valid(2) tq_armed_def unat_next [OF n])
  show ?thesis
  proof (cases inLoop)
    case True
    from tq_inv_add [OF i1 inj, of ?a clock delay] a
    have "tq_inv place ?P {} (TimerQueue_addTimerInLoop clock ?a delay q1)" by simp
    with True r valid(3) tq_armed_add [OF q1(1,3)] q1 dist show ?thesis
      by (auto simp: timer_sys_ok_def addTimerInLoop_sel)
  next
    case False
    with r valid(3) i1 q1 a dist show ?thesis by (auto simp: timer_sys_ok_def insert_commute)
  qed
qed

lemma timer_step_ok:
  assumes inj: "inj place" and ok: "timer_sys_ok place s" and st: "timer_step place s e s'"
  shows "timer_sys_ok place s'"
  using st
proof cases
  case (step_add inLoop clock cb delay iv i q' ts')
  with timer_add_ok [OF ok inj] show ?thesis by simp
next
  case (step_cancel inLoop i q' ts')
  with ok tq_inv_cancel tq_armed_cancel show ?thesis
    by (auto simp: timer_sys_ok_def TimerQueue_cancel_def cancelInLoop_next split: if_splits)
next
  case (step_task t ts clock)
  let ?q = "ts_queue s"
  from ok have inv: "tq_inv place (set (waiting (ts_tasks s))) {} ?q" and armed: "tq_armed ?q"
    and rest: "distinct (waiting (ts_tasks s))" "0 < unat (tq_nextTimerId ?q)" by (simp_all add: timer_sys_ok_def)
  show ?thesis
  proof (cases t)
    case (AddTask a delay)
    with step_task rest(1) have P: "set (waiting (ts_tasks s)) - {a} = set (waiting ts)" "distinct (waiting ts)" by auto
    have "tq_inv place (set (waiting ts)) {} (TimerQueue_addTimerInLoop clock a delay ?q)"
      using tq_inv_add [OF inv inj, of a clock delay] AddTask step_task P by simp
    with step_task AddTask P tq_armed_add [OF armed tq_invD(1) [OF inv]] rest show ?thesis
      by (simp add: timer_sys_ok_def addTimerInLoop_sel)
  next
    case (CancelTask i)
    with step_task inv armed rest tq_inv_cancel [OF inv, of i] tq_armed_cancel [OF inv armed, of i] show ?thesis
      by (simp add: timer_sys_ok_def cancelInLoop_next)
  qed
next
  case (step_expire behave clock restart q' fired)
  from ok have "tq_inv place (set (waiting (ts_tasks s))) {} (ts_queue s)"
    and n: "0 < unat (tq_nextTimerId (ts_queue s))" by (simp_all add: timer_sys_ok_def)
  from handleRead_inv [OF this(1) inj due_at_def step_expire(3) n step_expire(4)] ok step_expire show ?thesis
    by (simp add: timer_sys_ok_def)
qed

interpretation timers: step_invariant "timer_step place" "\<lambda>s. inj place \<and> timer_sys_ok place s" for place
  by unfold_locales (auto intro: timer_step_ok)

lemma timer_init_ok: "timer_sys_ok place (timer_init timerfd)"
  by (simp add: timer_sys_ok_def timer_init_def TimerQueue_new_def Let_def tq_inv_def tq_armed_def split: prod.splits)

lemma timer_run_ok: "inj place \<Longrightarrow> run (timer_step place) (timer_init timerfd) es s \<Longrightarrow> timer_sys_ok place s"
  using timers.inv_run timer_init_ok by blast

abbreviation sys_gone :: "(TimerId \<Rightarrow> addr) \<Rightarrow> TimerId \<Rightarrow> timer_sys \<Rightarrow> bool" where
  "sys_gone place i s \<equiv> timer_gone place (set (waiting (ts_tasks s))) i (ts_queue s)"

lemma timer_step_gone:
  assumes inj: "inj place" and ok: "timer_sys_ok place s" and gone: "sys_gone place i s"
    and st: "timer_step place s e s'"
  shows "sys_gone place i s' \<and> (\<exists>fs. ts_fired s' = ts_fired s @ fs \<and> i \<notin> set fs)"
proof -
  let ?q = "ts_queue s" and ?P = "set (waiting (ts_tasks s))"
  from ok have inv: "tq_inv place ?P {} ?q" and pos: "0 < unat (tq_nextTimerId ?q)"
    by (simp_all add: timer_sys_ok_def)
  from st show ?thesis
  proof cases
    case (step_add inLoop clock cb delay iv j q' ts')
    show ?thesis
    proof (cases rule: addTimer_cases [of place inLoop clock cb delay iv ?q])
      case invalid
      with step_add gone show ?thesis by simp
    next
      case (valid f q1)
      have neq: "i \<noteq> tq_nextTimerId ?q" using gone by (auto simp: timer_gone_def)
      then have "place i \<noteq> place (tq_nextTimerId ?q)" using inj by (auto dest: injD)
      with step_add valid gone neq unat_next [OF step_add(3)] show ?thesis
        by (auto simp: timer_gone_def addTimerInLoop_active addTimerInLoop_sel Timer_new_def split: if_splits)
    qed
  next
    case (step_cancel inLoop j q' ts')
    have "timer_gone place ?P i (TimerQueue_cancelInLoop j ?q)"
      using gone by (cases "tq_active ?q j")
        (auto simp: timer_gone_def cancelInLoop_inactive elim!: cancelInLoop_eq [OF inv])
    with step_cancel gone show ?thesis by (auto simp: TimerQueue_cancel_def split: if_splits)
  next
    case (step_task t ts clock)
    show ?thesis
    proof (cases t)
      case (AddTask a delay)
      then have "a \<in> ?P" using step_task by simp
      from tq_invD(8) [OF inv this] obtain u where u: "tq_heap ?q a = Some u" by blast
      have "i \<noteq> tm_id u" using tq_invD(6) [OF inv u] gone \<open>a \<in> ?P\<close> by (auto simp: timer_gone_def)
      with step_task AddTask gone u show ?thesis
        by (auto simp: timer_gone_def addTimerInLoop_active addTimerInLoop_sel)
    next
      case (CancelTask j)
      have "timer_gone place ?P i (TimerQueue_cancelInLoop j ?q)"
        using gone by (cases "tq_active ?q j")
          (auto simp: timer_gone_def cancelInLoop_inactive elim!: cancelInLoop_eq [OF inv])
      with step_task CancelTask show ?thesis by (simp add: timer_gone_def)
    qed
  next
    case (step_expire behave clock restart q' fired)
    from handleRead_inv [OF inv inj due_at_def step_expire(3) pos step_expire(4), of i] gone step_expire
    show ?thesis by simp
  qed
qed

lemma timer_run_gone:
  assumes "run (timer_step place) s es t" "inj place" "timer_sys_ok place s" "sys_gone place i s"
  shows "\<exists>fs. ts_fired t = ts_fired s @ fs \<and> i \<notin> set fs"
  using assms
proof (induction rule: run.induct)
  case (run_cons s e t es u)
  from timer_step_gone [OF run_cons.prems(1,2,3) run_cons.hyps(1)] obtain fs where
    t: "sys_gone place i t" "ts_fired t = ts_fired s @ fs" "i \<notin> set fs" by blast
  from run_cons.IH [OF run_cons.prems(1) timer_step_ok [OF run_cons.prems(1,2) run_cons.hyps(1)] t(1)]
  obtain gs where "ts_fired u = ts_fired t @ gs" "i \<notin> set gs" by blast
  with t show ?case by auto
qed simp

lemma tq_active_known:
  assumes "tq_inv place P X q" "tq_active q i = Some a"
  shows "0 < unat i" "unat i < unat (tq_nextTimerId q)" "place i \<notin> P"
proof -
  from tq_invD(5) [OF assms] obtain u where u: "tq_heap q a = Some u" "tm_id u = i" by blast
  with tq_invD(6) [OF assms(1) u(1)] show "0 < unat i" "unat i < unat (tq_nextTimerId q)" by auto
  show "place i \<notin> P" using tq_invD(6) [OF assms(1) u(1)] tq_invD(8) [OF assms(1), of a] u assms(2) by auto
qed

text \<open>One timer, one second from now, for concrete runs; addresses are the ids.\<close>

definition one_second :: timer_event where
  "one_second = UserAdd True (Some (5, 0)) (Some 0) (Finite 1 0) (Finite 0 0)"

lemma inj_unat: "inj (unat :: TimerId \<Rightarrow> nat)"
  by (rule injI) (simp add: word_unat_eq_iff)

lemma one_timer_run:
  obtains s where "run (timer_step unat) (timer_init 4) [one_second] s" "tq_active (ts_queue s) 1 = Some 1"
    "unat (tq_nextTimerId (ts_queue s)) = 2"
proof -
  obtain i q ts where r: "TimerQueue_addTimer unat True (Some (5, 0)) (Some 0) (Finite 1 0) (Finite 0 0)
      (fst (TimerQueue_new 4)) = (i, q, ts)" by (metis prod_cases3)
  then have "tq_active q 1 = Some 1" "tq_nextTimerId q = 2"
    by (auto simp: TimerQueue_addTimer_def isfinite_def f64_less_0_def Let_def TimerQueue_addTimerInLoop_def
        TimerQueue_new_def Timer_new_def split: if_splits prod.splits)
  moreover have "timer_step unat (timer_init 4) one_second
      ((timer_init 4)\<lparr>ts_queue := q, ts_tasks := ts_tasks (timer_init 4) @ ts\<rparr>)"
    unfolding one_second_def by (rule step_add) (use r in \<open>auto simp: timer_init_def TimerQueue_new_def Let_def split: prod.splits\<close>)
  ultimately show thesis
    using that [of "(timer_init 4)\<lparr>ts_queue := q, ts_tasks := ts_tasks (timer_init 4) @ ts\<rparr>"] by (simp add: run_cons_iff)
qed

text \<open>Two timers that are due at once, for a concrete batch in which the callback of the first cancels
  the second.\<close>

definition at_once :: timer_event where
  "at_once = UserAdd True (Some (5, 0)) (Some 0) (Finite 0 0) (Finite 0 0)"

definition cancel_other :: "addr \<Rightarrow> timer_call list" where
  "cancel_other a = (if a = 1 then [CancelTimer 2] else [])"

definition due_timer :: "TimerId \<Rightarrow> Timer" where
  "due_timer i = \<lparr>tm_id = i, tm_callback = 0, tm_expiration = 5000000, tm_interval = 0, tm_repeating = False,
     tm_canceled = False\<rparr>"

definition due_timers ::
    "int \<times> int \<Rightarrow> TimerId \<Rightarrow> (int \<times> addr) list \<Rightarrow> (TimerId \<rightharpoonup> addr) \<Rightarrow> (addr \<rightharpoonup> Timer) \<Rightarrow> timer_sys" where
  "due_timers armed n ts act heap = \<lparr>ts_queue =
     \<lparr>tq_nextTimerId = n, tq_heap = heap, tq_timers = ts, tq_active = act, tq_timerfd = armed,
      tq_timerfdChannel = tq_timerfdChannel (fst (TimerQueue_new 4))\<rparr>, ts_tasks = [], ts_fired = []\<rparr>"

lemma due_timers_add:
  assumes "unat n < 2 ^ 64 - 1" "act n = None" "ts = [] \<or> fst (hd ts) = 5000000"
  shows "timer_step unat (due_timers armed n ts act heap) at_once
    (due_timers (if ts = [] then (5, 0) else armed) (n + 1) (insort_insert (5000000, unat n) ts)
      (act(n \<mapsto> unat n)) (heap(unat n \<mapsto> due_timer n)))"
proof -
  have new: "Timer_new n 0 (Finite 0 0)\<lparr>tm_expiration := 5000000\<rparr> = due_timer n"
    by (simp add: Timer_new_def due_timer_def secondsToMicroseconds_def f64_le_0_def f64_greater_0_def)
  have us: "saturating_after (monotonicMicroseconds (Some (5, 0))) (secondsToMicroseconds (Finite 0 0)) = 5000000"
    by (simp add: secondsToMicroseconds_def f64_le_0_def saturating_after_def monotonicMicroseconds_def
        kMicrosecondsPerSecond_def INT64_MAX_def)
  have id: "tm_id (due_timer n) = n" by (simp add: due_timer_def)
  let ?t = "due_timers (if ts = [] then (5, 0) else armed) (n + 1) (insort_insert (5000000, unat n) ts)
      (act(n \<mapsto> unat n)) (heap(unat n \<mapsto> due_timer n))"
  have "TimerQueue_addTimer unat True (Some (5, 0)) (Some 0) (Finite 0 0) (Finite 0 0)
      (ts_queue (due_timers armed n ts act heap)) = (n, ts_queue ?t, [])"
    using assms(2,3)
    by (auto simp add: TimerQueue_addTimer_def TimerQueue_addTimerInLoop_def isfinite_def f64_less_0_def Let_def us
        set_timer_def timer_at_def new id due_timers_def TimerQueue_resetTimerfd_def timespec_of_def
        kMicrosecondsPerSecond_def)
  from step_add [OF _ this] assms(1) show ?thesis by (simp add: at_once_def due_timers_def)
qed

abbreviation two_due :: timer_sys where
  "two_due \<equiv> due_timers (5, 0) 3 [(5000000, 1), (5000000, 2)] [1 \<mapsto> 1, 2 \<mapsto> 2] [1 \<mapsto> due_timer 1, 2 \<mapsto> due_timer 2]"

lemma two_due_run: "run (timer_step unat) (timer_init 4) [at_once, at_once] two_due"
proof -
  have "timer_init 4 = due_timers (0, 0) 1 [] Map.empty Map.empty"
    by (simp add: timer_init_def due_timers_def TimerQueue_new_def Let_def split: prod.splits)
  moreover have "timer_step unat (due_timers (0, 0) 1 [] Map.empty Map.empty) at_once
      (due_timers (5, 0) 2 [(5000000, 1)] [1 \<mapsto> 1] [1 \<mapsto> due_timer 1])"
    using due_timers_add [of 1 Map.empty "[]"] by (simp add: insort_insert_key_def)
  moreover have "timer_step unat (due_timers (5, 0) 2 [(5000000, 1)] [1 \<mapsto> 1] [1 \<mapsto> due_timer 1]) at_once two_due"
    using due_timers_add [of 2 "[1 \<mapsto> 1]" "[(5000000, 1)]"] by (simp add: insort_insert_key_def)
  ultimately show ?thesis by (auto simp: run_cons_iff)
qed

lemma two_due_fire:
  "snd (TimerQueue_handleRead unat (Some (7, 0)) cancel_other (\<lambda>_. Some (7, 0)) (ts_queue two_due)) = [1]"
  by (simp add: TimerQueue_handleRead_def due_timers_def Let_def monotonicMicroseconds_def
      kMicrosecondsPerSecond_def cancel_other_def TimerQueue_cancel_def TimerQueue_cancelInLoop_def timer_at_def
      set_timer_def due_timer_def)

section \<open>Properties\<close>

text \<open>C21. The timer set: in every reachable state the set is strictly sorted, the map of active timers
  and the set hold exactly the same timers, each under its own id and current expiration, and
  whenever a timer is set the timer descriptor is armed for the earliest one.\<close>

theorem TimerQueue_consistent:
  assumes "inj place" "run (timer_step place) (timer_init timerfd) es s"
  shows "let q = ts_queue s in
    sorted (tq_timers q) \<and> distinct (tq_timers q)
    \<and> (\<forall>i a. tq_active q i = Some a \<longleftrightarrow>
         (\<exists>t. tq_heap q a = Some t \<and> tm_id t = i \<and> (tm_expiration t, a) \<in> set (tq_timers q)))
    \<and> (tq_timers q \<noteq> [] \<longrightarrow> tq_timerfd q = timespec_of (fst (hd (tq_timers q))))"
proof -
  from timer_run_ok [OF assms] have inv: "tq_inv place (set (waiting (ts_tasks s))) {} (ts_queue s)"
    and armed: "tq_armed (ts_queue s)" by (simp_all add: timer_sys_ok_def)
  have "tq_active (ts_queue s) i = Some a \<longleftrightarrow>
      (\<exists>t. tq_heap (ts_queue s) a = Some t \<and> tm_id t = i \<and> (tm_expiration t, a) \<in> set (tq_timers (ts_queue s)))"
    for i a using tq_invD(5) [OF inv, of i a] tq_invD(4) [OF inv] by fastforce
  with tq_invD(1,2) [OF inv] armed show ?thesis by (auto simp: Let_def tq_armed_def)
qed

theorem TimerQueue_consistent_witness:
  "\<exists>s. run (timer_step unat) (timer_init 4) [one_second] s \<and> tq_timers (ts_queue s) \<noteq> []
     \<and> tq_timerfd (ts_queue s) = timespec_of (fst (hd (tq_timers (ts_queue s))))"
proof -
  obtain s where s: "run (timer_step unat) (timer_init 4) [one_second] s" "tq_active (ts_queue s) 1 = Some 1"
    by (rule one_timer_run)
  from TimerQueue_consistent [OF inj_unat s(1)] s show ?thesis by (fastforce simp: Let_def)
qed

text \<open>C22. Cancellation is final. An active timer never runs again, in any continuation, once it is
  cancelled: by \<open>cancel\<close> called on the loop thread; by the loop running a cancel another thread has
  queued; or by a callback of a batch being fired (the one of timer \<open>j\<close>, at any place in the batch),
  where it does not run in the rest of that batch either, although it may have expired with it.\<close>

theorem TimerQueue_cancel_final:
  assumes "inj place" "run (timer_step place) (timer_init timerfd) es s" "tq_active (ts_queue s) i = Some a"
    and "timer_step place s e s'" "run (timer_step place) s' fs t"
  shows "(e = UserCancel True i \<or> e = RunTimerTask clock \<and> hd (ts_tasks s) = CancelTask i \<longrightarrow>
      (\<exists>gs. ts_fired t = ts_fired s @ gs \<and> i \<notin> set gs))
    \<and> (e = Expire clock behave restart \<and> ts_fired s' = ts_fired s @ xs @ j # ys
        \<and> CancelTimer i \<in> set (behave (place j)) \<longrightarrow>
      (\<exists>gs. ts_fired t = ts_fired s @ xs @ j # ys @ gs \<and> i \<notin> set (ys @ gs)))"
proof -
  note ok = timer_run_ok [OF assms(1,2)]
  note later = timer_run_gone [OF assms(5,1) timer_step_ok [OF assms(1) ok assms(4)]]
  let ?q = "ts_queue s" and ?P = "set (waiting (ts_tasks s))"
  have inv: "tq_inv place ?P {} ?q" using ok by (simp add: timer_sys_ok_def)
  note i = tq_active_known [OF inv assms(3)]
  note gone = cancelInLoop_gone [OF inv i(2,3)]
  have i0: "i \<noteq> 0" using i(1) by auto
  have direct: "\<exists>gs. ts_fired t = ts_fired s @ gs \<and> i \<notin> set gs"
    if "e = UserCancel True i \<or> e = RunTimerTask clock \<and> hd (ts_tasks s) = CancelTask i"
  proof -
    have "sys_gone place i s'" "ts_fired s' = ts_fired s"
      using that assms(4) gone i0 by (auto simp: timer_step.simps TimerQueue_cancel_def timer_gone_def)
    with later show ?thesis by simp
  qed
  have batch: "\<exists>gs. ts_fired t = ts_fired s @ xs @ j # ys @ gs \<and> i \<notin> set (ys @ gs)"
    if e: "e = Expire clock behave restart" "ts_fired s' = ts_fired s @ xs @ j # ys"
      "CancelTimer i \<in> set (behave (place j))"
  proof -
    from assms(4) e obtain q' where q': "unat (tq_nextTimerId ?q) + calls_of behave (due_at clock ?q) < 2 ^ 64"
      "TimerQueue_handleRead place clock behave restart ?q = (q', xs @ j # ys)"
      "s' = s\<lparr>ts_queue := q', ts_fired := ts_fired s @ xs @ j # ys\<rparr>" by (auto simp: timer_step.simps)
    from handleRead_cancel [OF inv assms(1) due_at_def q'(1) i q'(2) e(3)] later q'(3) show ?thesis by auto
  qed
  from direct batch show ?thesis by blast
qed

theorem TimerQueue_cancel_final_witness:
  "\<exists>s'. due_at (Some (7, 0)) (ts_queue two_due) = [1, 2]
     \<and> timer_step unat two_due (Expire (Some (7, 0)) cancel_other (\<lambda>_. Some (7, 0))) s'
     \<and> (\<exists>gs. ts_fired s' = 1 # gs \<and> 2 \<notin> set gs)"
proof -
  let ?e = "Expire (Some (7, 0)) cancel_other (\<lambda>_. Some (7, 0))"
  obtain q' where h: "TimerQueue_handleRead unat (Some (7, 0)) cancel_other (\<lambda>_. Some (7, 0)) (ts_queue two_due) = (q', [1])"
    using two_due_fire by (metis prod.collapse)
  have st: "timer_step unat two_due ?e (two_due\<lparr>ts_queue := q', ts_fired := ts_fired two_due @ [1]\<rparr>)"
    by (rule step_expire [OF _ h])
      (simp add: due_timers_def due_at_def calls_of_def cancel_other_def monotonicMicroseconds_def kMicrosecondsPerSecond_def)
  have "tq_active (ts_queue two_due) 2 = Some 2" "ts_fired two_due = []" by (simp_all add: due_timers_def)
  from TimerQueue_cancel_final [OF inj_unat two_due_run this(1) st run_nil,
      where clock = "Some (7, 0)" and behave = cancel_other and xs = "[]" and j = 1 and ys = "[]"] this(2) st
  show ?thesis
    by (auto simp: cancel_other_def due_timers_def due_at_def monotonicMicroseconds_def kMicrosecondsPerSecond_def)
qed

text \<open>C23. Expiry: a readable timer descriptor runs callbacks of due timers only (expiration not after the
  clock), in order of expiration and each at most once; and when the callbacks only add timers, every due
  timer's callback runs.\<close>

theorem TimerQueue_fires_due:
  assumes "inj place" "run (timer_step place) (timer_init timerfd) es s"
    and "timer_step place s (Expire clock behave restart) s'"
    and "ts_fired s' = ts_fired s @ fired"
  shows "subseq (map place fired) (due_at clock (ts_queue s))
    \<and> (\<forall>i. i \<in> set fired \<longrightarrow>
         (\<exists>e. (e, place i) \<in> set (tq_timers (ts_queue s)) \<and> e \<le> monotonicMicroseconds clock))
    \<and> (list_all (\<lambda>a. list_all is_add (behave a)) (due_at clock (ts_queue s)) \<longrightarrow>
         map place fired = due_at clock (ts_queue s))"
proof -
  let ?q = "ts_queue s" and ?P = "set (waiting (ts_tasks s))"
  from timer_run_ok [OF assms(1,2)] have inv: "tq_inv place ?P {} ?q" and pos: "0 < unat (tq_nextTimerId ?q)"
    by (simp_all add: timer_sys_ok_def)
  from assms(3,4) obtain q' where
    n: "unat (tq_nextTimerId ?q) + calls_of behave (due_at clock ?q) < 2 ^ 64"
    and r: "TimerQueue_handleRead place clock behave restart ?q = (q', fired)"
    by (auto simp: timer_step.simps)
  note h = handleRead_inv [OF inv assms(1) due_at_def n pos r]
  have "\<exists>e. (e, place i) \<in> set (tq_timers ?q) \<and> e \<le> monotonicMicroseconds clock" if "i \<in> set fired" for i
  proof -
    from that have "place i \<in> set (map place fired)" by simp
    moreover have "subseq (map place fired) (due_at clock ?q)" using h by blast
    ultimately have "place i \<in> set (due_at clock ?q)" using subseq_set by blast
    then show ?thesis unfolding due_at_def by (fastforce dest: set_takeWhileD)
  qed
  with h show ?thesis by blast
qed

theorem TimerQueue_fires_due_witness:
  "\<exists>s s' fired. run (timer_step unat) (timer_init 4) [one_second] s
     \<and> timer_step unat s (Expire (Some (9, 0)) (\<lambda>_. []) (\<lambda>_. None)) s'
     \<and> ts_fired s' = ts_fired s @ fired \<and> map unat fired = due_at (Some (9, 0)) (ts_queue s)"
proof -
  obtain s where s: "run (timer_step unat) (timer_init 4) [one_second] s" "unat (tq_nextTimerId (ts_queue s)) = 2"
    by (rule one_timer_run)
  obtain q' fired where h: "TimerQueue_handleRead unat (Some (9, 0)) (\<lambda>_. []) (\<lambda>_. None) (ts_queue s) = (q', fired)"
    by fastforce
  have st: "timer_step unat s (Expire (Some (9, 0)) (\<lambda>_. []) (\<lambda>_. None)) (s\<lparr>ts_queue := q', ts_fired := ts_fired s @ fired\<rparr>)"
    by (rule step_expire [OF _ h]) (simp add: s(2) calls_of_def)
  have "map unat fired = due_at (Some (9, 0)) (ts_queue s)"
    using TimerQueue_fires_due [OF inj_unat s(1) st, of fired] by (simp add: list_all_iff)
  then show ?thesis using s(1) st
    by (intro exI [of _ s] exI [of _ "s\<lparr>ts_queue := q', ts_fired := ts_fired s @ fired\<rparr>"] exI [of _ fired]) simp
qed

text \<open>C24. Time arithmetic: a finite nonnegative delay converts to microseconds without leaving the range of
  \<open>int64_t\<close>, to 0 only for a zero delay, and the saturating sum with any clock reading gives an
  expiration between that reading and \<open>INT64_MAX\<close>.\<close>

theorem Timer_expiration_bounds:
  assumes "isfinite delay" "\<not> f64_less_0 delay" "0 \<le> now" "now \<le> INT64_MAX"
  shows "0 \<le> secondsToMicroseconds delay \<and> secondsToMicroseconds delay \<le> INT64_MAX
    \<and> (secondsToMicroseconds delay = 0 \<longleftrightarrow> (\<exists>e. delay = Finite 0 e))
    \<and> now \<le> saturating_after now (secondsToMicroseconds delay)
    \<and> saturating_after now (secondsToMicroseconds delay) \<le> INT64_MAX"
proof -
  have "f64_le_0 delay \<longleftrightarrow> (\<exists>e. delay = Finite 0 e)"
    using assms(1,2) by (cases delay) (auto simp: f64_le_0_def f64_less_0_def isfinite_def)
  with secondsToMicroseconds_bounds [OF assms(1)] assms(3,4) show ?thesis
    by (auto simp: saturating_after_def)
qed

theorem Timer_expiration_bounds_witness:
  "7 \<le> saturating_after 7 (secondsToMicroseconds (Finite 1 1000)) \<and>
   saturating_after 7 (secondsToMicroseconds (Finite 1 1000)) \<le> INT64_MAX"
  using Timer_expiration_bounds [of "Finite 1 1000" 7]
  by (simp add: isfinite_def f64_less_0_def INT64_MAX_def)

section \<open>Behaviours to know about\<close>

text \<open>An expiration of 0 disarms the descriptor instead of firing at once: it arises when the clock
  cannot be read and the delay is zero.\<close>

lemma zero_expiration_disarms:
  "tq_timerfd (TimerQueue_addTimerInLoop None a (Finite 0 0) (fst (TimerQueue_new timerfd)\<lparr>tq_heap := [a \<mapsto> t]\<rparr>)) = (0, 0)"
  by (simp add: TimerQueue_addTimerInLoop_def TimerQueue_new_def case_prod_beta monotonicMicroseconds_def
      secondsToMicroseconds_def f64_le_0_def saturating_after_def timespec_of_def Let_def INT64_MAX_def)

text \<open>A cancellation on the loop thread overtakes an \<open>addTimer\<close> of another thread that is still queued: it
  finds no active timer, and the timer is added and fires afterwards.\<close>

lemma cancel_before_queued_add_is_lost:
  assumes "tq_inv place P X q" "inj place"
    and "TimerQueue_addTimer place False clock (Some f) delay iv q = (i, q1, [AddTask a d])"
  shows "TimerQueue_cancelInLoop i q1 = q1"
proof -
  have i: "i = tq_nextTimerId q" "tq_active q1 = tq_active q"
    using assms(3) by (auto simp: TimerQueue_addTimer_def Let_def split: if_splits)
  have "tq_active q (tq_nextTimerId q) = None"
    using tq_active_place [OF assms(1), of "tq_nextTimerId q"] tq_fresh [OF assms(1,2)]
    by (cases "tq_active q (tq_nextTimerId q)") auto
  with i show ?thesis by (simp add: cancelInLoop_inactive)
qed

end
