(* ===== verification/EventLoop.thy ===== *)
theory EventLoop
  imports Channel TimerQueue
begin

text \<open>
  The event loop: \<open>src/src/net/EventLoop.h\<close> and \<open>EventLoop.cpp\<close>. The record has the data members;
  the eventfd of \<open>wakeupFd_\<close> is its counter. A thread is its id and a \<open>Functor\<close> an opaque number. The
  member functions are sequential definitions; \<open>loop_step\<close> interleaves them at the granularity at
  which threads can interfere: the critical sections under \<open>mutex_\<close>, the atomic flags and the
  system calls. The loop thread has a program counter; another thread that has queued a functor or
  set \<open>quit_\<close> and has not yet written to the eventfd is counted in \<open>owed\<close>.
\<close>

section \<open>State and operations\<close>

type_synonym tid = nat
type_synonym Functor = nat

record EventLoop =
  el_looping :: bool
  el_quit :: bool
  el_threadId :: tid
  el_wakeupFd :: fd
  el_wakeupChannel :: Channel
  el_callingPendingFunctors :: bool
  el_pendingFunctors :: "Functor list"
  el_timerQueue :: TimerQueue
  el_eventfd :: nat

text \<open>A failure of \<open>eventfd\<close> is logged as fatal, which aborts.\<close>

definition createEventfd :: "errno + fd \<Rightarrow> fd option" where
  "createEventfd created = (case created of Inr evtfd \<Rightarrow> Some evtfd | Inl err \<Rightarrow> None)"

text \<open>The constructor, with the descriptors of \<open>eventfd\<close> and \<open>timerfd_create\<close>; members are initialised
  in the order of their declaration, the timer queue last.\<close>

definition EventLoop_new :: "tid \<Rightarrow> fd \<Rightarrow> fd \<Rightarrow> EventLoop \<times> ctl_call list" where
  "EventLoop_new tid wakeupFd timerfd =
     (let (tq, calls0) = TimerQueue_new timerfd;
          (ch, calls) = Channel_enableReading (Channel_setReadCallback (Channel_new wakeupFd) True)
      in (\<lparr>el_looping = False, el_quit = False, el_threadId = tid, el_wakeupFd = wakeupFd,
           el_wakeupChannel = ch, el_callingPendingFunctors = False, el_pendingFunctors = [],
           el_timerQueue = tq, el_eventfd = 0\<rparr>, calls0 @ calls))"

text \<open>The destructor: the channel leaves epoll and the descriptor is closed.\<close>

definition EventLoop_destroy :: "EventLoop \<Rightarrow> EventLoop \<times> ctl_call list \<times> fd" where
  "EventLoop_destroy l =
     (let (ch1, calls1) = Channel_disableAll (el_wakeupChannel l);
          (ch2, calls2) = Channel_remove ch1
      in (l\<lparr>el_wakeupChannel := ch2\<rparr>, calls1 @ calls2, el_wakeupFd l))"

definition EventLoop_isInLoopThread :: "tid \<Rightarrow> EventLoop \<Rightarrow> bool" where
  "EventLoop_isInLoopThread tid l \<longleftrightarrow> el_threadId l = tid"

text \<open>\<open>None\<close> is \<open>abort()\<close>.\<close>

definition EventLoop_assertInLoopThread :: "tid \<Rightarrow> EventLoop \<Rightarrow> EventLoop option" where
  "EventLoop_assertInLoopThread tid l = (if EventLoop_isInLoopThread tid l then Some l else None)"

definition EventLoop_updateChannel :: "Channel \<Rightarrow> Channel \<times> ctl_call list" where
  "EventLoop_updateChannel channel = Epoll_updateChannel channel"

definition EventLoop_removeChannel :: "Channel \<Rightarrow> Channel \<times> ctl_call list" where
  "EventLoop_removeChannel channel = Epoll_removeChannel channel"

text \<open>Writing to an eventfd adds to its counter; a write that would reach \<open>2 ^ 64 - 1\<close> fails.\<close>

definition EventLoop_wakeup :: "EventLoop \<Rightarrow> EventLoop" where
  "EventLoop_wakeup l = (if el_eventfd l + 1 < 2 ^ 64 - 1 then l\<lparr>el_eventfd := el_eventfd l + 1\<rparr> else l)"

text \<open>Reading resets the counter; reading 0 fails with \<open>EAGAIN\<close> and changes nothing.\<close>

definition EventLoop_handleRead :: "EventLoop \<Rightarrow> EventLoop" where
  "EventLoop_handleRead l = l\<lparr>el_eventfd := 0\<rparr>"

definition queueInLoop_push :: "Functor \<Rightarrow> EventLoop \<Rightarrow> EventLoop" where
  "queueInLoop_push cb l = l\<lparr>el_pendingFunctors := el_pendingFunctors l @ [cb]\<rparr>"

definition EventLoop_queueInLoop :: "tid \<Rightarrow> Functor \<Rightarrow> EventLoop \<Rightarrow> EventLoop" where
  "EventLoop_queueInLoop tid cb l =
     (let l1 = queueInLoop_push cb l in
      if \<not> EventLoop_isInLoopThread tid l1 \<or> el_callingPendingFunctors l1 then EventLoop_wakeup l1 else l1)"

text \<open>\<open>runInLoop\<close>: the functors it runs at once, and the loop.\<close>

definition EventLoop_runInLoop :: "tid \<Rightarrow> Functor \<Rightarrow> EventLoop \<Rightarrow> Functor list \<times> EventLoop" where
  "EventLoop_runInLoop tid cb l =
     (if EventLoop_isInLoopThread tid l then ([cb], l) else ([], EventLoop_queueInLoop tid cb l))"

definition quit_set :: "EventLoop \<Rightarrow> EventLoop" where
  "quit_set l = l\<lparr>el_quit := True\<rparr>"

definition EventLoop_quit :: "tid \<Rightarrow> EventLoop \<Rightarrow> EventLoop" where
  "EventLoop_quit tid l =
     (let l1 = quit_set l in if \<not> EventLoop_isInLoopThread tid l1 then EventLoop_wakeup l1 else l1)"

text \<open>\<open>doPendingFunctors\<close>: the swap under the lock, and the end after the functors have run.\<close>

definition doPendingFunctors_swap :: "EventLoop \<Rightarrow> Functor list \<times> EventLoop" where
  "doPendingFunctors_swap l =
     (let l1 = l\<lparr>el_callingPendingFunctors := True\<rparr>
      in (el_pendingFunctors l1, l1\<lparr>el_pendingFunctors := []\<rparr>))"

definition doPendingFunctors_end :: "EventLoop \<Rightarrow> EventLoop" where
  "doPendingFunctors_end l = l\<lparr>el_callingPendingFunctors := False\<rparr>"

text \<open>The whole function, with what each functor does to the loop.\<close>

definition EventLoop_doPendingFunctors ::
    "(Functor \<Rightarrow> EventLoop \<Rightarrow> EventLoop) \<Rightarrow> EventLoop \<Rightarrow> Functor list \<times> EventLoop" where
  "EventLoop_doPendingFunctors call l =
     (let (functors, l1) = doPendingFunctors_swap l
      in (functors, doPendingFunctors_end (fold call functors l1)))"

definition EventLoop_loop_enter :: "EventLoop \<Rightarrow> EventLoop" where
  "EventLoop_loop_enter l = l\<lparr>el_looping := True, el_quit := False\<rparr>"

definition EventLoop_loop_leave :: "EventLoop \<Rightarrow> EventLoop" where
  "EventLoop_loop_leave l = l\<lparr>el_looping := False\<rparr>"

text \<open>The timer interface: the id, the loop and the tasks to queue.\<close>

definition EventLoop_runAfter ::
    "(TimerId \<Rightarrow> addr) \<Rightarrow> tid \<Rightarrow> clock \<Rightarrow> f64 \<Rightarrow> nat option \<Rightarrow> EventLoop \<Rightarrow> TimerId \<times> EventLoop \<times> timer_task list" where
  "EventLoop_runAfter place tid clock delay cb l =
     (let (i, q, ts) = TimerQueue_addTimer place (EventLoop_isInLoopThread tid l) clock cb delay (Finite 0 0)
                         (el_timerQueue l)
      in (i, l\<lparr>el_timerQueue := q\<rparr>, ts))"

definition EventLoop_runEvery ::
    "(TimerId \<Rightarrow> addr) \<Rightarrow> tid \<Rightarrow> clock \<Rightarrow> f64 \<Rightarrow> nat option \<Rightarrow> EventLoop \<Rightarrow> TimerId \<times> EventLoop \<times> timer_task list" where
  "EventLoop_runEvery place tid clock interval cb l =
     (if \<not> isfinite interval \<or> f64_le_0 interval then (0, l, [])
      else
        let (i, q, ts) = TimerQueue_addTimer place (EventLoop_isInLoopThread tid l) clock cb interval interval
                           (el_timerQueue l)
        in (i, l\<lparr>el_timerQueue := q\<rparr>, ts))"

definition EventLoop_cancel :: "tid \<Rightarrow> TimerId \<Rightarrow> EventLoop \<Rightarrow> EventLoop \<times> timer_task list" where
  "EventLoop_cancel tid timerId l =
     (let (q, ts) = TimerQueue_cancel (EventLoop_isInLoopThread tid l) timerId (el_timerQueue l)
      in (l\<lparr>el_timerQueue := q\<rparr>, ts))"

section \<open>Threads\<close>

text \<open>Where the loop thread stands: before \<open>loop()\<close>, at the test of \<open>quit_\<close>, blocked in \<open>epoll_wait\<close>,
  dispatching channels (the flag: the wakeup channel is still to be served), about to swap the
  queue, running the swapped functors, or done.\<close>

datatype loop_pc =
  Idle | AtTest | Blocked | Dispatching bool | AtSwap | Running "Functor list" | Stopped

record loop_sys =
  lp_loop :: EventLoop
  lp_pc :: loop_pc
  lp_owed :: nat
  lp_queued :: "Functor list"
  lp_done :: "Functor list"

datatype loop_event =
    Enter | Test | PollReturns | ServeWakeup | DispatchDone | Swap | RunFunctor | FunctorsDone
  | EarlyQueue Functor | EarlyQuit | OwnQueue Functor | OwnQuit | SignalQuit
  | OtherQueue Functor | OtherQuit | OtherWakes

definition user_code :: "loop_pc \<Rightarrow> bool" where
  "user_code pc \<longleftrightarrow> (case pc of Dispatching _ \<Rightarrow> True | Running _ \<Rightarrow> True | _ \<Rightarrow> False)"

text \<open>\<open>epoll_wait\<close> may return for any descriptor, or with an error; the wakeup channel is among the
  active ones exactly when the counter is positive. The loop thread itself queues and quits before it enters
  \<open>loop()\<close> (\<open>Early\<close>) and in callbacks and functors (\<open>Own\<close>); a signal handler on it may call \<open>quit()\<close> at any moment. Another
  thread is between its access and its write to the eventfd as long as the wakeup is owed.\<close>

inductive loop_step :: "loop_sys \<Rightarrow> loop_event \<Rightarrow> loop_sys \<Rightarrow> bool" where
  enter: "lp_pc s = Idle \<Longrightarrow>
    loop_step s Enter (s\<lparr>lp_loop := EventLoop_loop_enter (lp_loop s), lp_pc := AtTest\<rparr>)"
| test_stop: "lp_pc s = AtTest \<Longrightarrow> el_quit (lp_loop s) \<Longrightarrow>
    loop_step s Test (s\<lparr>lp_loop := EventLoop_loop_leave (lp_loop s), lp_pc := Stopped\<rparr>)"
| test_poll: "lp_pc s = AtTest \<Longrightarrow> \<not> el_quit (lp_loop s) \<Longrightarrow> loop_step s Test (s\<lparr>lp_pc := Blocked\<rparr>)"
| poll_returns: "lp_pc s = Blocked \<Longrightarrow>
    loop_step s PollReturns (s\<lparr>lp_pc := Dispatching (0 < el_eventfd (lp_loop s))\<rparr>)"
| serve_wakeup: "lp_pc s = Dispatching True \<Longrightarrow>
    loop_step s ServeWakeup (s\<lparr>lp_loop := EventLoop_handleRead (lp_loop s), lp_pc := Dispatching False\<rparr>)"
| dispatch_done: "lp_pc s = Dispatching False \<Longrightarrow> loop_step s DispatchDone (s\<lparr>lp_pc := AtSwap\<rparr>)"
| swap: "lp_pc s = AtSwap \<Longrightarrow> doPendingFunctors_swap (lp_loop s) = (functors, l') \<Longrightarrow>
    loop_step s Swap (s\<lparr>lp_loop := l', lp_pc := Running functors\<rparr>)"
| run_functor: "lp_pc s = Running (f # functors) \<Longrightarrow>
    loop_step s RunFunctor (s\<lparr>lp_pc := Running functors, lp_done := lp_done s @ [f]\<rparr>)"
| functors_done: "lp_pc s = Running [] \<Longrightarrow>
    loop_step s FunctorsDone (s\<lparr>lp_loop := doPendingFunctors_end (lp_loop s), lp_pc := AtTest\<rparr>)"
| early_queue: "lp_pc s = Idle \<Longrightarrow>
    loop_step s (EarlyQueue f)
      (s\<lparr>lp_loop := EventLoop_queueInLoop (el_threadId (lp_loop s)) f (lp_loop s), lp_queued := lp_queued s @ [f]\<rparr>)"
| early_quit: "lp_pc s = Idle \<Longrightarrow>
    loop_step s EarlyQuit (s\<lparr>lp_loop := EventLoop_quit (el_threadId (lp_loop s)) (lp_loop s)\<rparr>)"
| own_queue: "user_code (lp_pc s) \<Longrightarrow>
    loop_step s (OwnQueue f)
      (s\<lparr>lp_loop := EventLoop_queueInLoop (el_threadId (lp_loop s)) f (lp_loop s), lp_queued := lp_queued s @ [f]\<rparr>)"
| own_quit: "user_code (lp_pc s) \<Longrightarrow>
    loop_step s OwnQuit (s\<lparr>lp_loop := EventLoop_quit (el_threadId (lp_loop s)) (lp_loop s)\<rparr>)"
| signal_quit: "loop_step s SignalQuit (s\<lparr>lp_loop := EventLoop_quit (el_threadId (lp_loop s)) (lp_loop s)\<rparr>)"
| other_queue: "loop_step s (OtherQueue f)
      (s\<lparr>lp_loop := queueInLoop_push f (lp_loop s), lp_owed := lp_owed s + 1, lp_queued := lp_queued s @ [f]\<rparr>)"
| other_quit: "loop_step s OtherQuit (s\<lparr>lp_loop := quit_set (lp_loop s), lp_owed := lp_owed s + 1\<rparr>)"
| other_wakes: "0 < lp_owed s \<Longrightarrow>
    loop_step s OtherWakes (s\<lparr>lp_loop := EventLoop_wakeup (lp_loop s), lp_owed := lp_owed s - 1\<rparr>)"

definition loop_init :: "tid \<Rightarrow> fd \<Rightarrow> fd \<Rightarrow> loop_sys" where
  "loop_init tid wakeupFd timerfd =
     \<lparr>lp_loop = fst (EventLoop_new tid wakeupFd timerfd), lp_pc = Idle, lp_owed = 0, lp_queued = [], lp_done = []\<rparr>"

section \<open>Invariant\<close>

definition wake_coming :: "loop_sys \<Rightarrow> bool" where
  "wake_coming s \<longleftrightarrow> 0 < el_eventfd (lp_loop s) \<or> 0 < lp_owed s"

definition running :: "loop_pc \<Rightarrow> Functor list" where
  "running pc = (case pc of Running fs \<Rightarrow> fs | _ \<Rightarrow> [])"

definition loop_ok :: "loop_sys \<Rightarrow> bool" where
  "loop_ok s \<longleftrightarrow>
     lp_done s @ running (lp_pc s) @ el_pendingFunctors (lp_loop s) = lp_queued s
     \<and> (el_callingPendingFunctors (lp_loop s) \<longleftrightarrow> (\<exists>fs. lp_pc s = Running fs))"

text \<open>After the swap and up to the next return of \<open>epoll_wait\<close> queued work has a wakeup coming; so has a requested exit
  while the loop is blocked.\<close>

definition functor_wake :: "loop_sys \<Rightarrow> bool" where
  "functor_wake s \<longleftrightarrow> ((\<exists>fs. lp_pc s = Running fs) \<or> lp_pc s = AtTest \<or> lp_pc s = Blocked \<or> lp_pc s = Idle \<longrightarrow>
     el_pendingFunctors (lp_loop s) \<noteq> [] \<longrightarrow> wake_coming s)"

definition quit_wake :: "loop_sys \<Rightarrow> bool" where
  "quit_wake s \<longleftrightarrow> (lp_pc s = Blocked \<longrightarrow> el_quit (lp_loop s) \<longrightarrow> wake_coming s)"

lemmas loop_ops =
  EventLoop_loop_enter_def EventLoop_loop_leave_def EventLoop_handleRead_def EventLoop_wakeup_def
  EventLoop_queueInLoop_def EventLoop_quit_def EventLoop_isInLoopThread_def queueInLoop_push_def quit_set_def
  doPendingFunctors_swap_def doPendingFunctors_end_def

lemma wakeup_positive [simp]: "0 < el_eventfd (EventLoop_wakeup l)"
  by (simp add: EventLoop_wakeup_def)

lemma loop_step_ok:
  assumes "loop_ok s" "loop_step s e s'"
  shows "loop_ok s'"
  using assms(2,1)
  by cases (auto simp: loop_ok_def user_code_def running_def loop_ops Let_def split: loop_pc.splits if_splits)

lemma functor_wake_step:
  assumes "loop_ok s" "functor_wake s" "loop_step s e s'" "\<And>f. e \<noteq> EarlyQueue f"
  shows "functor_wake s'"
  using assms(3)
proof cases
  case (own_queue f)
  then show ?thesis using assms(1,2)
    by (auto simp: loop_ok_def functor_wake_def wake_coming_def user_code_def EventLoop_queueInLoop_def
        EventLoop_isInLoopThread_def queueInLoop_push_def EventLoop_wakeup_def Let_def split: loop_pc.splits)
next
  case other_wakes
  then show ?thesis using assms(2) by (auto simp: functor_wake_def wake_coming_def EventLoop_wakeup_def)
qed (use assms in \<open>auto simp: functor_wake_def wake_coming_def user_code_def loop_ops Let_def split: loop_pc.splits if_splits\<close>)

lemma quit_wake_step:
  assumes "quit_wake s" "loop_step s e s'" "e \<noteq> SignalQuit"
  shows "quit_wake s'"
  using assms(2)
proof cases
  case other_wakes
  then show ?thesis using assms(1) by (auto simp: quit_wake_def wake_coming_def EventLoop_wakeup_def)
qed (use assms in \<open>auto simp: quit_wake_def wake_coming_def user_code_def loop_ops Let_def split: loop_pc.splits if_splits\<close>)

text \<open>The loop thread does not go back before \<open>loop()\<close>.\<close>

lemma not_idle_step:
  assumes "loop_step s e s'" "lp_pc s \<noteq> Idle"
  shows "lp_pc s' \<noteq> Idle" "e \<noteq> EarlyQueue f"
  using assms by (auto elim: loop_step.cases)

lemma swap_wakes: "loop_step s Swap s' \<Longrightarrow> functor_wake s' \<and> lp_pc s' \<noteq> Idle"
  by (auto simp: functor_wake_def doPendingFunctors_swap_def Let_def elim: loop_step.cases)

interpretation eventloop: step_invariant loop_step loop_ok
  by unfold_locales (rule loop_step_ok)

lemma loop_init_ok: "loop_ok (loop_init tid fd timerfd)"
  by (simp add: loop_ok_def loop_init_def EventLoop_new_def running_def Let_def split: prod.splits)

lemma loop_run_ok: "run loop_step (loop_init tid fd timerfd) es s \<Longrightarrow> loop_ok s"
  using eventloop.inv_run loop_init_ok by blast

text \<open>Work that the loop thread queued before \<open>loop()\<close> has no wakeup, and is taken by the first swap.\<close>

lemma run_functor_wake:
  assumes "run loop_step s es s'" "loop_ok s"
    and "functor_wake s \<and> ((\<forall>f. EarlyQueue f \<notin> set es) \<or> lp_pc s \<noteq> Idle) \<or> Swap \<in> set es"
  shows "functor_wake s'"
  using assms
proof (induction rule: run.induct)
  case (run_cons s e s1 es s2)
  have ok: "loop_ok s1" by (rule loop_step_ok [OF run_cons(4,1)])
  show ?case
  proof (cases "e = Swap")
    case True
    with swap_wakes run_cons(1) have "functor_wake s1" "lp_pc s1 \<noteq> Idle" by simp_all
    with run_cons.IH ok show ?thesis by blast
  next
    case False
    have "functor_wake s1" if "functor_wake s" "(\<forall>f. EarlyQueue f \<notin> set (e # es)) \<or> lp_pc s \<noteq> Idle"
      by (rule functor_wake_step [OF run_cons(4) that(1) run_cons(1)])
        (use that(2) not_idle_step(2) [OF run_cons(1)] in auto)
    with run_cons.prems(2) run_cons.IH ok False not_idle_step(1) [OF run_cons(1)] show ?thesis by auto
  qed
qed simp

lemma run_quit_wake:
  assumes "run loop_step s es s'" "quit_wake s" "SignalQuit \<notin> set es"
  shows "quit_wake s'"
  using assms by (induction rule: run.induct) (auto intro: quit_wake_step)

text \<open>The two steps of another thread are the sequential member functions.\<close>

lemma other_queue_sequential:
  "tid \<noteq> el_threadId l \<Longrightarrow> EventLoop_queueInLoop tid f l = EventLoop_wakeup (queueInLoop_push f l)"
  "tid \<noteq> el_threadId l \<Longrightarrow> EventLoop_quit tid l = EventLoop_wakeup (quit_set l)"
  by (simp_all add: EventLoop_queueInLoop_def EventLoop_quit_def EventLoop_isInLoopThread_def
      queueInLoop_push_def quit_set_def)

lemma run_functors:
  "lp_pc s = Running fs \<Longrightarrow> run loop_step s (replicate (length fs) RunFunctor) (s\<lparr>lp_pc := Running [], lp_done := lp_done s @ fs\<rparr>)"
proof (induction fs arbitrary: s)
  case Nil
  then have "s\<lparr>lp_pc := Running [], lp_done := lp_done s @ []\<rparr> = s" by simp
  then show ?case by (simp only: list.size replicate_0 run_nil)
next
  case (Cons f fs)
  let ?t = "s\<lparr>lp_pc := Running fs, lp_done := lp_done s @ [f]\<rparr>"
  have "run loop_step ?t (replicate (length fs) RunFunctor) (?t\<lparr>lp_pc := Running [], lp_done := lp_done ?t @ fs\<rparr>)"
    by (rule Cons.IH) simp
  with run_functor [OF Cons.prems] show ?case by (simp add: run_cons)
qed

text \<open>One turn of the loop from a blocked \<open>epoll_wait\<close> whose wakeup descriptor is readable.\<close>

lemma loop_turn:
  assumes "lp_pc s = Blocked" "0 < el_eventfd (lp_loop s)"
  defines "fs \<equiv> el_pendingFunctors (lp_loop s)"
  obtains s' where "run loop_step s ([PollReturns, ServeWakeup, DispatchDone, Swap]
       @ replicate (length fs) RunFunctor @ [FunctorsDone]) s'"
    "lp_pc s' = AtTest" "lp_done s' = lp_done s @ fs" "el_pendingFunctors (lp_loop s') = []"
    "lp_owed s' = lp_owed s" "el_quit (lp_loop s') = el_quit (lp_loop s)" "el_eventfd (lp_loop s') = 0"
proof -
  define s1 where "s1 = s\<lparr>lp_pc := Dispatching True\<rparr>"
  define s2 where "s2 = s1\<lparr>lp_loop := EventLoop_handleRead (lp_loop s1), lp_pc := Dispatching False\<rparr>"
  define s3 where "s3 = s2\<lparr>lp_pc := AtSwap\<rparr>"
  define s4 where "s4 = s3\<lparr>lp_loop := snd (doPendingFunctors_swap (lp_loop s3)), lp_pc := Running fs\<rparr>"
  define s5 where "s5 = s4\<lparr>lp_pc := Running [], lp_done := lp_done s4 @ fs\<rparr>"
  define s6 where "s6 = s5\<lparr>lp_loop := doPendingFunctors_end (lp_loop s5), lp_pc := AtTest\<rparr>"
  have 1: "loop_step s PollReturns s1" using poll_returns [OF assms(1)] assms(2) by (simp add: s1_def)
  have 2: "loop_step s1 ServeWakeup s2" unfolding s2_def by (rule serve_wakeup) (simp add: s1_def)
  have 3: "loop_step s2 DispatchDone s3" unfolding s3_def by (rule dispatch_done) (simp add: s2_def)
  have 4: "loop_step s3 Swap s4" unfolding s4_def
    by (rule swap) (simp_all add: s3_def s2_def s1_def doPendingFunctors_swap_def EventLoop_handleRead_def fs_def)
  have 5: "run loop_step s4 (replicate (length fs) RunFunctor) s5"
    unfolding s5_def by (rule run_functors) (simp add: s4_def)
  have 6: "loop_step s5 FunctorsDone s6" unfolding s6_def by (rule functors_done) (simp add: s5_def)
  have "run loop_step s4 (replicate (length fs) RunFunctor @ [FunctorsDone]) s6" by (rule run_snoc [OF 5 6])
  with 1 2 3 4 have "run loop_step s ([PollReturns, ServeWakeup, DispatchDone, Swap]
       @ replicate (length fs) RunFunctor @ [FunctorsDone]) s6" by (simp add: run_cons)
  then show thesis
    by (rule that) (simp_all add: s6_def s5_def s4_def s3_def s2_def s1_def doPendingFunctors_end_def
        doPendingFunctors_swap_def EventLoop_handleRead_def)
qed

section \<open>Properties\<close>

text \<open>C18. No lost wakeup: whatever the interleaving of the loop thread with any number of threads that
  queue functors or ask it to quit, when the loop is blocked in \<open>epoll_wait\<close>, its eventfd is readable or a thread is about to
  write it in two cases: when a functor is pending, provided that the loop thread itself queued nothing before \<open>loop()\<close> or the
  loop has swapped its queue once since; and when \<open>quit_\<close> is set, provided that no signal handler on the loop
  thread called \<open>quit()\<close>.\<close>

theorem EventLoop_no_lost_wakeup:
  assumes "run loop_step (loop_init tid fd timerfd) es s" "lp_pc s = Blocked"
    and "el_pendingFunctors (lp_loop s) \<noteq> [] \<and> ((\<forall>f. EarlyQueue f \<notin> set es) \<or> Swap \<in> set es)
      \<or> el_quit (lp_loop s) \<and> SignalQuit \<notin> set es"
  shows "0 < el_eventfd (lp_loop s) \<or> 0 < lp_owed s"
proof -
  let ?i = "loop_init tid fd timerfd"
  have i: "functor_wake ?i" "quit_wake ?i"
    by (simp_all add: functor_wake_def quit_wake_def loop_init_def EventLoop_new_def split_def Let_def)
  from assms(3) have "functor_wake s \<and> el_pendingFunctors (lp_loop s) \<noteq> [] \<or> quit_wake s \<and> el_quit (lp_loop s)"
    using run_functor_wake [OF assms(1) loop_init_ok] run_quit_wake [OF assms(1) i(2)] i(1) by blast
  with assms(2) show ?thesis by (auto simp: functor_wake_def quit_wake_def wake_coming_def)
qed

theorem EventLoop_no_lost_wakeup_witness:
  "\<exists>s. run loop_step (loop_init 1 9 10) [Enter, Test, OtherQueue 7] s \<and> lp_pc s = Blocked
     \<and> (0 < el_eventfd (lp_loop s) \<or> 0 < lp_owed s)"
proof -
  define s0 where "s0 = loop_init 1 9 10"
  define s1 where "s1 = s0\<lparr>lp_loop := EventLoop_loop_enter (lp_loop s0), lp_pc := AtTest\<rparr>"
  define s2 where "s2 = s1\<lparr>lp_pc := Blocked\<rparr>"
  define s3 where "s3 = s2\<lparr>lp_loop := queueInLoop_push 7 (lp_loop s2), lp_owed := lp_owed s2 + 1,
    lp_queued := lp_queued s2 @ [7]\<rparr>"
  have "loop_step s0 Enter s1" unfolding s1_def by (rule enter) (simp add: s0_def loop_init_def)
  moreover have "loop_step s1 Test s2" unfolding s2_def
    by (rule test_poll) (simp_all add: s1_def EventLoop_loop_enter_def)
  moreover have "loop_step s2 (OtherQueue 7) s3" unfolding s3_def by (rule other_queue)
  ultimately have r: "run loop_step (loop_init 1 9 10) [Enter, Test, OtherQueue 7] s3"
    unfolding s0_def [symmetric] by (blast intro: run.intros)
  have "lp_pc s3 = Blocked" "el_pendingFunctors (lp_loop s3) \<noteq> []"
    by (simp_all add: s3_def s2_def queueInLoop_push_def)
  then have "0 < el_eventfd (lp_loop s3) \<or> 0 < lp_owed s3" by (intro EventLoop_no_lost_wakeup [OF r]) simp_all
  with r \<open>lp_pc s3 = Blocked\<close> show ?thesis by blast
qed

text \<open>C19. No functor runs twice, is skipped or overtakes another: in every reachable state the functors that have
  run, followed by those of the batch being run and those still pending, are exactly the functors that
  were queued, in the order in which they were queued. Those pending when the loop ends are not run.\<close>

theorem EventLoop_functors_fifo:
  assumes "run loop_step (loop_init tid fd timerfd) es s"
  shows "lp_done s @ running (lp_pc s) @ el_pendingFunctors (lp_loop s) = lp_queued s"
  using loop_run_ok [OF assms] by (simp add: loop_ok_def)

theorem EventLoop_functors_fifo_witness:
  "\<exists>s. run loop_step (loop_init 1 9 10) [OtherQueue 7, OtherQueue 8] s
     \<and> lp_done s @ running (lp_pc s) @ el_pendingFunctors (lp_loop s) = [7, 8]"
proof -
  define s1 where "s1 = (loop_init 1 9 10)\<lparr>lp_loop := queueInLoop_push 7 (lp_loop (loop_init 1 9 10)),
    lp_owed := lp_owed (loop_init 1 9 10) + 1, lp_queued := lp_queued (loop_init 1 9 10) @ [7]\<rparr>"
  define s2 where "s2 = s1\<lparr>lp_loop := queueInLoop_push 8 (lp_loop s1), lp_owed := lp_owed s1 + 1,
    lp_queued := lp_queued s1 @ [8]\<rparr>"
  have "loop_step (loop_init 1 9 10) (OtherQueue 7) s1" "loop_step s1 (OtherQueue 8) s2"
    unfolding s1_def s2_def by (rule other_queue)+
  then have r: "run loop_step (loop_init 1 9 10) [OtherQueue 7, OtherQueue 8] s2" by (auto intro: run.intros)
  have "lp_queued s2 = [7, 8]" by (simp add: s2_def s1_def loop_init_def)
  with EventLoop_functors_fifo [OF r] r show ?thesis by auto
qed

text \<open>C20. A wakeup does the work: from any reachable state blocked in \<open>epoll_wait\<close> with a readable eventfd,
  one turn of the loop (serve the eventfd, swap, run the batch) runs every functor queued so far and
  leaves the queue empty.\<close>

theorem EventLoop_turn_runs_all:
  assumes "run loop_step (loop_init tid fd timerfd) es s" "lp_pc s = Blocked" "0 < el_eventfd (lp_loop s)"
  shows "\<exists>s'. run loop_step s ([PollReturns, ServeWakeup, DispatchDone, Swap]
       @ replicate (length (el_pendingFunctors (lp_loop s))) RunFunctor @ [FunctorsDone]) s'
     \<and> lp_pc s' = AtTest \<and> lp_done s' = lp_queued s \<and> el_pendingFunctors (lp_loop s') = []"
proof -
  have "lp_done s @ el_pendingFunctors (lp_loop s) = lp_queued s"
    using loop_run_ok [OF assms(1)] assms(2) by (simp add: loop_ok_def running_def)
  with loop_turn [OF assms(2,3)] show ?thesis by metis
qed

theorem EventLoop_turn_runs_all_witness:
  "\<exists>s s'. run loop_step (loop_init 1 9 10) [Enter, Test, OtherQueue 7, OtherWakes] s
     \<and> run loop_step s [PollReturns, ServeWakeup, DispatchDone, Swap, RunFunctor, FunctorsDone] s'
     \<and> lp_done s' = [7]"
proof -
  define s0 where "s0 = loop_init 1 9 10"
  define s1 where "s1 = s0\<lparr>lp_loop := EventLoop_loop_enter (lp_loop s0), lp_pc := AtTest\<rparr>"
  define s2 where "s2 = s1\<lparr>lp_pc := Blocked\<rparr>"
  define s3 where "s3 = s2\<lparr>lp_loop := queueInLoop_push 7 (lp_loop s2), lp_owed := lp_owed s2 + 1,
    lp_queued := lp_queued s2 @ [7]\<rparr>"
  define s4 where "s4 = s3\<lparr>lp_loop := EventLoop_wakeup (lp_loop s3), lp_owed := lp_owed s3 - 1\<rparr>"
  have "loop_step s0 Enter s1" unfolding s1_def by (rule enter) (simp add: s0_def loop_init_def)
  moreover have "loop_step s1 Test s2" unfolding s2_def
    by (rule test_poll) (simp_all add: s1_def EventLoop_loop_enter_def)
  moreover have "loop_step s2 (OtherQueue 7) s3" unfolding s3_def by (rule other_queue)
  moreover have "loop_step s3 OtherWakes s4" unfolding s4_def by (rule other_wakes) (simp add: s3_def)
  ultimately have r: "run loop_step (loop_init 1 9 10) [Enter, Test, OtherQueue 7, OtherWakes] s4"
    unfolding s0_def [symmetric] by (blast intro: run.intros)
  have s4: "lp_pc s4 = Blocked" "0 < el_eventfd (lp_loop s4)" "el_pendingFunctors (lp_loop s4) = [7]" "lp_queued s4 = [7]"
    by (simp_all add: s4_def s3_def s2_def s1_def s0_def queueInLoop_push_def EventLoop_wakeup_def
        EventLoop_loop_enter_def loop_init_def EventLoop_new_def Let_def split: prod.splits)
  from EventLoop_turn_runs_all [OF r s4(1,2)] r show ?thesis by (auto simp: s4)
qed

section \<open>Behaviours to know about\<close>

text \<open>A functor that the loop thread queues before \<open>loop()\<close> does not wake the loop: it is blocked with the functor pending
  until some event arrives.\<close>

lemma early_queue_does_not_wake:
  "\<exists>s. run loop_step (loop_init tid fd timerfd) [EarlyQueue f, Enter, Test] s \<and> lp_pc s = Blocked
     \<and> el_pendingFunctors (lp_loop s) = [f] \<and> el_eventfd (lp_loop s) = 0 \<and> lp_owed s = 0"
proof -
  define s0 where "s0 = loop_init tid fd timerfd"
  define s1 where "s1 = s0\<lparr>lp_loop := EventLoop_queueInLoop (el_threadId (lp_loop s0)) f (lp_loop s0), lp_queued := lp_queued s0 @ [f]\<rparr>"
  define s2 where "s2 = s1\<lparr>lp_loop := EventLoop_loop_enter (lp_loop s1), lp_pc := AtTest\<rparr>"
  define s3 where "s3 = s2\<lparr>lp_pc := Blocked\<rparr>"
  note defs = s3_def s2_def s1_def s0_def loop_init_def EventLoop_new_def loop_ops split_def Let_def
  have "loop_step s0 (EarlyQueue f) s1" unfolding s1_def by (rule early_queue) (simp add: s0_def loop_init_def)
  moreover have "loop_step s1 Enter s2" unfolding s2_def by (rule enter) (simp add: s1_def s0_def loop_init_def)
  moreover have "loop_step s2 Test s3" unfolding s3_def by (rule test_poll) (simp_all add: s2_def EventLoop_loop_enter_def)
  ultimately have "run loop_step s0 [EarlyQueue f, Enter, Test] s3" by (blast intro: run.intros)
  moreover have "lp_pc s3 = Blocked" "el_pendingFunctors (lp_loop s3) = [f]" "el_eventfd (lp_loop s3) = 0" "lp_owed s3 = 0"
    by (simp_all add: defs)
  ultimately show ?thesis unfolding s0_def by blast
qed

text \<open>\<open>loop()\<close> clears \<open>quit_\<close> on entry, so a \<open>quit()\<close> that another thread makes before the loop has
  started is forgotten: the loop thread ends up blocked with nothing pending and no wakeup coming. A
  destructor of \<open>EventLoopThread\<close> that runs in this window joins a thread that never ends.\<close>

lemma quit_before_loop_is_lost:
  "\<exists>s. run loop_step (loop_init tid fd timerfd)
       [OtherQuit, OtherWakes, Enter, Test, PollReturns, ServeWakeup, DispatchDone, Swap, FunctorsDone, Test] s
     \<and> lp_pc s = Blocked \<and> \<not> el_quit (lp_loop s) \<and> el_eventfd (lp_loop s) = 0 \<and> lp_owed s = 0
     \<and> el_pendingFunctors (lp_loop s) = []"
proof -
  define s0 where "s0 = loop_init tid fd timerfd"
  define s1 where "s1 = s0\<lparr>lp_loop := quit_set (lp_loop s0), lp_owed := lp_owed s0 + 1\<rparr>"
  define s2 where "s2 = s1\<lparr>lp_loop := EventLoop_wakeup (lp_loop s1), lp_owed := lp_owed s1 - 1\<rparr>"
  define s3 where "s3 = s2\<lparr>lp_loop := EventLoop_loop_enter (lp_loop s2), lp_pc := AtTest\<rparr>"
  define s4 where "s4 = s3\<lparr>lp_pc := Blocked\<rparr>"
  have 1: "loop_step s0 OtherQuit s1" unfolding s1_def by (rule other_quit)
  have 2: "loop_step s1 OtherWakes s2" unfolding s2_def by (rule other_wakes) (simp add: s1_def)
  have 3: "loop_step s2 Enter s3" unfolding s3_def
    by (rule enter) (simp add: s2_def s1_def s0_def loop_init_def)
  have 4: "loop_step s3 Test s4" unfolding s4_def
    by (rule test_poll) (simp_all add: s3_def EventLoop_loop_enter_def)
  have s4: "lp_pc s4 = Blocked" "0 < el_eventfd (lp_loop s4)" "el_pendingFunctors (lp_loop s4) = []" "lp_owed s4 = 0"
    "\<not> el_quit (lp_loop s4)"
    by (simp_all add: s4_def s3_def s2_def s1_def s0_def EventLoop_loop_enter_def quit_set_def EventLoop_wakeup_def
        loop_init_def EventLoop_new_def Let_def split: prod.splits)
  obtain s5 where t: "run loop_step s4 [PollReturns, ServeWakeup, DispatchDone, Swap, FunctorsDone] s5"
    "lp_pc s5 = AtTest" "el_pendingFunctors (lp_loop s5) = []" "lp_owed s5 = 0" "\<not> el_quit (lp_loop s5)"
    "el_eventfd (lp_loop s5) = 0"
    by (rule loop_turn [OF s4(1,2)]) (use s4 in simp)
  have "loop_step s5 Test (s5\<lparr>lp_pc := Blocked\<rparr>)" by (rule test_poll [OF t(2,5)])
  from run_snoc [OF t(1) this] have "run loop_step s4
      [PollReturns, ServeWakeup, DispatchDone, Swap, FunctorsDone, Test] (s5\<lparr>lp_pc := Blocked\<rparr>)" by simp
  with 1 2 3 4 have "run loop_step (loop_init tid fd timerfd)
       [OtherQuit, OtherWakes, Enter, Test, PollReturns, ServeWakeup, DispatchDone, Swap, FunctorsDone, Test]
       (s5\<lparr>lp_pc := Blocked\<rparr>)"
    unfolding s0_def [symmetric] by (blast intro: run_cons)
  moreover have "lp_pc (s5\<lparr>lp_pc := Blocked\<rparr>) = Blocked \<and> \<not> el_quit (lp_loop (s5\<lparr>lp_pc := Blocked\<rparr>))
     \<and> el_eventfd (lp_loop (s5\<lparr>lp_pc := Blocked\<rparr>)) = 0 \<and> lp_owed (s5\<lparr>lp_pc := Blocked\<rparr>) = 0
     \<and> el_pendingFunctors (lp_loop (s5\<lparr>lp_pc := Blocked\<rparr>)) = []"
    using t by simp
  ultimately show ?thesis by blast
qed

end
