(* ===== verification/ThreadPool.thy ===== *)
theory ThreadPool
  imports EventLoop
begin

text \<open>
  Threads and the loop pool: \<open>src/src/base/Thread.h\<close>, \<open>Thread.cpp\<close>, \<open>CurrentThread.h\<close>,
  \<open>CurrentThread.cpp\<close>, \<open>src/src/pool/EventLoopThread.h\<close>, \<open>EventLoopThread.cpp\<close>,
  \<open>EventLoopThreadPool.h\<close> and \<open>EventLoopThreadPool.cpp\<close>. A loop is the address of its object. The
  start-up handshake of \<open>EventLoopThread\<close> is a step relation of the starting thread and the new one
  over the shared pointer, the mutex and the condition variable.
\<close>

section \<open>Threads\<close>

record Thread =
  th_name :: bytes
  th_started :: bool
  th_joined :: bool

text \<open>\<open>num\<close> is the counter \<open>numCreated_\<close>; \<open>None\<close> in \<open>Thread_join\<close> is the null \<open>thread_\<close> pointer.\<close>

definition Thread_setDefaultName :: "int \<Rightarrow> bytes \<Rightarrow> int \<times> bytes" where
  "Thread_setDefaultName num nm =
     (let num1 = num + 1 in (num1, if nm = [] then ''Thread'' @ to_string_int num1 else nm))"

definition Thread_new :: "int \<Rightarrow> bytes \<Rightarrow> int \<times> Thread" where
  "Thread_new num nm =
     (let (num1, nm1) = Thread_setDefaultName num nm
      in (num1, \<lparr>th_name = nm1, th_started = False, th_joined = False\<rparr>))"

definition Thread_start :: "Thread \<Rightarrow> Thread" where
  "Thread_start t = t\<lparr>th_started := True\<rparr>"

definition Thread_join :: "Thread \<Rightarrow> Thread option" where
  "Thread_join t = (if th_started t then Some (t\<lparr>th_joined := True\<rparr>) else None)"

text \<open>Whether the destructor detaches the thread.\<close>

definition Thread_destroy_detaches :: "Thread \<Rightarrow> bool" where
  "Thread_destroy_detaches t \<longleftrightarrow> th_started t \<and> \<not> th_joined t"

record CurrentThread =
  t_cachedTid :: int
  t_tidString :: bytes
  t_tidStringLength :: int
  t_threadName :: bytes

definition CurrentThread_new :: CurrentThread where
  "CurrentThread_new =
     \<lparr>t_cachedTid = 0, t_tidString = [], t_tidStringLength = 6, t_threadName = ''unknown''\<rparr>"

definition CurrentThread_cacheTid :: "int \<Rightarrow> CurrentThread \<Rightarrow> CurrentThread" where
  "CurrentThread_cacheTid gettid c =
     (if t_cachedTid c = 0
      then c\<lparr>t_cachedTid := gettid, t_tidString := to_string_int gettid,
             t_tidStringLength := int (length (to_string_int gettid))\<rparr>
      else c)"

definition CurrentThread_tid :: "int \<Rightarrow> CurrentThread \<Rightarrow> int \<times> CurrentThread" where
  "CurrentThread_tid gettid c =
     (let c1 = (if t_cachedTid c = 0 then CurrentThread_cacheTid gettid c else c) in (t_cachedTid c1, c1))"

section \<open>Loop threads\<close>

type_synonym loop_ptr = nat

record EventLoopThread =
  et_loop :: "loop_ptr option"
  et_exiting :: bool
  et_thread :: Thread
  et_callback :: bool

definition EventLoopThread_new :: "int \<Rightarrow> bool \<Rightarrow> bytes \<Rightarrow> int \<times> EventLoopThread" where
  "EventLoopThread_new num cb nm =
     (let (num1, th) = Thread_new num nm
      in (num1, \<lparr>et_loop = None, et_exiting = False, et_thread = th, et_callback = cb\<rparr>))"

text \<open>The two critical sections of \<open>startLoop\<close> and \<open>threadFunc\<close>: the test that ends the wait (\<open>None\<close>:
  wait on), and the publication of the thread's own loop; then the end of \<open>threadFunc\<close>.\<close>

definition EventLoopThread_test :: "EventLoopThread \<Rightarrow> loop_ptr option" where
  "EventLoopThread_test t = et_loop t"

definition EventLoopThread_publish :: "loop_ptr \<Rightarrow> EventLoopThread \<Rightarrow> EventLoopThread" where
  "EventLoopThread_publish this_loop t = t\<lparr>et_loop := Some this_loop\<rparr>"

definition EventLoopThread_unpublish :: "EventLoopThread \<Rightarrow> EventLoopThread" where
  "EventLoopThread_unpublish t = t\<lparr>et_loop := None\<rparr>"

text \<open>The destructor: the loop it tells to quit (it joins the thread then), if one is published.\<close>

definition EventLoopThread_destroy :: "EventLoopThread \<Rightarrow> (EventLoopThread \<times> loop_ptr option) option" where
  "EventLoopThread_destroy t =
     (let t1 = t\<lparr>et_exiting := True\<rparr> in
      case et_loop t1 of
        None \<Rightarrow> Some (t1, None)
      | Some l \<Rightarrow> map_option (\<lambda>th. (t1\<lparr>et_thread := th\<rparr>, Some l)) (Thread_join (et_thread t1)))"

section \<open>The pool\<close>

record EventLoopThreadPool =
  tp_baseLoop :: loop_ptr
  tp_started :: bool
  tp_next :: int
  tp_name :: bytes
  tp_numThreads :: int
  tp_threads :: "bytes list"
  tp_loops :: "loop_ptr list"

definition EventLoopThreadPool_new :: "loop_ptr \<Rightarrow> bytes \<Rightarrow> EventLoopThreadPool" where
  "EventLoopThreadPool_new baseLoop nameArg =
     \<lparr>tp_baseLoop = baseLoop, tp_started = False, tp_next = 0, tp_name = nameArg, tp_numThreads = 0,
      tp_threads = [], tp_loops = []\<rparr>"

definition EventLoopThreadPool_setThreadNum :: "int \<Rightarrow> EventLoopThreadPool \<Rightarrow> EventLoopThreadPool" where
  "EventLoopThreadPool_setThreadNum n p = p\<lparr>tp_numThreads := n\<rparr>"

text \<open>\<open>start\<close>: \<open>startLoop i\<close> is the loop the \<open>i\<close>-th thread publishes; the callback's runs are listed
  with the loops they are given (each worker runs it in its own thread).\<close>

definition EventLoopThreadPool_start ::
    "(nat \<Rightarrow> loop_ptr) \<Rightarrow> bool \<Rightarrow> EventLoopThreadPool \<Rightarrow> EventLoopThreadPool \<times> loop_ptr list" where
  "EventLoopThreadPool_start startLoop cb p =
     (let n = nat (tp_numThreads p);
          p1 = p\<lparr>tp_started := True,
                 tp_threads := tp_threads p @ map (\<lambda>i. tp_name p @ to_string i) [0..<n],
                 tp_loops := tp_loops p @ map startLoop [0..<n]\<rparr>
      in (p1, (if cb then map startLoop [0..<n] else [])
              @ (if tp_numThreads p = 0 \<and> cb then [tp_baseLoop p] else [])))"

text \<open>\<open>None\<close> is an index outside \<open>loops_\<close>.\<close>

definition EventLoopThreadPool_getNextLoop ::
    "EventLoopThreadPool \<Rightarrow> (loop_ptr \<times> EventLoopThreadPool) option" where
  "EventLoopThreadPool_getNextLoop p =
     (if tp_loops p \<noteq> [] then
        if 0 \<le> tp_next p \<and> nat (tp_next p) < length (tp_loops p) then
          let loop = tp_loops p ! nat (tp_next p);
              next1 = tp_next p + 1;
              next2 = (if int (length (tp_loops p)) \<le> next1 then 0 else next1)
          in Some (loop, p\<lparr>tp_next := next2\<rparr>)
        else None
      else Some (tp_baseLoop p, p))"

definition EventLoopThreadPool_getAllLoops :: "EventLoopThreadPool \<Rightarrow> loop_ptr list" where
  "EventLoopThreadPool_getAllLoops p = (if tp_loops p = [] then [tp_baseLoop p] else tp_loops p)"

fun next_loops :: "nat \<Rightarrow> EventLoopThreadPool \<Rightarrow> (loop_ptr list \<times> EventLoopThreadPool) option" where
  "next_loops 0 p = Some ([], p)"
| "next_loops (Suc k) p =
     (case EventLoopThreadPool_getNextLoop p of
        None \<Rightarrow> None
      | Some (l, p1) \<Rightarrow> map_option (\<lambda>(ls, p2). (l # ls, p2)) (next_loops k p1))"

lemma next_loops_cycle:
  assumes "tp_loops p \<noteq> []" "tp_next p = int (j mod length (tp_loops p))"
  shows "\<exists>p'. next_loops k p = Some (map (\<lambda>i. tp_loops p ! ((j + i) mod length (tp_loops p))) [0..<k], p')"
  using assms
proof (induction k arbitrary: p j)
  case (Suc k)
  let ?n = "length (tp_loops p)"
  define p1 where "p1 = p\<lparr>tp_next := int (Suc j mod ?n)\<rparr>"
  have n: "0 < ?n" using Suc.prems(1) by simp
  then have lt: "j mod ?n < ?n" by simp
  have "(if int ?n \<le> int (j mod ?n) + 1 then 0 else int (j mod ?n) + 1) = int (Suc j mod ?n)"
    using lt by (auto simp: mod_Suc)
  then have nxt: "EventLoopThreadPool_getNextLoop p = Some (tp_loops p ! (j mod ?n), p1)"
    using Suc.prems lt by (simp add: EventLoopThreadPool_getNextLoop_def p1_def Let_def)
  have "tp_loops p1 = tp_loops p" "tp_next p1 = int (Suc j mod length (tp_loops p1))" by (simp_all add: p1_def)
  from Suc.IH [of p1 "Suc j"] this Suc.prems(1) obtain p' where
    "next_loops k p1 = Some (map (\<lambda>i. tp_loops p ! ((Suc j + i) mod ?n)) [0..<k], p')" by auto
  moreover have "map (\<lambda>i. tp_loops p ! ((j + i) mod ?n)) [0..<Suc k] =
      tp_loops p ! (j mod ?n) # map (\<lambda>i. tp_loops p ! ((Suc j + i) mod ?n)) [0..<k]"
    unfolding map_upt_Suc by simp
  ultimately show ?case using nxt by simp
qed simp

text \<open>Round robin: after \<open>start\<close> with \<open>n > 0\<close> threads the \<open>i\<close>-th call of \<open>getNextLoop\<close> returns the loop of
  thread \<open>i mod n\<close>, never outside \<open>loops_\<close>; without threads every call returns the base loop.\<close>

lemma next_loops_start:
  "\<exists>p'. next_loops k (fst (EventLoopThreadPool_start startLoop cb
            (EventLoopThreadPool_setThreadNum (int n) (EventLoopThreadPool_new base nm)))) =
     Some (map (\<lambda>i. if n = 0 then base else startLoop (i mod n)) [0..<k], p')"
proof (cases "n = 0")
  case True
  let ?p = "fst (EventLoopThreadPool_start startLoop cb
            (EventLoopThreadPool_setThreadNum (int n) (EventLoopThreadPool_new base nm)))"
  have "EventLoopThreadPool_getNextLoop ?p = Some (base, ?p)"
    using True by (simp add: EventLoopThreadPool_start_def EventLoopThreadPool_setThreadNum_def
        EventLoopThreadPool_new_def EventLoopThreadPool_getNextLoop_def Let_def)
  then have "next_loops k ?p = Some (replicate k base, ?p)" by (induction k) auto
  then show ?thesis using True by (simp add: map_replicate_const)
next
  case False
  let ?p = "fst (EventLoopThreadPool_start startLoop cb
            (EventLoopThreadPool_setThreadNum (int n) (EventLoopThreadPool_new base nm)))"
  have p: "tp_loops ?p = map startLoop [0..<n]" "tp_next ?p = int (0 mod length (tp_loops ?p))"
    by (simp_all add: EventLoopThreadPool_start_def EventLoopThreadPool_setThreadNum_def
        EventLoopThreadPool_new_def Let_def)
  from next_loops_cycle [OF _ p(2), of k] False p(1) obtain p' where
    "next_loops k ?p = Some (map (\<lambda>i. tp_loops ?p ! ((0 + i) mod length (tp_loops ?p))) [0..<k], p')" by auto
  with False p(1) show ?thesis by auto
qed

section \<open>Starting a loop thread\<close>

text \<open>The starting thread: not yet in the lock, asleep on the condition variable (the flag: it has been
  notified), or returned with a pointer. The new thread: before its callback, before publishing,
  in \<open>loop()\<close>, after \<open>loop()\<close> with its address still published, or finished. \<open>None\<close> is the null pointer.\<close>

datatype starter_pc = AboutToLock | Asleep bool | Returned "loop_ptr option"
datatype worker_pc = NotSpawned | Created | CallbackRan | Looping | LoopLeft | Finished

record start_sys =
  st_self :: EventLoopThread
  st_starter :: starter_pc
  st_worker :: worker_pc

datatype start_event = Spawn | WorkerCallback | Publish | LoopReturns | Unpublish | LockAndTest | Wake | Spurious

text \<open>The three critical sections (\<open>while (loop_ == nullptr) cond_.wait(lock)\<close> up to the wait or the
  return; the assignment with \<open>notify_one\<close>; the assignment of the null pointer) are single steps.\<close>

inductive start_step :: "loop_ptr \<Rightarrow> start_sys \<Rightarrow> start_event \<Rightarrow> start_sys \<Rightarrow> bool"
  for this_loop where
  spawn: "st_worker s = NotSpawned \<Longrightarrow>
    start_step this_loop s Spawn
      (s\<lparr>st_worker := Created, st_self := (st_self s)\<lparr>et_thread := Thread_start (et_thread (st_self s))\<rparr>\<rparr>)"
| callback: "st_worker s = Created \<Longrightarrow> start_step this_loop s WorkerCallback (s\<lparr>st_worker := CallbackRan\<rparr>)"
| publish: "st_worker s = CallbackRan \<Longrightarrow>
    start_step this_loop s Publish
      (s\<lparr>st_worker := Looping, st_self := EventLoopThread_publish this_loop (st_self s),
         st_starter := (case st_starter s of Asleep _ \<Rightarrow> Asleep True | pc \<Rightarrow> pc)\<rparr>)"
| loop_returns: "st_worker s = Looping \<Longrightarrow> start_step this_loop s LoopReturns (s\<lparr>st_worker := LoopLeft\<rparr>)"
| unpublish: "st_worker s = LoopLeft \<Longrightarrow>
    start_step this_loop s Unpublish (s\<lparr>st_worker := Finished, st_self := EventLoopThread_unpublish (st_self s)\<rparr>)"
| lock_wait: "st_worker s \<noteq> NotSpawned \<Longrightarrow> st_starter s = AboutToLock \<Longrightarrow> EventLoopThread_test (st_self s) = None \<Longrightarrow>
    start_step this_loop s LockAndTest (s\<lparr>st_starter := Asleep False\<rparr>)"
| lock_return: "st_worker s \<noteq> NotSpawned \<Longrightarrow> st_starter s = AboutToLock \<Longrightarrow> EventLoopThread_test (st_self s) = Some l \<Longrightarrow>
    start_step this_loop s LockAndTest (s\<lparr>st_starter := Returned (Some l)\<rparr>)"
| wake: "st_starter s = Asleep True \<Longrightarrow> start_step this_loop s Wake (s\<lparr>st_starter := AboutToLock\<rparr>)"
| spurious: "st_starter s = Asleep False \<Longrightarrow> start_step this_loop s Spurious (s\<lparr>st_starter := AboutToLock\<rparr>)"

definition start_init :: "int \<Rightarrow> bool \<Rightarrow> bytes \<Rightarrow> start_sys" where
  "start_init num cb nm = \<lparr>st_self = snd (EventLoopThread_new num cb nm), st_starter = AboutToLock, st_worker = NotSpawned\<rparr>"

text \<open>The address is published from the publication to the withdrawal, and nobody sleeps unnotified in between.\<close>

definition start_ok :: "loop_ptr \<Rightarrow> start_sys \<Rightarrow> bool" where
  "start_ok this_loop s \<longleftrightarrow>
     (et_loop (st_self s) = (if st_worker s = Looping \<or> st_worker s = LoopLeft then Some this_loop else None))
     \<and> (st_starter s = Asleep False \<longrightarrow> et_loop (st_self s) = None)
     \<and> (st_starter s \<noteq> AboutToLock \<longrightarrow> st_worker s \<noteq> NotSpawned)
     \<and> (\<forall>p. st_starter s = Returned p \<longrightarrow>
          p = Some this_loop \<and> (st_worker s = Looping \<or> st_worker s = LoopLeft \<or> st_worker s = Finished))"

lemma start_step_ok:
  assumes "start_ok this_loop s" "start_step this_loop s e s'"
  shows "start_ok this_loop s'"
  using assms(2)
  by cases (use assms(1) in \<open>auto simp: start_ok_def EventLoopThread_test_def EventLoopThread_publish_def EventLoopThread_unpublish_def split: if_splits starter_pc.splits\<close>)

interpretation starting: step_invariant "start_step this_loop" "start_ok this_loop" for this_loop
  by unfold_locales (rule start_step_ok)

lemma start_init_ok: "start_ok this_loop (start_init num cb nm)"
  by (simp add: start_ok_def start_init_def EventLoopThread_new_def case_prod_beta)

lemma start_run_ok: "run (start_step this_loop) (start_init num cb nm) es s \<Longrightarrow> start_ok this_loop s"
  using starting.inv_run start_init_ok by blast

section \<open>Properties\<close>

text \<open>C34. Start-up handshake: \<open>startLoop\<close> returns only the address the new thread published, so never a null
  pointer, and only after the thread's initialisation callback and the publication (the loop may have ended since); while the
  address is published the starter is not asleep without a notification; and when it sleeps unnotified,
  the thread is still to publish the address or has already withdrawn it.\<close>

theorem EventLoopThread_handshake:
  assumes "run (start_step this_loop) (start_init num cb nm) es s"
  shows "(\<forall>p. st_starter s = Returned p \<longrightarrow>
       p = Some this_loop \<and> (st_worker s = Looping \<or> st_worker s = LoopLeft \<or> st_worker s = Finished))
     \<and> (et_loop (st_self s) \<noteq> None \<longrightarrow> st_starter s \<noteq> Asleep False)
     \<and> (st_starter s = Asleep False \<longrightarrow> st_worker s = Created \<or> st_worker s = CallbackRan \<or> st_worker s = Finished)"
  using start_run_ok [OF assms] by (cases "st_worker s") (auto simp: start_ok_def)

lemmas start_sim =
  start_init_def EventLoopThread_new_def EventLoopThread_test_def EventLoopThread_publish_def
  EventLoopThread_unpublish_def case_prod_beta

theorem EventLoopThread_handshake_witness:
  "\<exists>s. run (start_step 5) (start_init 0 True ''w'') [Spawn, LockAndTest, WorkerCallback, Publish, Wake, LockAndTest] s
     \<and> st_starter s = Returned (Some 5)"
proof -
  define s0 where "s0 = start_init 0 True ''w''"
  define s1 where "s1 = s0\<lparr>st_worker := Created, st_self := (st_self s0)\<lparr>et_thread := Thread_start (et_thread (st_self s0))\<rparr>\<rparr>"
  define s2 where "s2 = s1\<lparr>st_starter := Asleep False\<rparr>"
  define s3 where "s3 = s2\<lparr>st_worker := CallbackRan\<rparr>"
  define s4 where "s4 = s3\<lparr>st_worker := Looping, st_self := EventLoopThread_publish 5 (st_self s3), st_starter := Asleep True\<rparr>"
  define s5 where "s5 = s4\<lparr>st_starter := AboutToLock\<rparr>"
  define s6 where "s6 = s5\<lparr>st_starter := Returned (Some 5)\<rparr>"
  have 1: "start_step 5 s0 Spawn s1" unfolding s1_def by (rule spawn) (simp add: s0_def start_init_def)
  have 2: "start_step 5 s1 LockAndTest s2" unfolding s2_def
    by (rule lock_wait) (simp_all add: s1_def s0_def start_sim)
  have 3: "start_step 5 s2 WorkerCallback s3" unfolding s3_def by (rule callback) (simp add: s2_def s1_def)
  have 4: "start_step 5 s3 Publish s4"
    using publish [of s3 5] by (simp add: s4_def s3_def s2_def)
  have 5: "start_step 5 s4 Wake s5" unfolding s5_def by (rule wake) (simp add: s4_def)
  have 6: "start_step 5 s5 LockAndTest s6" unfolding s6_def
    by (rule lock_return) (simp_all add: s5_def s4_def start_sim)
  have r: "run (start_step 5) (start_init 0 True ''w'') [Spawn, LockAndTest, WorkerCallback, Publish, Wake, LockAndTest] s6"
    using 1 2 3 4 5 6 unfolding s0_def by (blast intro: run.intros)
  moreover have "st_starter s6 = Returned (Some 5)" by (simp add: s6_def)
  ultimately show ?thesis using EventLoopThread_handshake [OF r] by blast
qed

section \<open>Behaviours to know about\<close>

text \<open>A loop that ends early (its initialisation callback queued a functor that quits it) clears \<open>loop_\<close>; a
  starter that has not tested it by then sleeps with nobody left to notify it.\<close>

lemma early_end_blocks_starter:
  "\<exists>s. run (start_step l) (start_init num cb nm) [Spawn, WorkerCallback, Publish, LoopReturns, Unpublish, LockAndTest] s
     \<and> st_starter s = Asleep False \<and> st_worker s = Finished"
proof -
  define s0 where "s0 = start_init num cb nm"
  define s1 where "s1 = s0\<lparr>st_worker := Created, st_self := (st_self s0)\<lparr>et_thread := Thread_start (et_thread (st_self s0))\<rparr>\<rparr>"
  define s2 where "s2 = s1\<lparr>st_worker := CallbackRan\<rparr>"
  define s3 where "s3 = s2\<lparr>st_worker := Looping, st_self := EventLoopThread_publish l (st_self s2)\<rparr>"
  define s3' where "s3' = s3\<lparr>st_worker := LoopLeft\<rparr>"
  define s4 where "s4 = s3'\<lparr>st_worker := Finished, st_self := EventLoopThread_unpublish (st_self s3')\<rparr>"
  define s5 where "s5 = s4\<lparr>st_starter := Asleep False\<rparr>"
  have 1: "start_step l s0 Spawn s1" unfolding s1_def by (rule spawn) (simp add: s0_def start_init_def)
  have 2: "start_step l s1 WorkerCallback s2" unfolding s2_def by (rule callback) (simp add: s1_def)
  have 3: "start_step l s2 Publish s3"
    using publish [of s2 l] by (simp add: s3_def s2_def s1_def s0_def start_init_def)
  have 4: "start_step l s3 LoopReturns s3'" unfolding s3'_def by (rule loop_returns) (simp add: s3_def)
  have u: "start_step l s3' Unpublish s4" unfolding s4_def by (rule unpublish) (simp add: s3'_def)
  have 5: "start_step l s4 LockAndTest s5" unfolding s5_def
    by (rule lock_wait) (simp_all add: s4_def s3'_def s3_def s2_def s1_def s0_def start_sim)
  have "run (start_step l) (start_init num cb nm) [Spawn, WorkerCallback, Publish, LoopReturns, Unpublish, LockAndTest] s5"
    using 1 2 3 4 u 5 unfolding s0_def by (blast intro: run.intros)
  then show ?thesis by (auto simp: s5_def s4_def)
qed

end
