(* ===== verification/TcpServer.thy ===== *)
theory TcpServer
  imports TcpConnection ThreadPool
begin

text \<open>
  The listening side: \<open>src/src/net/Socket.h\<close>, \<open>Socket.cpp\<close>, \<open>src/src/tcp/Acceptor.h\<close>,
  \<open>Acceptor.cpp\<close>, \<open>TcpServer.h\<close> and \<open>TcpServer.cpp\<close>. System calls on a socket are listed in
  order; their outcomes are parameters; \<open>None\<close> is \<open>exit(1)\<close> or \<open>abort()\<close>. Connections are shared
  objects in a heap of the server record together with the loop that owns them; what the server hands
  to a loop is a list of actions, which \<open>server_step\<close> interleaves.
\<close>

section \<open>Sockets\<close>

datatype sock_call =
    SockSocket | SockBind fd InetAddress | SockListen fd | SockReuseAddr fd bool
  | SockNonBlocking fd | SockKeepAlive fd bool | SockShutdownWrite fd | SockClose fd

record Socket =
  so_fd :: fd

definition Socket_of_fd :: "fd \<Rightarrow> Socket" where
  "Socket_of_fd fd = \<lparr>so_fd = fd\<rparr>"

text \<open>The constructor without arguments; \<open>fd\<close> is what \<open>socket\<close> returned, -1 on failure.\<close>

definition Socket_new :: "fd \<Rightarrow> Socket \<times> sock_call list" where
  "Socket_new fd = (\<lparr>so_fd = fd\<rparr>, [SockSocket])"

definition Socket_destroy :: "Socket \<Rightarrow> sock_call list" where
  "Socket_destroy s = (if so_fd s \<noteq> -1 then [SockClose (so_fd s)] else [])"

definition Socket_bindAddress :: "bool \<Rightarrow> InetAddress \<Rightarrow> Socket \<Rightarrow> sock_call list option" where
  "Socket_bindAddress bound addr s = (if bound then Some [SockBind (so_fd s) addr] else None)"

definition Socket_listen :: "bool \<Rightarrow> Socket \<Rightarrow> sock_call list option" where
  "Socket_listen listened s = (if listened then Some [SockListen (so_fd s)] else None)"

text \<open>\<open>accept\<close>: the returned descriptor (-1 for every error) and the peer address.\<close>

definition Socket_accept :: "errno + fd \<times> InetAddress \<Rightarrow> InetAddress \<Rightarrow> fd \<times> InetAddress" where
  "Socket_accept outcome peeraddr =
     (case outcome of
        Inl savedErrno \<Rightarrow> (-1, peeraddr)
      | Inr (connfd, addr) \<Rightarrow> (connfd, InetAddress_setAddr peeraddr addr))"

definition Socket_setReuseAddr :: "bool \<Rightarrow> Socket \<Rightarrow> sock_call list" where
  "Socket_setReuseAddr on s = [SockReuseAddr (so_fd s) on]"

definition Socket_setNonBlocking :: "Socket \<Rightarrow> sock_call list" where
  "Socket_setNonBlocking s = [SockNonBlocking (so_fd s)]"

definition Socket_setKeepAlive :: "bool \<Rightarrow> Socket \<Rightarrow> sock_call list" where
  "Socket_setKeepAlive on s = [SockKeepAlive (so_fd s) on]"

definition Socket_shutdownWrite :: "Socket \<Rightarrow> sock_call list" where
  "Socket_shutdownWrite s = [SockShutdownWrite (so_fd s)]"

section \<open>Acceptor\<close>

record Acceptor =
  ac_acceptSocket :: Socket
  ac_acceptChannel :: Channel
  ac_newConnectionCallback :: bool
  ac_listening :: bool

definition Acceptor_new :: "fd \<Rightarrow> bool \<Rightarrow> InetAddress \<Rightarrow> (Acceptor \<times> sock_call list) option" where
  "Acceptor_new fd bound listenAddr =
     (let (s, calls1) = Socket_new fd in
      case Socket_bindAddress bound listenAddr s of
        None \<Rightarrow> None
      | Some calls2 \<Rightarrow>
          Some (\<lparr>ac_acceptSocket = s,
                 ac_acceptChannel = Channel_setReadCallback (Channel_new (so_fd s)) True,
                 ac_newConnectionCallback = False, ac_listening = False\<rparr>,
                calls1 @ Socket_setNonBlocking s @ Socket_setReuseAddr True s @ calls2))"

definition Acceptor_destroy :: "Acceptor \<Rightarrow> Acceptor \<times> ctl_call list" where
  "Acceptor_destroy a =
     (let (ch1, calls1) = Channel_disableAll (ac_acceptChannel a); (ch2, calls2) = Channel_remove ch1
      in (a\<lparr>ac_acceptChannel := ch2\<rparr>, calls1 @ calls2))"

definition Acceptor_setNewConnectionCallback :: "bool \<Rightarrow> Acceptor \<Rightarrow> Acceptor" where
  "Acceptor_setNewConnectionCallback isSet a = a\<lparr>ac_newConnectionCallback := isSet\<rparr>"

definition Acceptor_listen :: "bool \<Rightarrow> Acceptor \<Rightarrow> (Acceptor \<times> sock_call list \<times> ctl_call list) option" where
  "Acceptor_listen listened a =
     (case Socket_listen listened (ac_acceptSocket a) of
        None \<Rightarrow> None
      | Some calls \<Rightarrow>
          let (ch, ctls) = Channel_enableReading (ac_acceptChannel a)
          in Some (a\<lparr>ac_listening := True, ac_acceptChannel := ch\<rparr>, calls, ctls))"

text \<open>What \<open>handleRead\<close> does with the accepted descriptors, for the outcomes of successive accepts; the
  loop ends at the first failure, and \<open>None\<close> means the outcomes given run out before one.\<close>

datatype accept_action = NewConnection fd InetAddress | CloseConnection fd

fun Acceptor_handleRead ::
    "bool \<Rightarrow> (errno + fd \<times> InetAddress) list \<Rightarrow> InetAddress \<Rightarrow> accept_action list option" where
  "Acceptor_handleRead newConnectionCallback [] peerAddr = None"
| "Acceptor_handleRead newConnectionCallback (outcome # outcomes) peerAddr =
     (let (connfd, peerAddr1) = Socket_accept outcome peerAddr in
      if 0 \<le> connfd then
        map_option (\<lambda>acts. (if newConnectionCallback then NewConnection connfd peerAddr1
                            else CloseConnection connfd) # acts)
          (Acceptor_handleRead newConnectionCallback outcomes peerAddr1)
      else Some [])"

section \<open>Server\<close>

type_synonym conn_ptr = nat

record server_conn =
  sc_conn :: TcpConnection
  sc_loop :: loop_ptr

record TcpServer =
  sv_loop :: loop_ptr
  sv_ipPort :: bytes
  sv_name :: bytes
  sv_acceptor :: Acceptor
  sv_threadPool :: EventLoopThreadPool
  sv_connectionCallback :: bool
  sv_messageCallback :: bool
  sv_writeCompleteCallback :: bool
  sv_threadInitCallback :: bool
  sv_started :: int
  sv_nextConnId :: int
  sv_connections :: "(bytes \<rightharpoonup> conn_ptr) option"
  sv_heap :: "conn_ptr \<rightharpoonup> server_conn"

text \<open>Work handed to loops with \<open>runInLoop\<close> and \<open>queueInLoop\<close>.\<close>

datatype server_action =
    RunListen
  | RunEstablished conn_ptr | RunRemove conn_ptr | RunDestroyed conn_ptr

definition TcpServer_new ::
    "(32 word \<Rightarrow> bytes) \<Rightarrow> loop_ptr \<Rightarrow> fd \<Rightarrow> bool \<Rightarrow> InetAddress \<Rightarrow> bytes \<Rightarrow> TcpServer option" where
  "TcpServer_new inet_ntop loop fd bound listenAddr nameArg =
     (case Acceptor_new fd bound listenAddr of
        None \<Rightarrow> None
      | Some (acceptor, calls) \<Rightarrow>
          Some \<lparr>sv_loop = loop, sv_ipPort = InetAddress_toIpPort inet_ntop listenAddr, sv_name = nameArg,
                sv_acceptor = Acceptor_setNewConnectionCallback True acceptor,
                sv_threadPool = EventLoopThreadPool_new loop nameArg,
                sv_connectionCallback = False, sv_messageCallback = False,
                sv_writeCompleteCallback = False, sv_threadInitCallback = False,
                sv_started = 0, sv_nextConnId = 1, sv_connections = Some Map.empty, sv_heap = Map.empty\<rparr>)"

definition TcpServer_setThreadNum :: "int \<Rightarrow> TcpServer \<Rightarrow> TcpServer" where
  "TcpServer_setThreadNum n s = s\<lparr>sv_threadPool := EventLoopThreadPool_setThreadNum n (sv_threadPool s)\<rparr>"

definition TcpServer_setCallbacks :: "bool \<Rightarrow> bool \<Rightarrow> bool \<Rightarrow> bool \<Rightarrow> TcpServer \<Rightarrow> TcpServer" where
  "TcpServer_setCallbacks connection message writeComplete threadInit s =
     s\<lparr>sv_connectionCallback := connection, sv_messageCallback := message,
       sv_writeCompleteCallback := writeComplete, sv_threadInitCallback := threadInit\<rparr>"

definition TcpServer_start :: "(nat \<Rightarrow> loop_ptr) \<Rightarrow> TcpServer \<Rightarrow> TcpServer \<times> server_action list" where
  "TcpServer_start startLoop s =
     (let old = sv_started s; s1 = s\<lparr>sv_started := old + 1\<rparr> in
      if old = 0 then
        (s1\<lparr>sv_threadPool := fst (EventLoopThreadPool_start startLoop (sv_threadInitCallback s1) (sv_threadPool s1))\<rparr>,
         [RunListen])
      else (s1, []))"

text \<open>\<open>snprintf(buf, 64, "-%s#%d", ipPort, nextConnId)\<close> keeps at most 63 characters.\<close>

definition connection_name :: "bytes \<Rightarrow> bytes \<Rightarrow> int \<Rightarrow> bytes" where
  "connection_name name ipPort connId = name @ take 63 (''-'' @ ipPort @ ''#'' @ to_string_int connId)"

text \<open>\<open>newConnection\<close>: \<open>conn\<close> is the address of the new object; \<open>None\<close> is an abort.\<close>

definition TcpServer_newConnection ::
    "loop_ptr \<Rightarrow> conn_ptr \<Rightarrow> fd \<Rightarrow> InetAddress \<Rightarrow> TcpServer \<Rightarrow> (TcpServer \<times> server_action list) option" where
  "TcpServer_newConnection here conn sockfd peerAddr s =
     (if here \<noteq> sv_loop s then None else
      case EventLoopThreadPool_getNextLoop (sv_threadPool s) of
        None \<Rightarrow> None
      | Some (ioLoop, pool) \<Rightarrow>
          let connName = connection_name (sv_name s) (sv_ipPort s) (sv_nextConnId s);
              localAddr = peerAddr;
              c = fst (TcpConnection_new connName sockfd localAddr peerAddr);
              c1 = TcpConnection_setCloseCallback True
                     (TcpConnection_setWriteCompleteCallback (sv_writeCompleteCallback s)
                       (TcpConnection_setMessageCallback (sv_messageCallback s)
                         (TcpConnection_setConnectionCallback (sv_connectionCallback s) c)))
          in Some (s\<lparr>sv_threadPool := pool, sv_nextConnId := sv_nextConnId s + 1,
                     sv_heap := (sv_heap s)(conn \<mapsto> \<lparr>sc_conn = c1, sc_loop = ioLoop\<rparr>),
                     sv_connections := map_option (\<lambda>m. m(connName \<mapsto> conn)) (sv_connections s)\<rparr>,
                   [RunEstablished conn]))"

text \<open>The close callback runs on the connection's loop and defers to the base loop.\<close>

definition TcpServer_closeCallback :: "conn_ptr \<Rightarrow> server_action list" where
  "TcpServer_closeCallback conn = [RunRemove conn]"

text \<open>The deferred removal: the map may be gone with the server.\<close>

definition TcpServer_removeConnection :: "conn_ptr \<Rightarrow> TcpServer \<Rightarrow> TcpServer \<times> server_action list" where
  "TcpServer_removeConnection conn s =
     (case sv_heap s conn of
        None \<Rightarrow> (s, [])
      | Some sc \<Rightarrow>
          (s\<lparr>sv_connections := map_option (\<lambda>m. m(tc_name (sc_conn sc) := None)) (sv_connections s)\<rparr>,
           [RunDestroyed conn]))"

text \<open>The destructor: every connection of the map gets empty callbacks and is destroyed on its loop, in
  the order of the map; the map dies with the server.\<close>

definition TcpServer_destroy :: "conn_ptr list \<Rightarrow> TcpServer \<Rightarrow> TcpServer \<times> server_action list" where
  "TcpServer_destroy ordered s =
     (let silence = (\<lambda>sc. sc\<lparr>sc_conn :=
            TcpConnection_setCloseCallback True (TcpConnection_setMessageCallback True
              (TcpConnection_setConnectionCallback True (sc_conn sc)))\<rparr>);
          heap' = (\<lambda>p. if p \<in> set ordered then map_option silence (sv_heap s p) else sv_heap s p)
      in (s\<lparr>sv_heap := heap', sv_connections := None\<rparr>, map RunDestroyed ordered))"

section \<open>The server and its connections\<close>

record server_sys =
  sy_server :: TcpServer
  sy_actions :: "server_action list"
  sy_removed :: "conn_ptr set"

datatype server_event =
    AcceptOne conn_ptr fd InetAddress | ConnectionMoves conn_ptr TcpConnection | ConnectionCloses conn_ptr
  | RunAction server_action bool | StartCall "nat \<Rightarrow> loop_ptr" | DestroyServer "conn_ptr list"

text \<open>What a loop does with an action (the flag: whether \<open>listen\<close> succeeds); \<open>None\<close> is an abort or
  exit of the process.\<close>

definition update_conn :: "conn_ptr \<Rightarrow> (TcpConnection \<Rightarrow> conn_result) \<Rightarrow> TcpServer \<Rightarrow> TcpServer option" where
  "update_conn p f s =
     (case sv_heap s p of
        None \<Rightarrow> None
      | Some sc \<Rightarrow>
          map_option (\<lambda>(c, _). s\<lparr>sv_heap := (sv_heap s)(p \<mapsto> sc\<lparr>sc_conn := c\<rparr>)\<rparr>) (f (sc_conn sc)))"

fun server_action_do :: "bool \<Rightarrow> server_action \<Rightarrow> TcpServer \<Rightarrow> (TcpServer \<times> server_action list) option" where
  "server_action_do listened RunListen s =
     map_option (\<lambda>(a, _). (s\<lparr>sv_acceptor := a\<rparr>, [])) (Acceptor_listen listened (sv_acceptor s))"
| "server_action_do _ (RunEstablished p) s =
     map_option (\<lambda>s'. (s', [])) (update_conn p (TcpConnection_connectEstablished True) s)"
| "server_action_do _ (RunDestroyed p) s =
     map_option (\<lambda>s'. (s', [])) (update_conn p (TcpConnection_connectDestroyed True) s)"
| "server_action_do _ (RunRemove p) s = Some (TcpServer_removeConnection p s)"

fun removes :: "server_action \<Rightarrow> conn_ptr set" where
  "removes (RunRemove p) = {p}"
| "removes _ = {}"

text \<open>\<open>ConnectionMoves\<close> is anything a connection does on its own loop: it keeps its name. A connection is
  accepted only while \<open>nextConnId_\<close> can still be incremented.\<close>

inductive server_step :: "server_sys \<Rightarrow> server_event \<Rightarrow> server_sys \<Rightarrow> bool" where
  accept_one: "sv_heap (sy_server s) p = None \<Longrightarrow> sv_connections (sy_server s) \<noteq> None \<Longrightarrow>
    sv_nextConnId (sy_server s) < 2 ^ 31 - 1 \<Longrightarrow>
    TcpServer_newConnection (sv_loop (sy_server s)) p sockfd peerAddr (sy_server s) = Some (sv', acts) \<Longrightarrow>
    server_step s (AcceptOne p sockfd peerAddr) (s\<lparr>sy_server := sv', sy_actions := sy_actions s @ acts\<rparr>)"
| connection_moves: "sv_heap (sy_server s) p = Some sc \<Longrightarrow> tc_name c = tc_name (sc_conn sc) \<Longrightarrow>
    server_step s (ConnectionMoves p c)
      (s\<lparr>sy_server := (sy_server s)\<lparr>sv_heap := (sv_heap (sy_server s))(p \<mapsto> sc\<lparr>sc_conn := c\<rparr>)\<rparr>\<rparr>)"
| connection_closes: "sv_heap (sy_server s) p \<noteq> None \<Longrightarrow>
    server_step s (ConnectionCloses p) (s\<lparr>sy_actions := sy_actions s @ TcpServer_closeCallback p\<rparr>)"
| run_action: "a \<in> set (sy_actions s) \<Longrightarrow> server_action_do listened a (sy_server s) = Some (sv', acts) \<Longrightarrow>
    server_step s (RunAction a listened)
      (s\<lparr>sy_server := sv', sy_actions := remove1 a (sy_actions s) @ acts, sy_removed := sy_removed s \<union> removes a\<rparr>)"
| start_call: "TcpServer_start startLoop (sy_server s) = (sv', acts) \<Longrightarrow>
    server_step s (StartCall startLoop) (s\<lparr>sy_server := sv', sy_actions := sy_actions s @ acts\<rparr>)"
| destroy_server: "sv_connections (sy_server s) = Some m \<Longrightarrow> distinct ordered \<Longrightarrow> set ordered = ran m \<Longrightarrow>
    TcpServer_destroy ordered (sy_server s) = (sv', acts) \<Longrightarrow>
    server_step s (DestroyServer ordered) (s\<lparr>sy_server := sv', sy_actions := sy_actions s @ acts\<rparr>)"

section \<open>Connection names\<close>

lemma length_to_string: "n < 10 ^ k \<Longrightarrow> 0 < k \<Longrightarrow> length (to_string n) \<le> k"
proof (induction n arbitrary: k rule: to_string.induct)
  case (1 n)
  show ?case
  proof (cases "n < 10")
    case True
    then show ?thesis using 1(3) by (subst to_string.simps) simp
  next
    case False
    with 1(2) have k: "1 < k" by (cases "k = 1") (auto intro: Suc_lessI 1(3))
    then obtain j where j: "k = Suc j" "0 < j" by (cases k) auto
    with 1(2) have "n div 10 < 10 ^ j" by (simp add: less_mult_imp_div_less mult.commute)
    from 1(1) [OF False this j(2)] j False show ?thesis by (subst to_string.simps) simp
  qed
qed

lemma connection_name_inj:
  assumes "length ipPort \<le> 21" "0 \<le> i" "i < 2 ^ 31" "0 \<le> j" "j < 2 ^ 31"
    and "connection_name nm ipPort i = connection_name nm ipPort j"
  shows "i = j"
proof -
  have short: "length (''-'' @ ipPort @ ''#'' @ to_string (nat x)) \<le> 63" if "0 \<le> x" "x < 2 ^ 31" for x :: int
  proof -
    have "nat x < 10 ^ 10" using that by simp
    then have "length (to_string (nat x)) \<le> 10" by (rule length_to_string) simp
    with assms(1) show ?thesis by simp
  qed
  have "to_string_int x = to_string (nat x)" if "0 \<le> x" for x using that by (simp add: to_string_int_def)
  with assms(2,4,6) have "take 63 (''-'' @ ipPort @ ''#'' @ to_string (nat i)) = take 63 (''-'' @ ipPort @ ''#'' @ to_string (nat j))"
    by (simp add: connection_name_def)
  then have "''-'' @ ipPort @ ''#'' @ to_string (nat i) = ''-'' @ ipPort @ ''#'' @ to_string (nat j)"
    using short [OF assms(2,3)] short [OF assms(4,5)] by (simp only: take_all)
  then show ?thesis using assms(2,4) by simp
qed

section \<open>Invariant\<close>

definition name_of :: "server_conn \<Rightarrow> bytes" where
  "name_of sc = tc_name (sc_conn sc)"

text \<open>The name of every connection object ever created, by address.\<close>

definition heap_names :: "TcpServer \<Rightarrow> conn_ptr \<rightharpoonup> bytes" where
  "heap_names sv p = map_option name_of (sv_heap sv p)"

definition names_fresh :: "TcpServer \<Rightarrow> bool" where
  "names_fresh sv \<longleftrightarrow>
     length (sv_ipPort sv) \<le> 21 \<and> 1 \<le> sv_nextConnId sv \<and> sv_nextConnId sv < 2 ^ 31
     \<and> (\<forall>nm \<in> ran (heap_names sv). \<exists>k. 1 \<le> k \<and> k < sv_nextConnId sv \<and>
          nm = connection_name (sv_name sv) (sv_ipPort sv) k)"

definition names_distinct :: "TcpServer \<Rightarrow> bool" where
  "names_distinct sv \<longleftrightarrow>
     (\<forall>p q nm. heap_names sv p = Some nm \<longrightarrow> heap_names sv q = Some nm \<longrightarrow> p = q)"

definition map_exact :: "TcpServer \<Rightarrow> conn_ptr set \<Rightarrow> bool" where
  "map_exact sv removed \<longleftrightarrow>
     (\<forall>m. sv_connections sv = Some m \<longrightarrow>
        (\<forall>nm p. m nm = Some p \<longleftrightarrow> heap_names sv p = Some nm \<and> p \<notin> removed))"

definition server_ok :: "server_sys \<Rightarrow> bool" where
  "server_ok s \<longleftrightarrow> names_fresh (sy_server s) \<and> names_distinct (sy_server s)
     \<and> map_exact (sy_server s) (sy_removed s)
     \<and> sy_removed s \<subseteq> dom (heap_names (sy_server s))
     \<and> {p. RunRemove p \<in> set (sy_actions s)} \<subseteq> dom (heap_names (sy_server s))"

lemma dom_heap_names [simp]: "dom (heap_names sv) = dom (sv_heap sv)"
  by (auto simp: heap_names_def)

text \<open>Steps that leave the names of the connection objects alone.\<close>

definition same_names :: "TcpServer \<Rightarrow> TcpServer \<Rightarrow> bool" where
  "same_names sv sv' \<longleftrightarrow> heap_names sv' = heap_names sv \<and> sv_ipPort sv' = sv_ipPort sv
     \<and> sv_name sv' = sv_name sv \<and> sv_nextConnId sv' = sv_nextConnId sv
     \<and> (sv_connections sv' = sv_connections sv \<or> sv_connections sv' = None)"

lemma server_ok_same_names:
  assumes "server_ok s" "same_names (sy_server s) sv'"
    and "{p. RunRemove p \<in> set acts} \<subseteq> dom (sv_heap (sy_server s))"
  shows "server_ok (s\<lparr>sy_server := sv', sy_actions := acts\<rparr>)"
proof -
  have sn: "heap_names sv' = heap_names (sy_server s)" "sv_ipPort sv' = sv_ipPort (sy_server s)"
    "sv_name sv' = sv_name (sy_server s)" "sv_nextConnId sv' = sv_nextConnId (sy_server s)"
    "sv_connections sv' = sv_connections (sy_server s) \<or> sv_connections sv' = None"
    using assms(2) by (simp_all add: same_names_def)
  have d: "dom (sv_heap sv') = dom (sv_heap (sy_server s))"
    using sn(1) dom_heap_names by metis
  have "map_exact sv' (sy_removed s)"
    using assms(1) sn(1,5) by (auto simp: server_ok_def map_exact_def)
  then show ?thesis
    using assms(1,3) sn(1-4) d by (simp add: server_ok_def names_fresh_def names_distinct_def)
qed

lemma setters_name [simp]:
  "tc_name (TcpConnection_setConnectionCallback b c) = tc_name c"
  "tc_name (TcpConnection_setMessageCallback b c) = tc_name c"
  "tc_name (TcpConnection_setWriteCompleteCallback b c) = tc_name c"
  "tc_name (TcpConnection_setCloseCallback b c) = tc_name c"
  by (simp_all add: TcpConnection_setConnectionCallback_def TcpConnection_setMessageCallback_def
      TcpConnection_setWriteCompleteCallback_def TcpConnection_setCloseCallback_def)

lemma established_name: "TcpConnection_connectEstablished i c = Some (c', acts) \<Longrightarrow> tc_name c' = tc_name c"
  by (auto simp: TcpConnection_connectEstablished_def Let_def split: if_splits)

lemma destroyed_name: "TcpConnection_connectDestroyed i c = Some (c', acts) \<Longrightarrow> tc_name c' = tc_name c"
  by (auto simp: TcpConnection_connectDestroyed_def Let_def split: if_splits)

lemma heap_names_update:
  "sv_heap sv p = Some sc \<Longrightarrow> name_of sc' = name_of sc \<Longrightarrow>
   heap_names (sv\<lparr>sv_heap := (sv_heap sv)(p \<mapsto> sc')\<rparr>) = heap_names sv"
  by (rule ext) (simp add: heap_names_def)

lemma update_conn_names:
  assumes "update_conn p f sv = Some sv'" "\<And>c c' acts. f c = Some (c', acts) \<Longrightarrow> tc_name c' = tc_name c"
  shows "same_names sv sv'"
proof (cases "sv_heap sv p")
  case None
  with assms(1) show ?thesis by (simp add: update_conn_def)
next
  case (Some sc)
  with assms(1) obtain c acts where c: "f (sc_conn sc) = Some (c, acts)"
    and sv': "sv' = sv\<lparr>sv_heap := (sv_heap sv)(p \<mapsto> sc\<lparr>sc_conn := c\<rparr>)\<rparr>"
    by (cases "f (sc_conn sc)") (auto simp: update_conn_def)
  have "heap_names sv' = heap_names sv"
    unfolding sv' by (rule heap_names_update [OF Some]) (simp add: name_of_def assms(2) [OF c])
  then show ?thesis by (simp add: same_names_def sv')
qed

text \<open>What \<open>newConnection\<close> does when it returns.\<close>

definition accepted_conn :: "TcpServer \<Rightarrow> fd \<Rightarrow> InetAddress \<Rightarrow> TcpConnection" where
  "accepted_conn sv sockfd peerAddr =
     TcpConnection_setCloseCallback True
       (TcpConnection_setWriteCompleteCallback (sv_writeCompleteCallback sv)
         (TcpConnection_setMessageCallback (sv_messageCallback sv)
           (TcpConnection_setConnectionCallback (sv_connectionCallback sv)
             (fst (TcpConnection_new (connection_name (sv_name sv) (sv_ipPort sv) (sv_nextConnId sv))
                sockfd peerAddr peerAddr)))))"

lemma tc_name_accepted [simp]:
  "tc_name (accepted_conn sv sockfd peerAddr) = connection_name (sv_name sv) (sv_ipPort sv) (sv_nextConnId sv)"
  by (simp add: accepted_conn_def TcpConnection_new_def)

lemma newConnection_eq:
  assumes "EventLoopThreadPool_getNextLoop (sv_threadPool sv) = Some (ioLoop, pool)"
  shows "TcpServer_newConnection (sv_loop sv) p sockfd peerAddr sv =
     Some (sv\<lparr>sv_threadPool := pool, sv_nextConnId := sv_nextConnId sv + 1,
              sv_heap := (sv_heap sv)(p \<mapsto> \<lparr>sc_conn = accepted_conn sv sockfd peerAddr, sc_loop = ioLoop\<rparr>),
              sv_connections := map_option (\<lambda>m. m(connection_name (sv_name sv) (sv_ipPort sv) (sv_nextConnId sv) \<mapsto> p))
                (sv_connections sv)\<rparr>,
           [RunEstablished p])"
  using assms by (simp add: TcpServer_newConnection_def accepted_conn_def Let_def)

lemma newConnection_SomeE:
  assumes "TcpServer_newConnection here p sockfd peerAddr sv = Some r"
  obtains ioLoop pool where "here = sv_loop sv"
    "EventLoopThreadPool_getNextLoop (sv_threadPool sv) = Some (ioLoop, pool)"
proof -
  have "here = sv_loop sv" using assms by (simp add: TcpServer_newConnection_def split: if_splits)
  moreover obtain x where "EventLoopThreadPool_getNextLoop (sv_threadPool sv) = Some x"
    using assms by (cases "EventLoopThreadPool_getNextLoop (sv_threadPool sv)")
      (simp_all add: TcpServer_newConnection_def split: if_splits)
  ultimately show ?thesis using that by (cases x) simp
qed

text \<open>Adding a connection with a new address and a new name.\<close>

lemma server_accept_ok:
  assumes ok: "server_ok s" and fresh: "sv_heap (sy_server s) p = None"
    and n: "sv_nextConnId (sy_server s) < 2 ^ 31 - 1"
    and nm: "nm = connection_name (sv_name (sy_server s)) (sv_ipPort (sy_server s)) (sv_nextConnId (sy_server s))"
    and hn: "heap_names sv' = (heap_names (sy_server s))(p \<mapsto> nm)"
    and same: "sv_ipPort sv' = sv_ipPort (sy_server s)" "sv_name sv' = sv_name (sy_server s)"
      "sv_nextConnId sv' = sv_nextConnId (sy_server s) + 1"
    and conns: "sv_connections sv' = map_option (\<lambda>m. m(nm \<mapsto> p)) (sv_connections (sy_server s))"
  shows "server_ok (s\<lparr>sy_server := sv', sy_actions := sy_actions s @ [RunEstablished p]\<rparr>)"
proof -
  let ?sv = "sy_server s"
  have fr: "names_fresh ?sv" and di: "names_distinct ?sv" and ma: "map_exact ?sv (sy_removed s)"
    and rm: "sy_removed s \<subseteq> dom (sv_heap ?sv)"
    and pe: "{p. RunRemove p \<in> set (sy_actions s)} \<subseteq> dom (sv_heap ?sv)"
    using ok by (simp_all add: server_ok_def)
  have p: "heap_names ?sv p = None" using fresh by (simp add: heap_names_def)
  have new: "heap_names ?sv q \<noteq> Some nm" for q
  proof
    assume "heap_names ?sv q = Some nm"
    then have "nm \<in> ran (heap_names ?sv)" by (rule ranI)
    with fr obtain k where k: "1 \<le> k" "k < sv_nextConnId ?sv" "nm = connection_name (sv_name ?sv) (sv_ipPort ?sv) k"
      unfolding names_fresh_def by blast
    have "k = sv_nextConnId ?sv"
      by (rule connection_name_inj [of "sv_ipPort ?sv" k _ "sv_name ?sv"])
        (use fr k nm in \<open>simp_all add: names_fresh_def\<close>)
    with k(2) show False by simp
  qed
  have "names_fresh sv'" unfolding names_fresh_def same
  proof (intro conjI ballI)
    fix x assume "x \<in> ran (heap_names sv')"
    then have "x = nm \<or> x \<in> ran (heap_names ?sv)" by (simp add: hn p)
    then show "\<exists>k\<ge>1. k < sv_nextConnId ?sv + 1 \<and> x = connection_name (sv_name ?sv) (sv_ipPort ?sv) k"
    proof
      assume "x = nm"
      then show ?thesis using fr nm by (intro exI [of _ "sv_nextConnId ?sv"]) (simp add: names_fresh_def)
    next
      assume "x \<in> ran (heap_names ?sv)"
      then obtain k where "1 \<le> k" "k < sv_nextConnId ?sv" "x = connection_name (sv_name ?sv) (sv_ipPort ?sv) k"
        using fr unfolding names_fresh_def by blast
      then show ?thesis by (intro exI [of _ k]) simp
    qed
  qed (use fr n in \<open>simp_all add: names_fresh_def\<close>)
  moreover have "names_distinct sv'"
    using di new by (auto simp: names_distinct_def hn)
  moreover have "map_exact sv' (sy_removed s)" unfolding map_exact_def
  proof (intro allI impI)
    fix m x q assume "sv_connections sv' = Some m"
    then obtain m0 where m0: "sv_connections ?sv = Some m0" "m = m0(nm \<mapsto> p)" using conns by auto
    have old: "m0 x = Some q \<longleftrightarrow> heap_names ?sv q = Some x \<and> q \<notin> sy_removed s"
      using ma m0(1) by (simp add: map_exact_def)
    have "p \<notin> sy_removed s" using rm fresh by auto
    then show "(m x = Some q) = (heap_names sv' q = Some x \<and> q \<notin> sy_removed s)"
      using old new [of q] p by (cases "x = nm"; cases "q = p") (auto simp: m0(2) hn)
  qed
  moreover have d: "dom (heap_names ?sv) \<subseteq> dom (heap_names sv')" unfolding hn by auto
  ultimately show ?thesis using rm pe d by (simp add: server_ok_def) blast
qed

lemma server_remove_ok:
  assumes ok: "server_ok s" and pend: "RunRemove p \<in> set (sy_actions s)"
    and r: "TcpServer_removeConnection p (sy_server s) = (sv', acts)"
  shows "server_ok (s\<lparr>sy_server := sv', sy_actions := remove1 (RunRemove p) (sy_actions s) @ acts,
    sy_removed := sy_removed s \<union> {p}\<rparr>)"
proof -
  let ?sv = "sy_server s"
  have di: "names_distinct ?sv" and ma: "map_exact ?sv (sy_removed s)"
    and pe: "{p. RunRemove p \<in> set (sy_actions s)} \<subseteq> dom (sv_heap ?sv)"
    using ok by (simp_all add: server_ok_def)
  from pe pend obtain sc where sc: "sv_heap ?sv p = Some sc" by blast
  then have hp: "heap_names ?sv p = Some (name_of sc)" by (simp add: heap_names_def)
  have sv': "sv' = ?sv\<lparr>sv_connections := map_option (\<lambda>m. m(name_of sc := None)) (sv_connections ?sv)\<rparr>"
    and acts: "acts = [RunDestroyed p]"
    using r sc by (simp_all add: TcpServer_removeConnection_def name_of_def)
  have hn: "heap_names sv' = heap_names ?sv" by (rule ext) (simp add: heap_names_def sv')
  have "map_exact sv' (sy_removed s \<union> {p})" unfolding map_exact_def hn
  proof (intro allI impI)
    fix m x q assume "sv_connections sv' = Some m"
    then obtain m0 where m0: "sv_connections ?sv = Some m0" "m = m0(name_of sc := None)" by (auto simp: sv')
    have old: "m0 x = Some q \<longleftrightarrow> heap_names ?sv q = Some x \<and> q \<notin> sy_removed s"
      using ma m0(1) by (simp add: map_exact_def)
    have "heap_names ?sv q = Some (name_of sc) \<Longrightarrow> q = p" using di hp by (simp add: names_distinct_def)
    then show "(m x = Some q) = (heap_names ?sv q = Some x \<and> q \<notin> sy_removed s \<union> {p})"
      using old hp by (auto simp: m0(2))
  qed
  moreover have "names_fresh sv'" using ok hn by (simp add: server_ok_def names_fresh_def sv')
  moreover have "names_distinct sv'" using di hn by (simp add: names_distinct_def)
  moreover have "{q. RunRemove q \<in> set (remove1 (RunRemove p) (sy_actions s) @ acts)} \<subseteq> dom (sv_heap ?sv)"
    using pe acts notin_set_remove1 by fastforce
  ultimately show ?thesis using ok sc by (auto simp: server_ok_def sv')
qed

lemma same_names_refl: "same_names sv sv"
  by (simp add: same_names_def)

lemma start_same_names: "TcpServer_start startLoop sv = (sv', acts) \<Longrightarrow> same_names sv sv'"
  by (auto simp: TcpServer_start_def Let_def same_names_def heap_names_def fun_eq_iff split: if_splits)

lemma destroy_same_names: "TcpServer_destroy ordered sv = (sv', acts) \<Longrightarrow> same_names sv sv'"
  by (auto simp: TcpServer_destroy_def Let_def same_names_def heap_names_def fun_eq_iff name_of_def [abs_def]
      option.map_comp comp_def)

lemma action_same_names:
  assumes "server_action_do listened a sv = Some (sv', acts)" "\<And>p. a \<noteq> RunRemove p"
  shows "same_names sv sv'" "acts = []"
proof -
  have "same_names sv sv' \<and> acts = []"
  proof (cases a)
    case RunListen
    with assms(1) show ?thesis
      by (auto simp: same_names_def heap_names_def fun_eq_iff split: option.splits prod.splits)
  next
    case (RunEstablished p)
    with assms(1) show ?thesis by (auto intro: update_conn_names established_name)
  next
    case (RunDestroyed p)
    with assms(1) show ?thesis by (auto intro: update_conn_names destroyed_name)
  qed (use assms(2) in simp)
  then show "same_names sv sv'" "acts = []" by simp_all
qed

lemma start_acts: "TcpServer_start startLoop sv = (sv', acts) \<Longrightarrow> RunRemove p \<notin> set acts"
  by (auto simp: TcpServer_start_def Let_def split: if_splits)

lemma destroy_acts: "TcpServer_destroy ordered sv = (sv', acts) \<Longrightarrow> RunRemove p \<notin> set acts"
  by (auto simp: TcpServer_destroy_def Let_def)

lemma pending_removals: "server_ok s \<Longrightarrow> {p. RunRemove p \<in> set (sy_actions s)} \<subseteq> dom (sv_heap (sy_server s))"
  by (simp add: server_ok_def)

lemma server_step_ok:
  assumes ok: "server_ok s" and step: "server_step s e s'"
  shows "server_ok s'"
  using step
proof cases
  case (accept_one p sockfd peerAddr sv' acts)
  obtain ioLoop pool where "EventLoopThreadPool_getNextLoop (sv_threadPool (sy_server s)) = Some (ioLoop, pool)"
    by (rule newConnection_SomeE [OF accept_one(6)])
  note eq = accept_one(6) [unfolded newConnection_eq [OF this] option.inject prod.inject]
  have "acts = [RunEstablished p]" using eq by simp
  moreover have "server_ok (s\<lparr>sy_server := sv', sy_actions := sy_actions s @ [RunEstablished p]\<rparr>)"
    by (rule server_accept_ok [OF ok accept_one(3,5) refl])
      (simp_all add: eq [THEN conjunct1, symmetric] heap_names_def fun_eq_iff name_of_def)
  ultimately show ?thesis using accept_one(2) by simp
next
  case (connection_moves p sc c)
  have "same_names (sy_server s) ((sy_server s)\<lparr>sv_heap := (sv_heap (sy_server s))(p \<mapsto> sc\<lparr>sc_conn := c\<rparr>)\<rparr>)"
    using connection_moves(3,4) by (simp add: same_names_def heap_names_update name_of_def)
  from server_ok_same_names [OF ok this pending_removals [OF ok]] connection_moves(2) show ?thesis by simp
next
  case (connection_closes p)
  have "server_ok (s\<lparr>sy_server := sy_server s, sy_actions := sy_actions s @ TcpServer_closeCallback p\<rparr>)"
    by (rule server_ok_same_names [OF ok same_names_refl])
      (use pending_removals [OF ok] connection_closes(3) in \<open>auto simp: TcpServer_closeCallback_def\<close>)
  with connection_closes(2) show ?thesis by simp
next
  case (run_action a listened sv' acts)
  show ?thesis
  proof (cases "\<exists>p. a = RunRemove p")
    case True
    then obtain p where a: "a = RunRemove p" by blast
    with run_action(4) have "TcpServer_removeConnection p (sy_server s) = (sv', acts)" by simp
    from server_remove_ok [OF ok _ this] run_action(2,3) a show ?thesis by simp
  next
    case False
    then have "\<And>p. a \<noteq> RunRemove p" by blast
    note sn = action_same_names [OF run_action(4) this]
    have "removes a = {}" using False by (cases a) simp_all
    moreover have "server_ok (s\<lparr>sy_server := sv', sy_actions := remove1 a (sy_actions s) @ acts\<rparr>)"
      by (rule server_ok_same_names [OF ok sn(1)])
        (use pending_removals [OF ok] sn(2) notin_set_remove1 in fastforce)
    ultimately show ?thesis using run_action(2) by simp
  qed
next
  case (start_call startLoop sv' acts)
  show ?thesis unfolding start_call(2)
    by (rule server_ok_same_names [OF ok start_same_names [OF start_call(3)]])
      (use pending_removals [OF ok] start_acts [OF start_call(3)] in auto)
next
  case (destroy_server m ordered sv' acts)
  show ?thesis unfolding destroy_server(2)
    by (rule server_ok_same_names [OF ok destroy_same_names [OF destroy_server(6)]])
      (use pending_removals [OF ok] destroy_acts [OF destroy_server(6)] in auto)
qed

interpretation server: step_invariant server_step server_ok
  by unfold_locales (rule server_step_ok)

definition server_init :: "TcpServer \<Rightarrow> server_sys" where
  "server_init sv = \<lparr>sy_server = sv, sy_actions = [], sy_removed = {}\<rparr>"

text \<open>\<open>inet_ntop\<close> writes at most \<open>INET_ADDRSTRLEN - 1\<close> = 15 characters, so the printed endpoint
  has at most 21.\<close>

lemma toIpPort_short:
  assumes "\<And>a. length (inet_ntop a) \<le> 15"
  shows "length (InetAddress_toIpPort inet_ntop addr) \<le> 21"
proof -
  have "unat (ntohs (sin_port addr)) < 2 ^ 16" using unsigned_less [of "ntohs (sin_port addr)"] by simp
  then have "length (to_string (unat (ntohs (sin_port addr)))) \<le> 5" by (intro length_to_string) simp_all
  with assms [of "sin_addr addr"] show ?thesis by (simp add: InetAddress_toIpPort_def)
qed

lemma TcpServer_new_SomeE:
  assumes "TcpServer_new inet_ntop base fd bound listenAddr nm = Some sv"
  shows "sv_loop sv = base" "sv_ipPort sv = InetAddress_toIpPort inet_ntop listenAddr" "sv_name sv = nm"
    "sv_threadPool sv = EventLoopThreadPool_new base nm" "sv_started sv = 0" "sv_nextConnId sv = 1"
    "sv_connections sv = Some Map.empty" "sv_heap sv = Map.empty"
  using assms by (auto simp: TcpServer_new_def split: option.splits prod.splits)

lemma server_init_ok:
  assumes "TcpServer_new inet_ntop base fd bound listenAddr nm = Some sv" "\<And>a. length (inet_ntop a) \<le> 15"
  shows "server_ok (server_init (TcpServer_setCallbacks b1 b2 b3 b4 (TcpServer_setThreadNum n sv)))"
  using TcpServer_new_SomeE [OF assms(1)] toIpPort_short [OF assms(2), where addr = listenAddr]
  by (simp add: server_ok_def server_init_def TcpServer_setCallbacks_def TcpServer_setThreadNum_def
      names_fresh_def names_distinct_def map_exact_def heap_names_def ran_def)

section \<open>A burst of connections\<close>

fun accept_all :: "(conn_ptr \<times> fd \<times> InetAddress) list \<Rightarrow> TcpServer \<Rightarrow> TcpServer option" where
  "accept_all [] s = Some s"
| "accept_all ((conn, sockfd, peerAddr) # cs) s =
     (case TcpServer_newConnection (sv_loop s) conn sockfd peerAddr s of
        None \<Rightarrow> None
      | Some (s1, _) \<Rightarrow> accept_all cs s1)"

lemma handleRead_accepts_all:
  "\<forall>(p, sockfd, a) \<in> set cs. 0 \<le> sockfd \<Longrightarrow>
   Acceptor_handleRead True (map (\<lambda>(p, sockfd, a). Inr (sockfd, a)) cs @ Inl e # rest) peer =
     Some (map (\<lambda>(p, sockfd, a). NewConnection sockfd a) cs)"
  by (induction cs arbitrary: peer) (auto simp: Socket_accept_def InetAddress_setAddr_def)

lemma accept_all_spec:
  assumes "next_loops (length cs) (sv_threadPool sv) = Some (ls, pool)" "distinct (map fst cs)"
  shows "\<exists>sv'. accept_all cs sv = Some sv' \<and> sv_nextConnId sv' = sv_nextConnId sv + int (length cs)
    \<and> (\<forall>q. q \<notin> fst ` set cs \<longrightarrow> sv_heap sv' q = sv_heap sv q)
    \<and> (\<forall>i < length cs. \<exists>sc. sv_heap sv' (fst (cs ! i)) = Some sc \<and> sc_loop sc = ls ! i
        \<and> name_of sc = connection_name (sv_name sv) (sv_ipPort sv) (sv_nextConnId sv + int i))"
  using assms
proof (induction cs arbitrary: sv ls)
  case (Cons c cs)
  obtain p sockfd a where c: "c = (p, sockfd, a)" by (cases c)
  from Cons.prems(1) obtain l pool1 where nxt: "EventLoopThreadPool_getNextLoop (sv_threadPool sv) = Some (l, pool1)"
    by (auto split: option.splits)
  with Cons.prems(1) obtain ls1 where ls: "ls = l # ls1" "next_loops (length cs) pool1 = Some (ls1, pool)"
    by auto
  let ?sc = "\<lparr>sc_conn = accepted_conn sv sockfd a, sc_loop = l\<rparr>"
  obtain sv1 where r: "TcpServer_newConnection (sv_loop sv) p sockfd a sv = Some (sv1, [RunEstablished p])"
    and sv1: "sv_threadPool sv1 = pool1" "sv_nextConnId sv1 = sv_nextConnId sv + 1"
      "sv_heap sv1 = (sv_heap sv)(p \<mapsto> ?sc)" "sv_name sv1 = sv_name sv" "sv_ipPort sv1 = sv_ipPort sv"
    using newConnection_eq [OF nxt, of p sockfd a] by simp
  from Cons.IH [of sv1 ls1] ls(2) sv1(1) Cons.prems(2) obtain sv' where
    sv': "accept_all cs sv1 = Some sv'" "sv_nextConnId sv' = sv_nextConnId sv1 + int (length cs)"
      "\<And>q. q \<notin> fst ` set cs \<Longrightarrow> sv_heap sv' q = sv_heap sv1 q"
      "\<And>i. i < length cs \<Longrightarrow> \<exists>sc. sv_heap sv' (fst (cs ! i)) = Some sc \<and> sc_loop sc = ls1 ! i
        \<and> name_of sc = connection_name (sv_name sv1) (sv_ipPort sv1) (sv_nextConnId sv1 + int i)"
    by auto
  have p: "p \<notin> fst ` set cs" using Cons.prems(2) c by simp
  show ?case
  proof (intro exI [of _ sv'] conjI allI impI)
    fix i assume i: "i < length (c # cs)"
    show "\<exists>sc. sv_heap sv' (fst ((c # cs) ! i)) = Some sc \<and> sc_loop sc = ls ! i
        \<and> name_of sc = connection_name (sv_name sv) (sv_ipPort sv) (sv_nextConnId sv + int i)"
    proof (cases i)
      case 0
      then show ?thesis using sv'(3) [OF p] by (simp add: c sv1(3) ls(1) name_of_def)
    next
      case (Suc j)
      with sv'(4) [of j] i show ?thesis by (simp add: ls(1) sv1(2,4,5) ac_simps)
    qed
  qed (use r sv'(1,2,3) sv1(2,3) c in auto)
qed simp

section \<open>Properties\<close>

text \<open>C32. The connection map is exact: whatever the connections, the loops and the users do in whatever
  order (accepts, closes, deferred removals and destructions, repeated \<open>start\<close>, the destructor), no two
  connection objects ever have the same name, and as long as the server lives its map holds exactly the
  connections accepted and not yet removed, each under its own name, so a deferred \<open>erase\<close> can
  never take out another connection.\<close>

theorem TcpServer_connection_map:
  assumes "\<And>a. length (inet_ntop a) \<le> 15"
    and "TcpServer_new inet_ntop base fd bound listenAddr nm = Some sv"
    and "run server_step (server_init (TcpServer_setCallbacks b1 b2 b3 b4 (TcpServer_setThreadNum n sv))) es s"
  shows "(\<forall>p q sc sd. sv_heap (sy_server s) p = Some sc \<longrightarrow> sv_heap (sy_server s) q = Some sd \<longrightarrow>
            tc_name (sc_conn sc) = tc_name (sc_conn sd) \<longrightarrow> p = q)
       \<and> (\<forall>m connName p. sv_connections (sy_server s) = Some m \<longrightarrow>
            (m connName = Some p \<longleftrightarrow>
              (\<exists>sc. sv_heap (sy_server s) p = Some sc \<and> tc_name (sc_conn sc) = connName \<and> p \<notin> sy_removed s)))"
proof -
  have ok: "server_ok s" using server.inv_run [OF assms(3) server_init_ok [OF assms(2,1)]] .
  then have "names_distinct (sy_server s)" "map_exact (sy_server s) (sy_removed s)"
    by (simp_all add: server_ok_def)
  then show ?thesis by (auto simp: names_distinct_def map_exact_def heap_names_def name_of_def)
qed

theorem TcpServer_connection_map_witness:
  "\<exists>sv s. TcpServer_new (\<lambda>_. ''0.0.0.0'') 0 3 True InetAddress_zero ''S'' = Some sv
     \<and> run server_step (server_init (TcpServer_setCallbacks True True True True (TcpServer_setThreadNum 0 sv)))
         [AcceptOne 7 9 InetAddress_zero, ConnectionCloses 7, RunAction (RunRemove 7) True] s
     \<and> (\<forall>m p. sv_connections (sy_server s) = Some m \<longrightarrow> m ''S-0.0.0.0:0#1'' = Some p \<longrightarrow> p \<notin> sy_removed s)
     \<and> sy_removed s = {7}"
proof -
  let ?ntop = "\<lambda>_ :: 32 word. ''0.0.0.0''"
  obtain sv where sv: "TcpServer_new ?ntop 0 3 True InetAddress_zero ''S'' = Some sv"
    by (simp add: TcpServer_new_def Acceptor_new_def Socket_new_def Socket_bindAddress_def)
  let ?sv0 = "TcpServer_setCallbacks True True True True (TcpServer_setThreadNum 0 sv)"
  note svs = TcpServer_new_SomeE [OF sv]
  let ?s0 = "server_init ?sv0"
  have nxt: "EventLoopThreadPool_getNextLoop (sv_threadPool ?sv0) = Some (0, sv_threadPool ?sv0)"
    by (simp add: svs TcpServer_setCallbacks_def TcpServer_setThreadNum_def EventLoopThreadPool_setThreadNum_def
        EventLoopThreadPool_new_def EventLoopThreadPool_getNextLoop_def)
  obtain sv1 where r1: "TcpServer_newConnection (sv_loop ?sv0) 7 9 InetAddress_zero ?sv0 = Some (sv1, [RunEstablished 7])"
    and h1: "sv_heap sv1 7 \<noteq> None"
    using newConnection_eq [OF nxt, of 7 9 InetAddress_zero] by simp
  let ?s1 = "?s0\<lparr>sy_server := sv1, sy_actions := sy_actions ?s0 @ [RunEstablished 7]\<rparr>"
  have s1: "server_step ?s0 (AcceptOne 7 9 InetAddress_zero) ?s1"
    by (rule server_step.accept_one)
      (use r1 in \<open>simp_all add: server_init_def svs TcpServer_setCallbacks_def TcpServer_setThreadNum_def\<close>)
  let ?s2 = "?s1\<lparr>sy_actions := sy_actions ?s1 @ TcpServer_closeCallback 7\<rparr>"
  have s2: "server_step ?s1 (ConnectionCloses 7) ?s2"
    by (rule server_step.connection_closes) (use h1 in simp)
  obtain sv3 acts where r3: "server_action_do True (RunRemove 7) (sy_server ?s2) = Some (sv3, acts)"
    by (cases "TcpServer_removeConnection 7 (sy_server ?s2)") simp
  have "server_step ?s2 (RunAction (RunRemove 7) True) (?s2\<lparr>sy_server := sv3,
      sy_actions := remove1 (RunRemove 7) (sy_actions ?s2) @ acts, sy_removed := sy_removed ?s2 \<union> removes (RunRemove 7)\<rparr>)"
    by (rule server_step.run_action [OF _ r3]) (simp add: TcpServer_closeCallback_def)
  then obtain s3 where s3: "server_step ?s2 (RunAction (RunRemove 7) True) s3" and rem: "sy_removed s3 = {7}"
    by (simp add: server_init_def)
  have r: "run server_step ?s0 [AcceptOne 7 9 InetAddress_zero, ConnectionCloses 7, RunAction (RunRemove 7) True] s3"
    using s1 s2 s3 by (blast intro: run.intros)
  have "length (?ntop a) \<le> 15" for a by simp
  note exact = TcpServer_connection_map [OF this sv r, THEN conjunct2]
  have "p \<notin> sy_removed s3" if "sv_connections (sy_server s3) = Some m" "m ''S-0.0.0.0:0#1'' = Some p" for m p
    using exact [rule_format, OF that(1)] that(2) by blast
  with sv r rem show ?thesis by (intro exI conjI allI impI)
qed

text \<open>C33. A burst of connections: when the listening socket becomes readable, \<open>handleRead\<close> passes every
  pending connection to the server in order until an accept fails, none is dropped; and the server
  started with \<open>n\<close> threads puts the \<open>i\<close>-th of them on loop \<open>i mod n\<close> (on its own loop when
  \<open>n\<close> is 0) under the name that ends in \<open>i + 1\<close>. The counter of the model is unbounded; the code's \<open>int\<close> agrees with it
  below \<open>2 ^ 31 - 1\<close> connections.\<close>

theorem TcpServer_accept_burst:
  assumes "TcpServer_new inet_ntop base fd bound listenAddr nm = Some sv"
    and "distinct (map fst cs)" "\<forall>(p, sockfd, a) \<in> set cs. 0 \<le> sockfd"
  shows "Acceptor_handleRead True (map (\<lambda>(p, sockfd, a). Inr (sockfd, a)) cs @ Inl e # rest) peer =
       Some (map (\<lambda>(p, sockfd, a). NewConnection sockfd a) cs)
     \<and> (\<exists>sv'. accept_all cs (fst (TcpServer_start startLoop (TcpServer_setThreadNum (int n) sv))) = Some sv'
         \<and> (\<forall>i < length cs. \<exists>sc. sv_heap sv' (fst (cs ! i)) = Some sc
             \<and> sc_loop sc = (if n = 0 then base else startLoop (i mod n))
             \<and> tc_name (sc_conn sc) =
                 connection_name nm (InetAddress_toIpPort inet_ntop listenAddr) (int i + 1)))"
proof -
  note svs = TcpServer_new_SomeE [OF assms(1)]
  let ?s = "fst (TcpServer_start startLoop (TcpServer_setThreadNum (int n) sv))"
  have s: "sv_threadPool ?s = fst (EventLoopThreadPool_start startLoop (sv_threadInitCallback sv)
      (EventLoopThreadPool_setThreadNum (int n) (EventLoopThreadPool_new base nm)))"
    "sv_nextConnId ?s = 1" "sv_name ?s = nm" "sv_ipPort ?s = InetAddress_toIpPort inet_ntop listenAddr"
    by (simp_all add: TcpServer_start_def TcpServer_setThreadNum_def svs Let_def)
  obtain pool where "next_loops (length cs) (sv_threadPool ?s) =
      Some (map (\<lambda>i. if n = 0 then base else startLoop (i mod n)) [0..<length cs], pool)"
    unfolding s(1) using next_loops_start [of "length cs" startLoop _ n base nm] by blast
  from accept_all_spec [OF this assms(2)] handleRead_accepts_all [OF assms(3)] show ?thesis
    unfolding s(2,3,4) by (fastforce simp: name_of_def add.commute)
qed

theorem TcpServer_accept_burst_witness:
  "\<exists>sv sv'. TcpServer_new (\<lambda>_. ''0.0.0.0'') 0 3 True InetAddress_zero ''S'' = Some sv
     \<and> accept_all [(1, 5, InetAddress_zero), (2, 6, InetAddress_zero)]
         (fst (TcpServer_start (\<lambda>i. 10 + i) (TcpServer_setThreadNum 1 sv))) = Some sv'
     \<and> map_option sc_loop (sv_heap sv' 2) = Some 10"
proof -
  let ?ntop = "\<lambda>_ :: 32 word. ''0.0.0.0''"
  obtain sv where sv: "TcpServer_new ?ntop 0 3 True InetAddress_zero ''S'' = Some sv"
    by (simp add: TcpServer_new_def Acceptor_new_def Socket_new_def Socket_bindAddress_def)
  let ?cs = "[(1, 5, InetAddress_zero), (2, 6, InetAddress_zero)] :: (conn_ptr \<times> fd \<times> InetAddress) list"
  have "distinct (map fst ?cs)" "\<forall>(p, sockfd, a) \<in> set ?cs. 0 \<le> sockfd" by simp_all
  note burst = TcpServer_accept_burst [OF sv this, of 11 "[]" InetAddress_zero "\<lambda>i. 10 + i" 1, THEN conjunct2]
  then obtain sv' where
    a: "accept_all ?cs (fst (TcpServer_start (\<lambda>i. 10 + i) (TcpServer_setThreadNum (int 1) sv))) = Some sv'"
    and i: "\<forall>i < length ?cs. \<exists>sc. sv_heap sv' (fst (?cs ! i)) = Some sc
      \<and> sc_loop sc = (if (1::nat) = 0 then 0 else 10 + i mod 1)
      \<and> tc_name (sc_conn sc) = connection_name ''S'' (InetAddress_toIpPort ?ntop InetAddress_zero) (int i + 1)"
    by blast
  from i [rule_format, of 1] have "\<exists>sc. sv_heap sv' 2 = Some sc \<and> sc_loop sc = 10" by auto
  then have "map_option sc_loop (sv_heap sv' 2) = Some 10" by auto
  with sv a show ?thesis by (intro exI conjI) simp_all
qed

section \<open>Behaviours to know about\<close>

text \<open>The local address of an accepted connection is a copy of the peer's.\<close>

lemma local_address_is_peer:
  assumes "TcpServer_newConnection here p sockfd peerAddr sv = Some (sv', acts)"
  shows "\<exists>sc. sv_heap sv' p = Some sc \<and> tc_localAddr (sc_conn sc) = peerAddr"
proof -
  obtain ioLoop pool where h: "here = sv_loop sv"
    "EventLoopThreadPool_getNextLoop (sv_threadPool sv) = Some (ioLoop, pool)"
    by (rule newConnection_SomeE [OF assms])
  have "tc_localAddr (accepted_conn sv sockfd peerAddr) = peerAddr"
    by (simp add: accepted_conn_def TcpConnection_new_def TcpConnection_setConnectionCallback_def
        TcpConnection_setMessageCallback_def TcpConnection_setWriteCompleteCallback_def TcpConnection_setCloseCallback_def)
  with assms newConnection_eq [OF h(2), of p sockfd peerAddr] h(1) show ?thesis by auto
qed

end
