(* ===== verification/HttpParser.thy ===== *)
theory HttpParser
  imports Buffer
begin

text \<open>
  The incremental HTTP request parser of \<open>src/src/tcp/HttpParser.h\<close> and \<open>HttpParser.cpp\<close>.
  The record has the data members; \<open>HttpParser_iterate\<close> is one pass of the parsing loop and
  \<open>HttpParser_loop\<close> the loop itself, a partial function whose \<open>None\<close> means that the call does
  not return (a failed \<open>assert\<close> of the buffer, or an endless loop). The specification
  \<open>parse_stream\<close> is the same protocol on a byte stream; the refinement lemma ties the two
  together and shows that the call always returns.
\<close>

section \<open>State\<close>

datatype HttpRequestParseState = ExpectRequestLine | ExpectHeaders | ExpectBody | GotAll | Error

record HttpParser =
  hp_state :: HttpRequestParseState
  hp_method :: bytes
  hp_path :: bytes
  hp_version :: bytes
  hp_headers :: "bytes \<rightharpoonup> bytes"
  hp_body :: bytes
  hp_expectedBodyLength :: nat

definition HttpParser_new :: HttpParser where
  "HttpParser_new =
     \<lparr>hp_state = ExpectRequestLine, hp_method = [], hp_path = [], hp_version = [],
      hp_headers = Map.empty, hp_body = [], hp_expectedBodyLength = 0\<rparr>"

definition HttpParser_gotAll :: "HttpParser \<Rightarrow> bool" where
  "HttpParser_gotAll p \<longleftrightarrow> hp_state p = GotAll"

section \<open>Character classes\<close>

definition isalnum :: "byte \<Rightarrow> bool" where
  "isalnum c \<longleftrightarrow> isdigit c \<or> 65 \<le> ord c \<and> ord c \<le> 90 \<or> 97 \<le> ord c \<and> ord c \<le> 122"

definition tolower :: "byte \<Rightarrow> byte" where
  "tolower c = (if 65 \<le> ord c \<and> ord c \<le> 90 then char_of (ord c + 32) else c)"

definition isTokenCharacter :: "byte \<Rightarrow> bool" where
  "isTokenCharacter ch =
     (if ord ch > 0x7f then False
      else if isalnum ch then True
      else ch \<in> set [CHR ''!'', CHR ''#'', CHR ''$'', CHR ''%'', CHR ''&'', CHR 0x27,
                      CHR ''*'', CHR ''+'', CHR ''-'', CHR ''.'', CHR ''^'', CHR ''_'',
                      CHR 0x60, CHR ''|'', CHR ''~''])"

definition toLowerAscii :: "bytes \<Rightarrow> bytes" where
  "toLowerAscii value = map tolower value"

definition isBlank :: "byte \<Rightarrow> bool" where
  "isBlank c \<longleftrightarrow> c = SP \<or> c = HTAB"

definition isFieldControl :: "byte \<Rightarrow> bool" where
  "isFieldControl ch \<longleftrightarrow> ord ch < 0x20 \<and> ch \<noteq> HTAB \<or> ord ch = 0x7f"

definition isTargetControl :: "byte \<Rightarrow> bool" where
  "isTargetControl ch \<longleftrightarrow> ord ch \<le> 0x20 \<or> ord ch = 0x7f"

section \<open>Content-Length\<close>

text \<open>
  \<open>std::from_chars\<close> for \<open>size_t\<close>: the longest run of digits at the start; \<open>None\<close> for
  \<open>invalid_argument\<close> and \<open>result_out_of_range\<close>, otherwise the number and the end position.
\<close>

definition from_chars :: "bytes \<Rightarrow> (nat \<times> nat) option" where
  "from_chars cs =
     (let ds = takeWhile isdigit cs
      in if ds = [] then None
         else if SIZE_MAX < decimal ds then None else Some (decimal ds, length ds))"

definition parseContentLength :: "bytes \<Rightarrow> nat option" where
  "parseContentLength value =
     (if value = [] then None
      else if \<not> list_all isdigit value then None
      else case from_chars value of
             None \<Rightarrow> None
           | Some (parsed, ptr) \<Rightarrow> if ptr \<noteq> length value then None else Some parsed)"

section \<open>Operations\<close>

definition HttpParser_reset :: "HttpParser \<Rightarrow> HttpParser" where
  "HttpParser_reset p =
     p\<lparr>hp_state := ExpectRequestLine, hp_method := [], hp_path := [], hp_version := [],
       hp_headers := Map.empty, hp_body := [], hp_expectedBodyLength := 0\<rparr>"

definition HttpParser_getHeader :: "HttpParser \<Rightarrow> bytes \<Rightarrow> bytes" where
  "HttpParser_getHeader p field =
     (case hp_headers p (toLowerAscii field) of Some v \<Rightarrow> v | None \<Rightarrow> [])"

text \<open>The request line \<open>[begin, end)\<close>; \<open>None\<close> is the return value \<open>false\<close>, members untouched.\<close>

definition HttpParser_processRequestLine :: "HttpParser \<Rightarrow> bytes \<Rightarrow> HttpParser option" where
  "HttpParser_processRequestLine p line =
     (let lineEnd = length line; firstSpace = std_find line SP in
      if firstSpace = 0 \<or> firstSpace = lineEnd then None else
      let secondSpace = firstSpace + 1 + std_find (drop (firstSpace + 1) line) SP in
      if secondSpace = firstSpace + 1 \<or> secondSpace = lineEnd then None else
      if secondSpace + 1 + std_find (drop (secondSpace + 1) line) SP \<noteq> lineEnd then None else
      if \<not> list_all isTokenCharacter (slice line 0 firstSpace) then None else
      if \<not> list_all (\<lambda>ch. \<not> isTargetControl ch) (slice line (firstSpace + 1) secondSpace) then None else
      let version = slice line (secondSpace + 1) lineEnd in
      if version \<noteq> ''HTTP/1.0'' \<and> version \<noteq> ''HTTP/1.1'' then None
      else Some (p\<lparr>hp_method := slice line 0 firstSpace,
                   hp_path := slice line (firstSpace + 1) secondSpace,
                   hp_version := version\<rparr>))"

text \<open>The end of the header section: the new state decides whether the loop goes on.\<close>

definition HttpParser_endOfHeaders :: "HttpParser \<Rightarrow> HttpParser" where
  "HttpParser_endOfHeaders p =
     (if hp_headers p ''transfer-encoding'' \<noteq> None then p\<lparr>hp_state := Error\<rparr>
      else case hp_headers p ''content-length'' of
             None \<Rightarrow> p\<lparr>hp_state := GotAll\<rparr>
           | Some v \<Rightarrow>
               (case parseContentLength v of
                  None \<Rightarrow> p\<lparr>hp_state := Error\<rparr>
                | Some n \<Rightarrow> p\<lparr>hp_expectedBodyLength := n, hp_state := ExpectBody\<rparr>))"

text \<open>One header line; \<open>None\<close> where the source sets \<open>Error\<close>.\<close>

definition HttpParser_headerLine :: "HttpParser \<Rightarrow> bytes \<Rightarrow> HttpParser option" where
  "HttpParser_headerLine p line =
     (let colon = std_find line (CHR '':'') in
      if colon = 0 \<or> colon = length line then None else
      let field = take colon line in
      if \<not> list_all isTokenCharacter field then None else
      let field = toLowerAscii field;
          rest = dropWhile isBlank (drop (colon + 1) line);
          value = rev (dropWhile isBlank (rev rest)) in
      if list_ex isFieldControl value then None else
      if hp_headers p field \<noteq> None then None
      else Some (p\<lparr>hp_headers := (hp_headers p)(field \<mapsto> value)\<rparr>))"

text \<open>One pass of \<open>while (true)\<close>: \<open>Return r\<close> leaves the function, \<open>Continue\<close> loops.\<close>

datatype loop_control = Continue | Return bool

definition HttpParser_iterate ::
    "HttpParser \<Rightarrow> Buffer \<Rightarrow> (loop_control \<times> HttpParser \<times> Buffer) option" where
  "HttpParser_iterate p b =
     (case hp_state p of
        ExpectRequestLine \<Rightarrow>
          (case Buffer_findCRLF b of
             None \<Rightarrow> Some (Return True, p, b)
           | Some crlf \<Rightarrow>
               (case HttpParser_processRequestLine p (Buffer_text b (peek b) crlf) of
                  None \<Rightarrow> Some (Return False, p\<lparr>hp_state := Error\<rparr>, b)
                | Some p' \<Rightarrow> do {
                    b' \<leftarrow> Buffer_retrieveUntil b (crlf + 2);
                    Some (Continue, p'\<lparr>hp_state := ExpectHeaders\<rparr>, b') }))
      | ExpectHeaders \<Rightarrow>
          (case Buffer_findCRLF b of
             None \<Rightarrow> Some (Return True, p, b)
           | Some crlf \<Rightarrow>
               if crlf = peek b then do {
                 b' \<leftarrow> Buffer_retrieveUntil b (crlf + 2);
                 let p' = HttpParser_endOfHeaders p;
                 Some (case hp_state p' of
                         Error \<Rightarrow> Return False
                       | GotAll \<Rightarrow> Return True
                       | _ \<Rightarrow> Continue, p', b') }
               else (case HttpParser_headerLine p (Buffer_text b (peek b) crlf) of
                  None \<Rightarrow> Some (Return False, p\<lparr>hp_state := Error\<rparr>, b)
                | Some p' \<Rightarrow> do {
                    b' \<leftarrow> Buffer_retrieveUntil b (crlf + 2);
                    Some (Continue, p', b') }))
      | ExpectBody \<Rightarrow>
          (let n = hp_expectedBodyLength p in
           if readableBytes b < n then Some (Return True, p, b)
           else Some (Return True,
                      p\<lparr>hp_body := Buffer_text b (peek b) (peek b + n), hp_state := GotAll\<rparr>,
                      Buffer_retrieve b n))
      | _ \<Rightarrow> Some (Continue, p, b))"

partial_function (option) HttpParser_loop ::
    "HttpParser \<Rightarrow> Buffer \<Rightarrow> (bool \<times> HttpParser \<times> Buffer) option" where
  "HttpParser_loop p b =
     Option.bind (HttpParser_iterate p b)
       (\<lambda>(ctl, p', b').
          case ctl of Return r \<Rightarrow> Some (r, p', b') | Continue \<Rightarrow> HttpParser_loop p' b')"

definition HttpParser_parseRequest ::
    "HttpParser \<Rightarrow> Buffer \<Rightarrow> (bool \<times> HttpParser \<times> Buffer) option" where
  "HttpParser_parseRequest p b =
     (if hp_state p = Error then Some (False, p, b)
      else if hp_state p = GotAll then Some (True, p, b)
      else HttpParser_loop p b)"

text \<open>The member itself takes a pointer that may be null.\<close>

definition HttpParser_parseRequestPtr ::
    "HttpParser \<Rightarrow> Buffer option \<Rightarrow> (bool \<times> HttpParser \<times> Buffer option) option" where
  "HttpParser_parseRequestPtr p buf =
     (case buf of
        None \<Rightarrow> Some (False, p, None)
      | Some b \<Rightarrow> map_option (\<lambda>(r, p', b'). (r, p', Some b')) (HttpParser_parseRequest p b))"

section \<open>Specification on byte streams\<close>

definition halted :: "HttpParser \<Rightarrow> bool" where
  "halted p \<longleftrightarrow> hp_state p = Error \<or> hp_state p = GotAll"

text \<open>What a complete line does to a parser that waits for a line; \<open>None\<close> rejects the request.\<close>

definition accept_line :: "HttpParser \<Rightarrow> bytes \<Rightarrow> HttpParser option" where
  "accept_line p line =
     (if hp_state p = ExpectRequestLine
      then map_option (\<lambda>p'. p'\<lparr>hp_state := ExpectHeaders\<rparr>) (HttpParser_processRequestLine p line)
      else if line = [] then Some (HttpParser_endOfHeaders p)
      else HttpParser_headerLine p line)"

function parse_stream :: "HttpParser \<Rightarrow> bytes \<Rightarrow> bool \<times> HttpParser \<times> bytes" where
  "parse_stream p cs =
     (if halted p then (hp_state p = GotAll, p, cs)
      else if hp_state p = ExpectBody then
        (let n = hp_expectedBodyLength p in
         if length cs < n then (True, p, cs)
         else (True, p\<lparr>hp_body := take n cs, hp_state := GotAll\<rparr>, drop n cs))
      else
        (case split_line cs of
           None \<Rightarrow> (True, p, cs)
         | Some (line, rest) \<Rightarrow>
             (case accept_line p line of
                None \<Rightarrow> (False, p\<lparr>hp_state := Error\<rparr>, cs)
              | Some p' \<Rightarrow> parse_stream p' rest)))"
  by pat_completeness auto
termination
  by (relation "measure (\<lambda>(p, cs). length cs)") (auto dest: split_line_length)

declare parse_stream.simps [simp del]

section \<open>Lemmas\<close>

lemma parse_stream_halted [simp]: "halted p \<Longrightarrow> parse_stream p cs = (hp_state p = GotAll, p, cs)"
  by (simp add: parse_stream.simps)

lemma parse_stream_body:
  "hp_state p = ExpectBody \<Longrightarrow> parse_stream p cs =
     (if length cs < hp_expectedBodyLength p then (True, p, cs)
      else (True, p\<lparr>hp_body := take (hp_expectedBodyLength p) cs, hp_state := GotAll\<rparr>,
            drop (hp_expectedBodyLength p) cs))"
  by (simp add: parse_stream.simps halted_def Let_def)

definition awaits_line :: "HttpParser \<Rightarrow> bool" where
  "awaits_line p \<longleftrightarrow> hp_state p = ExpectRequestLine \<or> hp_state p = ExpectHeaders"

lemma awaits_line_iff: "awaits_line p \<longleftrightarrow> \<not> halted p \<and> hp_state p \<noteq> ExpectBody"
  by (cases "hp_state p") (auto simp: awaits_line_def halted_def)

lemma parse_stream_no_line:
  "awaits_line p \<Longrightarrow> split_line cs = None \<Longrightarrow> parse_stream p cs = (True, p, cs)"
  by (simp add: parse_stream.simps awaits_line_iff)

lemma parse_stream_line:
  "awaits_line p \<Longrightarrow> split_line cs = Some (line, rest) \<Longrightarrow> parse_stream p cs =
     (case accept_line p line of None \<Rightarrow> (False, p\<lparr>hp_state := Error\<rparr>, cs)
      | Some p' \<Rightarrow> parse_stream p' rest)"
  by (simp add: parse_stream.simps [of p] awaits_line_iff)

text \<open>Induction along the parse: stop, wait for a line, reject, take a line, or take the body.\<close>

lemma parse_stream_induct [case_names halt wait reject line body]:
  assumes halt: "\<And>p cs. halted p \<Longrightarrow> P p cs"
    and wait: "\<And>p cs. awaits_line p \<Longrightarrow> split_line cs = None \<Longrightarrow> P p cs"
    and reject: "\<And>p cs line rest. awaits_line p \<Longrightarrow> split_line cs = Some (line, rest) \<Longrightarrow>
          accept_line p line = None \<Longrightarrow> P p cs"
    and line: "\<And>p cs line rest p'. awaits_line p \<Longrightarrow> split_line cs = Some (line, rest) \<Longrightarrow>
          accept_line p line = Some p' \<Longrightarrow> P p' rest \<Longrightarrow> P p cs"
    and body: "\<And>p cs. hp_state p = ExpectBody \<Longrightarrow> P p cs"
  shows "P p cs"
proof (induction p cs rule: parse_stream.induct)
  case (1 p cs)
  consider "halted p" | "hp_state p = ExpectBody" | "awaits_line p" "split_line cs = None"
    | line rest where "awaits_line p" "split_line cs = Some (line, rest)"
    by (cases "split_line cs") (auto simp: awaits_line_iff)
  then show ?case
  proof cases
    case (4 ln rest)
    then show ?thesis using reject line 1
      by (cases "accept_line p ln") (auto simp: awaits_line_iff)
  qed (use halt wait body in auto)
qed

lemma endOfHeaders_state:
  "hp_state (HttpParser_endOfHeaders p) \<in> {Error, GotAll, ExpectBody}"
  by (auto simp: HttpParser_endOfHeaders_def split: option.splits)

lemma headerLine_state [simp]:
  "HttpParser_headerLine p line = Some p' \<Longrightarrow> hp_state p' = hp_state p"
  by (auto simp: HttpParser_headerLine_def Let_def split: if_splits)

text \<open>One pass of the loop follows the specification and, when it loops, has consumed a line.\<close>

definition pass_ok :: "HttpParser \<Rightarrow> Buffer \<Rightarrow> loop_control \<Rightarrow> HttpParser \<Rightarrow> Buffer \<Rightarrow> bool" where
  "pass_ok p b ctl p' b' \<longleftrightarrow> Buffer_ok b' \<and>
     (case ctl of
        Return r \<Rightarrow> parse_stream p (Buffer_content b) = (r, p', Buffer_content b')
      | Continue \<Rightarrow> \<not> halted p' \<and> length (Buffer_content b') < length (Buffer_content b)
          \<and> parse_stream p (Buffer_content b) = parse_stream p' (Buffer_content b'))"

lemma iterate_no_line:
  assumes "Buffer_ok b" "awaits_line p" "Buffer_findCRLF b = None"
  shows "HttpParser_iterate p b = Some (Return True, p, b) \<and> pass_ok p b (Return True) p b"
  using assms bufl.find_None [OF assms(1)]
  by (auto simp: HttpParser_iterate_def pass_ok_def parse_stream_no_line awaits_line_def)

lemma iterate_request_line:
  assumes "hp_state p = ExpectRequestLine" "Buffer_findCRLF b = Some crlf"
    and "Buffer_text b (peek b) crlf = line" "Buffer_retrieveUntil b (crlf + 2) = Some b'"
  shows "HttpParser_iterate p b =
     (case accept_line p line of
        None \<Rightarrow> Some (Return False, p\<lparr>hp_state := Error\<rparr>, b)
      | Some p' \<Rightarrow> Some (Continue, p', b'))"
  using assms by (auto simp: HttpParser_iterate_def accept_line_def split: option.splits)

lemma iterate_headers:
  assumes "hp_state p = ExpectHeaders" "Buffer_findCRLF b = Some (peek b + length line)"
    and "Buffer_text b (peek b) (peek b + length line) = line"
    and "Buffer_retrieveUntil b (peek b + length line + 2) = Some b'"
  shows "HttpParser_iterate p b =
     (case accept_line p line of
        None \<Rightarrow> Some (Return False, p\<lparr>hp_state := Error\<rparr>, b)
      | Some p' \<Rightarrow> Some (if hp_state p' = Error then Return False
                         else if hp_state p' = GotAll then Return True else Continue, p', b'))"
  using assms endOfHeaders_state [of p]
  by (auto simp: HttpParser_iterate_def accept_line_def Let_def split: option.splits)

lemma iterate_line:
  assumes ok: "Buffer_ok b" and aw: "awaits_line p" and fd: "Buffer_findCRLF b = Some crlf"
  shows "\<exists>ctl p' b'. HttpParser_iterate p b = Some (ctl, p', b') \<and> pass_ok p b ctl p' b'"
  using ok fd
proof (rule line_content)
  fix line rest :: bytes
  let ?b = "Buffer_retrieve b (length line + 2)"
  assume *: "split_line (Buffer_content b) = Some (line, rest)"
    "crlf = peek b + length line" "Buffer_text b (peek b) crlf = line"
    "Buffer_retrieveUntil b (crlf + 2) = Some ?b" "Buffer_content ?b = rest"
  have it: "HttpParser_iterate p b =
     (case accept_line p line of
        None \<Rightarrow> Some (Return False, p\<lparr>hp_state := Error\<rparr>, b)
      | Some p' \<Rightarrow> Some (if hp_state p' = Error then Return False
                         else if hp_state p' = GotAll then Return True else Continue, p', ?b))"
  proof (cases "hp_state p = ExpectHeaders")
    case True
    then show ?thesis using iterate_headers [of p b line ?b] * fd by simp
  next
    case False
    then have st: "hp_state p = ExpectRequestLine" using aw by (simp add: awaits_line_def)
    then have "hp_state p' = ExpectHeaders" if "accept_line p line = Some p'" for p'
      using that by (auto simp: accept_line_def)
    then show ?thesis using iterate_request_line [OF st fd] * by (auto split: option.splits)
  qed
  note facts = it parse_stream_line [OF aw *(1)] buf.invar_retrieve [OF ok]
    split_line_length [OF *(1)] *(5) ok
  show ?thesis
    using facts by (cases "accept_line p line") (auto simp: pass_ok_def halted_def)
qed

lemma iterate_body:
  assumes ok: "Buffer_ok b" and st: "hp_state p = ExpectBody"
  shows "\<exists>ctl p' b'. HttpParser_iterate p b = Some (ctl, p', b') \<and> pass_ok p b ctl p' b'"
  using assms buf.queue_laws(3,4) [OF ok] length_content [OF ok]
  by (auto simp: HttpParser_iterate_def pass_ok_def parse_stream_body Let_def text_peek)

lemma iterate_pass:
  assumes "Buffer_ok b" "\<not> halted p"
  obtains ctl p' b' where "HttpParser_iterate p b = Some (ctl, p', b')" "pass_ok p b ctl p' b'"
  using iterate_no_line [of b p] iterate_line [of b p] iterate_body [of b p] assms
  by (cases "Buffer_findCRLF b"; cases "hp_state p = ExpectBody") (auto simp: awaits_line_iff)

lemma loop_refines:
  assumes "Buffer_ok b" "\<not> halted p"
  shows "\<exists>r p' b'. HttpParser_loop p b = Some (r, p', b') \<and> Buffer_ok b'
           \<and> parse_stream p (Buffer_content b) = (r, p', Buffer_content b')"
  using assms
proof (induction "length (Buffer_content b)" arbitrary: p b rule: less_induct)
  case less
  from less.prems obtain ctl p' b' where it: "HttpParser_iterate p b = Some (ctl, p', b')"
    and pass: "pass_ok p b ctl p' b'" by (rule iterate_pass)
  show ?case
  proof (cases ctl)
    case (Return r)
    with it pass show ?thesis by (simp add: HttpParser_loop.simps [of p b] pass_ok_def)
  next
    case Continue
    with pass less.hyps [of b' p'] it show ?thesis
      by (simp add: HttpParser_loop.simps [of p b] pass_ok_def)
  qed
qed

lemma parseRequest_refines:
  assumes "Buffer_ok b"
  obtains r p' b' where "HttpParser_parseRequest p b = Some (r, p', b')" "Buffer_ok b'"
    "parse_stream p (Buffer_content b) = (r, p', Buffer_content b')"
proof (cases "halted p")
  case True
  then have "HttpParser_parseRequest p b = Some (hp_state p = GotAll, p, b)"
    by (auto simp: halted_def HttpParser_parseRequest_def)
  with True that assms show thesis by simp
next
  case False
  with loop_refines [OF assms this] that show thesis
    by (auto simp: halted_def HttpParser_parseRequest_def)
qed

lemma parseRequest_stream:
  assumes "Buffer_ok b" "HttpParser_parseRequest p b = Some (r, p', b')"
  shows "parse_stream p (Buffer_content b) = (r, p', Buffer_content b')" and "Buffer_ok b'"
  using parseRequest_refines [OF assms(1), of p] assms(2) by fastforce+

lemma parseRequest_ofStream:
  assumes "Buffer_ok b" "parse_stream p (Buffer_content b) = (r, p', rest)"
  obtains b' where "HttpParser_parseRequest p b = Some (r, p', b')" "Buffer_ok b'"
    "Buffer_content b' = rest"
proof (rule parseRequest_refines [OF assms(1), of p])
  fix r1 p1 b1
  assume "HttpParser_parseRequest p b = Some (r1, p1, b1)" "Buffer_ok b1"
    "parse_stream p (Buffer_content b) = (r1, p1, Buffer_content b1)"
  with assms(2) that show thesis by simp
qed

lemma parseContentLength_to_string [simp]:
  assumes "n \<le> SIZE_MAX"
  shows "parseContentLength (to_string n) = Some n"
proof -
  have tw: "takeWhile isdigit (to_string n) = to_string n"
    using to_string_digits [of n] by (simp add: list_all_iff)
  show ?thesis
    using to_string_digits [of n] assms
    by (simp add: parseContentLength_def from_chars_def tw Let_def)
qed

text \<open>Resumption: parsing more input from where the parser stopped is parsing it all at once.\<close>

lemma parse_stream_resume:
  assumes "parse_stream p cs = (r, p', rest)"
  shows "parse_stream p (cs @ ds) = parse_stream p' (rest @ ds)"
  using assms
proof (induction p cs rule: parse_stream_induct)
  case (reject p cs line rest')
  then show ?case
    using parse_stream_line [OF reject(1) split_line_append [OF reject(2), of ds]]
    by (auto simp: parse_stream_line [OF reject(1,2)] halted_def)
next
  case (line p cs line rest' p'')
  then show ?case
    using parse_stream_line [OF line(1) split_line_append [OF line(2), of ds]]
    by (simp add: parse_stream_line [OF line(1,2)])
next
  case (body p cs)
  then show ?case by (auto simp: parse_stream_body halted_def split: if_splits)
qed (auto simp: parse_stream_no_line)

text \<open>The parser only takes from the front.\<close>

lemma parse_stream_suffix: "parse_stream p cs = (r, p', rest) \<Longrightarrow> suffix rest cs"
proof (induction p cs rule: parse_stream_induct)
  case (line p cs line rest' p'')
  then have "suffix rest rest'" by (simp add: parse_stream_line)
  with line(2) show ?case by (auto simp: split_line_Some_iff intro: suffix_appendI suffix_ConsI)
qed (auto simp: parse_stream_no_line parse_stream_line parse_stream_body suffix_drop split: if_splits)

section \<open>Well-formed parsers\<close>

definition token :: "bytes \<Rightarrow> bool" where
  "token cs \<longleftrightarrow> cs \<noteq> [] \<and> list_all isTokenCharacter cs"

definition target :: "bytes \<Rightarrow> bool" where
  "target cs \<longleftrightarrow> cs \<noteq> [] \<and> list_all (\<lambda>ch. \<not> isTargetControl ch) cs"

definition request_line_ok :: "HttpParser \<Rightarrow> bool" where
  "request_line_ok p \<longleftrightarrow> token (hp_method p) \<and> target (hp_path p)
     \<and> (hp_version p = ''HTTP/1.0'' \<or> hp_version p = ''HTTP/1.1'')"

definition headers_ok :: "HttpParser \<Rightarrow> bool" where
  "headers_ok p \<longleftrightarrow> (\<forall>k v. hp_headers p k = Some v \<longrightarrow>
     token k \<and> toLowerAscii k = k \<and> \<not> list_ex isFieldControl v)"

text \<open>The length the header section announces for the body: 0 without Content-Length.\<close>

definition announced :: "HttpParser \<Rightarrow> nat option" where
  "announced p =
     (case hp_headers p ''content-length'' of None \<Rightarrow> Some 0 | Some v \<Rightarrow> parseContentLength v)"

definition hp_wf :: "HttpParser \<Rightarrow> bool" where
  "hp_wf p \<longleftrightarrow> headers_ok p \<and>
     (case hp_state p of
        ExpectRequestLine \<Rightarrow> hp_body p = []
      | ExpectHeaders \<Rightarrow> request_line_ok p \<and> hp_body p = []
      | ExpectBody \<Rightarrow> request_line_ok p \<and> hp_body p = []
          \<and> hp_headers p ''transfer-encoding'' = None \<and> announced p = Some (hp_expectedBodyLength p)
      | GotAll \<Rightarrow> request_line_ok p \<and> hp_headers p ''transfer-encoding'' = None
          \<and> announced p = Some (length (hp_body p))
      | Error \<Rightarrow> True)"

lemma tolower_token: "isTokenCharacter c \<Longrightarrow> isTokenCharacter (tolower c)"
  by (auto simp: tolower_def isTokenCharacter_def isalnum_def ord_char_of)

lemma tolower_idem: "tolower (tolower c) = tolower c"
  by (auto simp: tolower_def ord_char_of)

lemma toLowerAscii_idem [simp]: "toLowerAscii (toLowerAscii cs) = toLowerAscii cs"
  by (simp add: toLowerAscii_def tolower_idem)

lemma token_toLowerAscii: "token cs \<Longrightarrow> token (toLowerAscii cs)"
  by (auto simp: token_def toLowerAscii_def list_all_iff tolower_token)

lemma processRequestLine_wf:
  assumes "HttpParser_processRequestLine p line = Some p'"
  shows "request_line_ok p' \<and> hp_headers p' = hp_headers p \<and> hp_body p' = hp_body p"
  using assms
  by (auto simp: HttpParser_processRequestLine_def Let_def request_line_ok_def token_def target_def
      slice_def split: if_splits)

lemma headerLine_Some:
  assumes "HttpParser_headerLine p line = Some p'"
  obtains field val where "token field" "\<not> list_ex isFieldControl val"
    "hp_headers p (toLowerAscii field) = None"
    "p' = p\<lparr>hp_headers := (hp_headers p)(toLowerAscii field \<mapsto> val)\<rparr>"
proof -
  let ?c = "std_find line (CHR '':'')"
  let ?v = "rev (dropWhile isBlank (rev (dropWhile isBlank (drop (?c + 1) line))))"
  from assms have "?c \<noteq> 0" "?c \<noteq> length line" "list_all isTokenCharacter (take ?c line)"
    "\<not> list_ex isFieldControl ?v" "hp_headers p (toLowerAscii (take ?c line)) = None"
    "p' = p\<lparr>hp_headers := (hp_headers p)(toLowerAscii (take ?c line) \<mapsto> ?v)\<rparr>"
    unfolding HttpParser_headerLine_def Let_def by (simp_all split: if_splits)
  moreover from this have "token (take ?c line)" by (auto simp: token_def)
  ultimately show thesis using that by blast
qed

lemma headerLine_wf:
  assumes "HttpParser_headerLine p line = Some p'" "headers_ok p"
  shows "headers_ok p' \<and> hp_method p' = hp_method p \<and> hp_path p' = hp_path p
       \<and> hp_version p' = hp_version p \<and> hp_body p' = hp_body p"
  using assms(1)
  by (rule headerLine_Some) (use assms(2) in \<open>auto simp: headers_ok_def token_toLowerAscii\<close>)

lemma endOfHeaders_wf:
  assumes "hp_wf p" "hp_state p = ExpectHeaders"
  shows "hp_wf (HttpParser_endOfHeaders p)"
proof (cases "hp_headers p ''transfer-encoding''")
  case (Some v)
  with assms show ?thesis by (simp add: HttpParser_endOfHeaders_def hp_wf_def headers_ok_def)
next
  case None
  with assms show ?thesis
    by (cases "hp_headers p ''content-length''"; cases "announced p")
      (simp_all add: HttpParser_endOfHeaders_def hp_wf_def headers_ok_def announced_def
        request_line_ok_def)
qed

lemma accept_line_wf:
  assumes "hp_wf p" "awaits_line p" "accept_line p line = Some p'"
  shows "hp_wf p'"
proof (cases "hp_state p = ExpectRequestLine")
  case True
  with assms obtain q where "HttpParser_processRequestLine p line = Some q"
    "p' = q\<lparr>hp_state := ExpectHeaders\<rparr>" by (auto simp: accept_line_def)
  with True assms(1) processRequestLine_wf [of p line q] show ?thesis
    by (simp add: hp_wf_def headers_ok_def request_line_ok_def)
next
  case False
  then have st: "hp_state p = ExpectHeaders" using assms by (simp add: awaits_line_def)
  show ?thesis
  proof (cases "line = []")
    case True
    with st assms endOfHeaders_wf [of p] show ?thesis by (auto simp: accept_line_def)
  next
    case False
    with st assms have "HttpParser_headerLine p line = Some p'" by (simp add: accept_line_def)
    with st assms(1) headerLine_wf [OF this] show ?thesis
      by (simp add: hp_wf_def request_line_ok_def)
  qed
qed

lemma parse_stream_wf: "hp_wf p \<Longrightarrow> parse_stream p cs = (r, p', rest) \<Longrightarrow> hp_wf p'"
proof (induction p cs rule: parse_stream_induct)
  case (line p cs line rest' p'')
  then show ?case by (auto simp: parse_stream_line dest: accept_line_wf)
next
  case (body p cs)
  then show ?case
    by (auto simp: parse_stream_body hp_wf_def headers_ok_def announced_def request_line_ok_def
        split: if_splits)
qed (auto simp: parse_stream_no_line parse_stream_line hp_wf_def headers_ok_def)

lemma hp_wf_new [simp]: "hp_wf HttpParser_new"
  by (simp add: hp_wf_def HttpParser_new_def headers_ok_def)

lemma reset_eq_new: "HttpParser_reset p = HttpParser_new"
  by (simp add: HttpParser_reset_def HttpParser_new_def)

section \<open>Requests on the wire\<close>

definition header_line :: "bytes \<times> bytes \<Rightarrow> bytes" where
  "header_line h = fst h @ '': '' @ snd h"

definition serialize_request ::
    "bytes \<Rightarrow> bytes \<Rightarrow> bytes \<Rightarrow> (bytes \<times> bytes) list \<Rightarrow> bytes \<Rightarrow> bytes" where
  "serialize_request meth tgt version hs body =
     (meth @ [SP] @ tgt @ [SP] @ version) @ kCRLF @
     concat (map (\<lambda>h. header_line h @ kCRLF) hs) @ kCRLF @ body"

definition lowered :: "(bytes \<times> bytes) list \<Rightarrow> (bytes \<times> bytes) list" where
  "lowered hs = map (\<lambda>(n, v). (toLowerAscii n, v)) hs"

definition field_value :: "bytes \<Rightarrow> bool" where
  "field_value v \<longleftrightarrow> \<not> list_ex isFieldControl v \<and> (v \<noteq> [] \<longrightarrow> \<not> isBlank (hd v) \<and> \<not> isBlank (last v))"

definition request_ok ::
    "bytes \<Rightarrow> bytes \<Rightarrow> bytes \<Rightarrow> (bytes \<times> bytes) list \<Rightarrow> bytes \<Rightarrow> bool" where
  "request_ok meth tgt version hs body \<longleftrightarrow>
     token meth \<and> target tgt \<and> (version = ''HTTP/1.0'' \<or> version = ''HTTP/1.1'') \<and>
     list_all (\<lambda>h. token (fst h) \<and> field_value (snd h)) hs \<and> distinct (map fst (lowered hs)) \<and>
     map_of (lowered hs) ''transfer-encoding'' = None \<and>
     (case map_of (lowered hs) ''content-length'' of
        None \<Rightarrow> body = [] | Some v \<Rightarrow> parseContentLength v = Some (length body))"

lemma token_chars: "isTokenCharacter c \<Longrightarrow> c \<noteq> SP \<and> c \<noteq> CHR '':'' \<and> c \<noteq> CR"
  by (auto simp: isTokenCharacter_def isalnum_def isdigit_def ord_def CR_def)

lemma target_chars: "\<not> isTargetControl c \<Longrightarrow> c \<noteq> SP \<and> c \<noteq> CR"
  by (auto simp: isTargetControl_def ord_def CR_def)

lemma field_chars: "\<not> isFieldControl c \<Longrightarrow> c \<noteq> CR"
  by (auto simp: isFieldControl_def ord_def CR_def HTAB_def)

lemma token_notin: "token cs \<Longrightarrow> SP \<notin> set cs \<and> CHR '':'' \<notin> set cs \<and> CR \<notin> set cs"
  unfolding token_def list_all_iff using token_chars by blast

lemma target_notin: "target cs \<Longrightarrow> SP \<notin> set cs \<and> CR \<notin> set cs"
  unfolding target_def list_all_iff using target_chars by blast

lemma field_notin: "field_value cs \<Longrightarrow> CR \<notin> set cs"
  unfolding field_value_def list_ex_iff using field_chars by blast

lemma version_notin:
  "v = ''HTTP/1.0'' \<or> v = ''HTTP/1.1'' \<Longrightarrow> SP \<notin> set v \<and> CR \<notin> set v"
  by (auto simp: CR_def)

lemma std_find_split: "c \<notin> set xs \<Longrightarrow> std_find (xs @ c # ys) c = length xs"
  by (simp add: std_find_append)

lemma processRequestLine_serialized:
  assumes "token meth" "target tgt" "version = ''HTTP/1.0'' \<or> version = ''HTTP/1.1''"
  shows "HttpParser_processRequestLine p (meth @ [SP] @ tgt @ [SP] @ version) =
           Some (p\<lparr>hp_method := meth, hp_path := tgt, hp_version := version\<rparr>)"
proof -
  note n = token_notin [OF assms(1)] target_notin [OF assms(2)] version_notin [OF assms(3)]
  let ?line = "meth @ SP # tgt @ SP # version"
  have f1: "std_find ?line SP = length meth" using n by (simp add: std_find_split)
  have f2: "std_find (tgt @ SP # version) SP = length tgt" using n by (simp add: std_find_split)
  have f3: "std_find version SP = length version" using n by (simp add: std_find_eq_length_iff)
  have d1: "drop (length meth + 1) ?line = tgt @ SP # version" by simp
  have d2: "drop (length meth + 1 + length tgt + 1) ?line = version" by simp
  have s: "slice ?line 0 (length meth) = meth"
    "slice ?line (length meth + 1) (length meth + 1 + length tgt) = tgt"
    "slice ?line (length meth + 1 + length tgt + 1) (length ?line) = version"
    by (simp_all add: slice_def)
  show ?thesis
    using assms
    unfolding HttpParser_processRequestLine_def append.append_Cons append.append_Nil Let_def f1 d1 f2 d2 f3 s
    by (simp add: token_def target_def)
qed

lemma trim_blank:
  assumes "field_value v"
  shows "rev (dropWhile isBlank (rev (dropWhile isBlank (SP # v)))) = v"
proof -
  have "dropWhile isBlank (SP # v) = v"
    using assms by (cases v) (auto simp: isBlank_def field_value_def)
  moreover have "dropWhile isBlank (rev v) = rev v"
    using assms by (cases v rule: rev_cases) (auto simp: field_value_def)
  ultimately show ?thesis by simp
qed

lemma headerLine_serialized:
  assumes "token n" "field_value v" "hp_headers p (toLowerAscii n) = None"
  shows "HttpParser_headerLine p (header_line (n, v)) =
           Some (p\<lparr>hp_headers := (hp_headers p)(toLowerAscii n \<mapsto> v)\<rparr>)"
proof -
  have f: "std_find (header_line (n, v)) (CHR '':'') = length n"
    using token_notin [OF assms(1)] by (simp add: header_line_def std_find_split)
  have d: "drop (length n + 1) (header_line (n, v)) = SP # v" by (simp add: header_line_def)
  have t: "take (length n) (header_line (n, v)) = n" by (simp add: header_line_def)
  have "length n \<noteq> 0" "length n \<noteq> length (header_line (n, v))"
    using assms(1) by (simp_all add: token_def header_line_def)
  with assms trim_blank [OF assms(2)] show ?thesis
    unfolding HttpParser_headerLine_def f d t Let_def by (simp add: token_def field_value_def)
qed

lemma lowered_simps [simp]:
  "lowered [] = []" "lowered ((n, v) # hs) = (toLowerAscii n, v) # lowered hs"
  by (simp_all add: lowered_def)

lemma parse_stream_accept:
  assumes "awaits_line p" "CR \<notin> set line" "accept_line p line = Some p'"
  shows "parse_stream p (line @ kCRLF @ rest) = parse_stream p' rest"
  using parse_stream_line [OF assms(1) split_line_no_CR [OF assms(2)]] assms(3) by simp

lemma parse_header_section:
  assumes "hp_state p = ExpectHeaders"
    and "list_all (\<lambda>h. token (fst h) \<and> field_value (snd h)) hs"
    and "distinct (map fst (lowered hs))" "\<forall>k \<in> fst ` set (lowered hs). hp_headers p k = None"
  shows "parse_stream p (concat (map (\<lambda>h. header_line h @ kCRLF) hs) @ kCRLF @ rest) =
         parse_stream (HttpParser_endOfHeaders
           (p\<lparr>hp_headers := hp_headers p ++ map_of (lowered hs)\<rparr>)) rest"
  using assms
proof (induction hs arbitrary: p)
  case Nil
  have sl: "split_line (kCRLF @ rest) = Some ([], rest)" using split_line_no_CR [of "[]" rest] by simp
  from Nil show ?case
    by (simp add: parse_stream_line [OF _ sl] awaits_line_def accept_line_def)
next
  case (Cons h hs)
  obtain n v where h: "h = (n, v)" by (cases h)
  let ?q = "p\<lparr>hp_headers := (hp_headers p)(toLowerAscii n \<mapsto> v)\<rparr>"
  let ?tail = "concat (map (\<lambda>h. header_line h @ kCRLF) hs) @ kCRLF @ rest"
  from Cons.prems h have nv: "token n" "field_value v" "hp_headers p (toLowerAscii n) = None"
    by auto
  have "CR \<notin> set (header_line h)"
    using token_notin [OF nv(1)] field_notin [OF nv(2)] h by (auto simp: header_line_def CR_def)
  moreover have "accept_line p (header_line h) = Some ?q"
    using Cons.prems(1) headerLine_serialized [OF nv] h by (simp add: accept_line_def header_line_def)
  ultimately have "parse_stream p (header_line h @ kCRLF @ ?tail) = parse_stream ?q ?tail"
    using Cons.prems(1) by (intro parse_stream_accept) (simp add: awaits_line_def)
  also have "\<dots> = parse_stream (HttpParser_endOfHeaders
      (?q\<lparr>hp_headers := hp_headers ?q ++ map_of (lowered hs)\<rparr>)) rest"
    using Cons.prems h by (intro Cons.IH) (auto simp: rev_image_eqI)
  also have "hp_headers ?q ++ map_of (lowered hs) = hp_headers p ++ map_of (lowered (h # hs))"
  proof -
    have "toLowerAscii n \<notin> dom (map_of (lowered hs))"
      using Cons.prems(3) h by (auto simp: dom_map_of_conv_image_fst)
    then show ?thesis using h by (simp add: map_add_upd_left)
  qed
  finally show ?case by simp
qed

lemma parse_serialized:
  assumes "request_ok meth tgt version hs body" "hp_state p = ExpectRequestLine"
    and "hp_headers p = Map.empty" "hp_body p = []"
  shows "\<exists>n. parse_stream p (serialize_request meth tgt version hs body @ rest) =
     (True, p\<lparr>hp_state := GotAll, hp_method := meth, hp_path := tgt, hp_version := version,
              hp_headers := map_of (lowered hs), hp_body := body, hp_expectedBodyLength := n\<rparr>, rest)"
proof -
  let ?line = "meth @ [SP] @ tgt @ [SP] @ version"
  let ?sec = "concat (map (\<lambda>h. header_line h @ kCRLF) hs) @ kCRLF @ body @ rest"
  let ?q = "p\<lparr>hp_method := meth, hp_path := tgt, hp_version := version\<rparr>\<lparr>hp_state := ExpectHeaders\<rparr>"
  let ?e = "HttpParser_endOfHeaders (?q\<lparr>hp_headers := map_of (lowered hs)\<rparr>)"
  have r: "token meth" "target tgt" "version = ''HTTP/1.0'' \<or> version = ''HTTP/1.1''"
    using assms(1) by (auto simp: request_ok_def)
  have cr: "CR \<notin> set ?line"
    using token_notin [OF r(1)] target_notin [OF r(2)] version_notin [OF r(3)] by (auto simp: CR_def)
  have ser: "serialize_request meth tgt version hs body @ rest = ?line @ kCRLF @ ?sec"
    by (simp add: serialize_request_def)
  have "parse_stream p (?line @ kCRLF @ ?sec) = parse_stream ?q ?sec"
    using assms(2) processRequestLine_serialized [OF r, of p]
    by (intro parse_stream_accept [OF _ cr]) (simp_all only: awaits_line_def accept_line_def, simp_all)
  also have "\<dots> = parse_stream ?e (body @ rest)"
    using parse_header_section [of ?q hs "body @ rest"] assms(1,3) by (simp add: request_ok_def)
  finally have main: "parse_stream p (serialize_request meth tgt version hs body @ rest) =
      parse_stream ?e (body @ rest)" using ser by simp
  show ?thesis
  proof (cases "map_of (lowered hs) ''content-length''")
    case None
    with assms have "?e = ?q\<lparr>hp_headers := map_of (lowered hs), hp_state := GotAll\<rparr>" "body = []"
      by (auto simp: HttpParser_endOfHeaders_def request_ok_def)
    with main assms(4) show ?thesis
      by (intro exI [of _ "hp_expectedBodyLength p"]) (simp add: halted_def)
  next
    case (Some v)
    with assms(1) have "?e = ?q\<lparr>hp_headers := map_of (lowered hs),
        hp_expectedBodyLength := length body, hp_state := ExpectBody\<rparr>"
      by (simp add: HttpParser_endOfHeaders_def request_ok_def)
    with main show ?thesis by (intro exI [of _ "length body"]) (simp add: parse_stream_body)
  qed
qed

section \<open>Properties\<close>

text \<open>C11. The parser always returns: on every well-formed buffer and in every parser state
  \<open>parseRequest\<close> terminates without a failed assertion or an endless loop, its result and
  parser state are those of the stream specification on the readable bytes, and what is left
  in the buffer is what the specification leaves, a suffix of what was there.\<close>

theorem HttpParser_refines_stream:
  assumes "Buffer_ok b"
  shows "\<exists>r p' b'. HttpParser_parseRequest p b = Some (r, p', b') \<and> Buffer_ok b'
           \<and> parse_stream p (Buffer_content b) = (r, p', Buffer_content b')
           \<and> suffix (Buffer_content b') (Buffer_content b)"
  using assms by (rule parseRequest_refines [of b p]) (auto dest: parse_stream_suffix)

theorem HttpParser_refines_stream_witness:
  "\<exists>r p' b'. HttpParser_parseRequest HttpParser_new (Buffer_append (Buffer_new 64) ''GET /'') =
      Some (r, p', b') \<and> Buffer_ok b'"
  using HttpParser_refines_stream [of "Buffer_append (Buffer_new 64) ''GET /''" HttpParser_new]
  by (auto simp: append_correct)

text \<open>A connection that reads: parse what is there, append the next piece, parse again.\<close>

primrec HttpParser_feed ::
    "HttpParser \<Rightarrow> Buffer \<Rightarrow> bytes list \<Rightarrow> (bool \<times> HttpParser \<times> Buffer) option" where
  "HttpParser_feed p b [] = HttpParser_parseRequest p b"
| "HttpParser_feed p b (c # cs) =
     Option.bind (HttpParser_parseRequest p b) (\<lambda>(r, p', b'). HttpParser_feed p' (Buffer_append b' c) cs)"

lemma feed_stream:
  assumes "Buffer_ok b"
  shows "\<exists>r p' b'. HttpParser_feed p b cs = Some (r, p', b') \<and> Buffer_ok b'
           \<and> parse_stream p (Buffer_content b @ concat cs) = (r, p', Buffer_content b')"
  using assms
proof (induction cs arbitrary: p b)
  case Nil
  then show ?case by (rule parseRequest_refines [of b p]) auto
next
  case (Cons c cs)
  from Cons.prems show ?case
  proof (rule parseRequest_refines [of b p])
    fix r p' b'
    assume *: "HttpParser_parseRequest p b = Some (r, p', b')" "Buffer_ok b'"
      "parse_stream p (Buffer_content b) = (r, p', Buffer_content b')"
    from Cons.IH [of "Buffer_append b' c" p'] * show ?thesis
      by (auto simp: append_correct parse_stream_resume [OF *(3)])
  qed
qed

text \<open>C13. Fragmentation does not matter: feeding a request in any pieces, calling
  \<open>parseRequest\<close> after each, ends in the same answer, the same parser and the same unread
  bytes as one call on everything.\<close>

theorem HttpParser_fragmentation:
  assumes "Buffer_ok b"
  shows "\<exists>r p' b1 b2. HttpParser_feed p b chunks = Some (r, p', b1)
           \<and> HttpParser_parseRequest p (Buffer_append b (concat chunks)) = Some (r, p', b2)
           \<and> Buffer_content b1 = Buffer_content b2"
proof -
  have ok: "Buffer_ok (Buffer_append b (concat chunks))"
    and c: "Buffer_content (Buffer_append b (concat chunks)) = Buffer_content b @ concat chunks"
    using append_correct [OF assms] by auto
  from feed_stream [OF assms, of p chunks] obtain r p' b1 where
    f: "HttpParser_feed p b chunks = Some (r, p', b1)"
      "parse_stream p (Buffer_content b @ concat chunks) = (r, p', Buffer_content b1)" by blast
  from ok f(2) [folded c] obtain b2 where
    "HttpParser_parseRequest p (Buffer_append b (concat chunks)) = Some (r, p', b2)"
    "Buffer_content b2 = Buffer_content b1" by (rule parseRequest_ofStream)
  with f show ?thesis by auto
qed

theorem HttpParser_fragmentation_witness:
  "\<exists>r p' b1 b2.
     HttpParser_feed HttpParser_new (Buffer_new 8) [''GET /split HT'', ''TP/1.1'', [CR], [LF]] = Some (r, p', b1)
     \<and> HttpParser_parseRequest HttpParser_new (Buffer_append (Buffer_new 8)
          (concat [''GET /split HT'', ''TP/1.1'', [CR], [LF]])) = Some (r, p', b2)
     \<and> Buffer_content b1 = Buffer_content b2"
  by (rule HttpParser_fragmentation) simp

text \<open>C12. Print and parse: a well-formed request written on the wire, followed by anything, is
  parsed completely; method, target, version, headers (under lower-case names) and body are
  exactly those written, and the following bytes stay in the buffer for the next request.\<close>

theorem HttpParser_roundtrip:
  assumes "Buffer_ok b" "Buffer_content b = serialize_request meth tgt version hs body @ rest"
    and "request_ok meth tgt version hs body"
  shows "\<exists>p' b'. HttpParser_parseRequest (HttpParser_reset p) b = Some (True, p', b')
           \<and> HttpParser_gotAll p' \<and> hp_method p' = meth \<and> hp_path p' = tgt \<and> hp_version p' = version
           \<and> hp_headers p' = map_of (lowered hs) \<and> hp_body p' = body
           \<and> Buffer_ok b' \<and> Buffer_content b' = rest"
proof -
  have s: "hp_state (HttpParser_reset p) = ExpectRequestLine"
    "hp_headers (HttpParser_reset p) = Map.empty" "hp_body (HttpParser_reset p) = []"
    by (simp_all add: HttpParser_reset_def)
  from parse_serialized [OF assms(3) s, of rest] obtain p' where
    st: "parse_stream (HttpParser_reset p) (Buffer_content b) = (True, p', rest)"
    and p': "HttpParser_gotAll p'" "hp_method p' = meth" "hp_path p' = tgt" "hp_version p' = version"
      "hp_headers p' = map_of (lowered hs)" "hp_body p' = body"
    unfolding assms(2) HttpParser_gotAll_def by fastforce
  from assms(1) st p' show ?thesis by (auto elim: parseRequest_ofStream)
qed

theorem HttpParser_roundtrip_witness:
  "\<exists>p' b'. HttpParser_parseRequest (HttpParser_reset HttpParser_new)
      (Buffer_append (Buffer_new 4) (serialize_request ''POST'' ''/chat'' ''HTTP/1.1''
         [(''Host'', ''localhost''), (''Content-Length'', ''5'')] ''hello'' @ ''GET /two'')) =
      Some (True, p', b') \<and> hp_body p' = ''hello'' \<and> Buffer_content b' = ''GET /two''"
proof -
  let ?s = "serialize_request ''POST'' ''/chat'' ''HTTP/1.1''
         [(''Host'', ''localhost''), (''Content-Length'', ''5'')] ''hello''"
  have pcl: "parseContentLength ''5'' = Some 5"
    by (simp add: parseContentLength_def from_chars_def decimal_def isdigit_def ord_def SIZE_MAX_def)
  have low: "lowered [(''Host'', ''localhost''), (''Content-Length'', ''5'')] =
      [(''host'', ''localhost''), (''content-length'', ''5'')]" by code_simp
  have tok: "token ''POST''" "target ''/chat''" "token ''Host''" "token ''Content-Length''"
    "field_value ''localhost''" "field_value ''5''" by code_simp+
  have "request_ok ''POST'' ''/chat'' ''HTTP/1.1''
         [(''Host'', ''localhost''), (''Content-Length'', ''5'')] ''hello''"
    unfolding request_ok_def low by (simp add: tok pcl)
  moreover have "Buffer_ok (Buffer_append (Buffer_new 4) (?s @ ''GET /two''))"
    by (simp add: append_correct)
  moreover have "Buffer_content (Buffer_append (Buffer_new 4) (?s @ ''GET /two'')) = ?s @ ''GET /two''"
    by (simp add: append_correct)
  ultimately have "\<exists>p' b'. HttpParser_parseRequest (HttpParser_reset HttpParser_new)
      (Buffer_append (Buffer_new 4) (?s @ ''GET /two'')) = Some (True, p', b')
       \<and> HttpParser_gotAll p' \<and> hp_method p' = ''POST'' \<and> hp_path p' = ''/chat'' \<and> hp_version p' = ''HTTP/1.1''
       \<and> hp_headers p' = map_of (lowered [(''Host'', ''localhost''), (''Content-Length'', ''5'')])
       \<and> hp_body p' = ''hello'' \<and> Buffer_ok b' \<and> Buffer_content b' = ''GET /two''"
    by (intro HttpParser_roundtrip)
  then show ?thesis by (elim exE conjE, intro exI conjI)
qed

text \<open>C14. A complete request has unambiguous framing: whenever the parser, started fresh, reports
  a complete request, the method is a non-empty token, the target is non-empty and free of
  spaces and control bytes, the version is 1.0 or 1.1, every header name is a lower-case token
  and no value holds a control byte, there is no Transfer-Encoding, and the body has exactly
  the length the single Content-Length announces (none: no body).\<close>

theorem HttpParser_gotAll_framing:
  assumes "Buffer_ok b" "HttpParser_parseRequest HttpParser_new b = Some (r, p', b')"
    and "HttpParser_gotAll p'"
  shows "token (hp_method p') \<and> target (hp_path p')
       \<and> (hp_version p' = ''HTTP/1.0'' \<or> hp_version p' = ''HTTP/1.1'')
       \<and> headers_ok p' \<and> hp_headers p' ''transfer-encoding'' = None
       \<and> announced p' = Some (length (hp_body p'))"
proof -
  have "hp_wf p'"
    using parse_stream_wf [OF hp_wf_new parseRequest_stream(1) [OF assms(1,2)]] .
  with assms(3) show ?thesis by (simp add: hp_wf_def HttpParser_gotAll_def request_line_ok_def)
qed

theorem HttpParser_gotAll_framing_witness:
  "\<exists>p' b'. HttpParser_parseRequest HttpParser_new (Buffer_append (Buffer_new 4)
       (''GET / HTTP/1.1'' @ kCRLF @ kCRLF)) = Some (True, p', b')
     \<and> target (hp_path p') \<and> announced p' = Some (length (hp_body p'))"
proof -
  let ?b = "Buffer_append (Buffer_new 4) (''GET / HTTP/1.1'' @ kCRLF @ kCRLF)"
  have ok: "Buffer_ok ?b" by (simp add: append_correct)
  have c: "Buffer_content ?b = serialize_request ''GET'' ''/'' ''HTTP/1.1'' [] [] @ []"
    by (simp add: append_correct serialize_request_def)
  have "request_ok ''GET'' ''/'' ''HTTP/1.1'' [] []" by code_simp
  from parse_serialized [OF this, of HttpParser_new "[]"] obtain q where
    "parse_stream HttpParser_new (Buffer_content ?b) = (True, q, [])" "HttpParser_gotAll q"
    unfolding c by (fastforce simp: HttpParser_new_def HttpParser_gotAll_def)
  with ok obtain b' where p: "HttpParser_parseRequest HttpParser_new ?b = Some (True, q, b')"
    "HttpParser_gotAll q" by (auto elim: parseRequest_ofStream)
  with HttpParser_gotAll_framing [OF ok p] show ?thesis by blast
qed

text \<open>C15. Rejection is final: when \<open>parseRequest\<close> returns \<open>false\<close> the parser is in the error
  state, and whatever arrives afterwards every further call returns \<open>false\<close> and consumes
  nothing, until \<open>reset\<close> makes the parser as good as new.\<close>

theorem HttpParser_error_final:
  assumes "Buffer_ok b" "HttpParser_parseRequest p b = Some (False, p', b')"
  shows "hp_state p' = Error
       \<and> (\<forall>b2. HttpParser_parseRequest p' b2 = Some (False, p', b2))
       \<and> HttpParser_reset p' = HttpParser_new"
proof -
  have "r \<or> hp_state q' = Error" if "parse_stream q cs = (r, q', rest)" for q cs r q' rest
    using that
    by (induction q cs rule: parse_stream_induct)
      (auto simp: halted_def parse_stream_no_line parse_stream_line parse_stream_body split: if_splits)
  from this [OF parseRequest_stream(1) [OF assms]] have "hp_state p' = Error" by simp
  then show ?thesis by (simp add: HttpParser_parseRequest_def reset_eq_new)
qed

theorem HttpParser_error_final_witness:
  "\<exists>p' b'. HttpParser_parseRequest HttpParser_new (Buffer_append (Buffer_new 4) (''GET /bad'' @ kCRLF)) =
      Some (False, p', b') \<and> hp_state p' = Error"
proof -
  let ?b = "Buffer_append (Buffer_new 4) (''GET /bad'' @ kCRLF)"
  have ok: "Buffer_ok ?b" by (simp add: append_correct)
  have c: "Buffer_content ?b = ''GET /bad'' @ kCRLF @ []" by (simp add: append_correct)
  have "accept_line HttpParser_new ''GET /bad'' = None"
    by (simp add: accept_line_def HttpParser_new_def HttpParser_processRequestLine_def Let_def)
  moreover have "split_line (Buffer_content ?b) = Some (''GET /bad'', [])"
    unfolding c by (rule split_line_no_CR) (simp add: CR_def)
  moreover have "awaits_line HttpParser_new" by (simp add: awaits_line_def HttpParser_new_def)
  ultimately have "parse_stream HttpParser_new (Buffer_content ?b) =
      (False, HttpParser_new\<lparr>hp_state := Error\<rparr>, Buffer_content ?b)"
    using parse_stream_line by (metis (no_types, lifting) option.simps(4))
  with ok obtain b' where "HttpParser_parseRequest HttpParser_new ?b =
      Some (False, HttpParser_new\<lparr>hp_state := Error\<rparr>, b')" by (rule parseRequest_ofStream)
  with HttpParser_error_final [OF ok this] show ?thesis by blast
qed

end
