(* ===== verification/Logging.thy ===== *)
theory Logging
  imports Float64
begin

text \<open>
  The front end of the logging library: \<open>src/src/base/LogStream.h\<close>, \<open>Logger.h\<close> and \<open>Logger.cpp\<close>.
  A \<open>FixedBuffer<SIZE>\<close> is a byte array of \<open>SIZE\<close> bytes with a write position; the contents of fresh
  storage are a parameter. A log statement is the list of the arguments streamed into it. Local
  time is a broken-down time, and what the logger does to its output function is a list of effects.
\<close>

section \<open>Fixed buffers\<close>

definition kSmallBuffer :: nat where "kSmallBuffer = 4000"
definition kLargeBuffer :: nat where "kLargeBuffer = 4000 * 1000"

record FixedBuffer =
  fb_data :: bytes
  fb_cur :: nat

definition FixedBuffer_new :: "bytes \<Rightarrow> FixedBuffer" where
  "FixedBuffer_new storage = \<lparr>fb_data = storage, fb_cur = 0\<rparr>"

definition FixedBuffer_avail :: "FixedBuffer \<Rightarrow> int" where
  "FixedBuffer_avail b = int (length (fb_data b)) - int (fb_cur b)"

definition FixedBuffer_length :: "FixedBuffer \<Rightarrow> int" where
  "FixedBuffer_length b = int (fb_cur b)"

text \<open>The comparison is between unsigned 64-bit values, as after the \<open>static_cast\<close>.\<close>

definition FixedBuffer_append :: "bytes \<Rightarrow> FixedBuffer \<Rightarrow> FixedBuffer" where
  "FixedBuffer_append buf b =
     (if length buf < nat (FixedBuffer_avail b mod 2 ^ 64)
      then b\<lparr>fb_data := blit (fb_data b) (fb_cur b) buf, fb_cur := fb_cur b + length buf\<rparr>
      else b)"

definition FixedBuffer_add :: "nat \<Rightarrow> FixedBuffer \<Rightarrow> FixedBuffer" where
  "FixedBuffer_add len b = b\<lparr>fb_cur := fb_cur b + len\<rparr>"

definition FixedBuffer_reset :: "FixedBuffer \<Rightarrow> FixedBuffer" where
  "FixedBuffer_reset b = b\<lparr>fb_cur := 0\<rparr>"

definition FixedBuffer_bzero :: "FixedBuffer \<Rightarrow> FixedBuffer" where
  "FixedBuffer_bzero b = b\<lparr>fb_data := replicate (length (fb_data b)) NUL\<rparr>"

text \<open>The bytes from \<open>data()\<close> on, \<open>length()\<close> of them.\<close>

definition FixedBuffer_content :: "FixedBuffer \<Rightarrow> bytes" where
  "FixedBuffer_content b = take (fb_cur b) (fb_data b)"

section \<open>Streams\<close>

record LogStream =
  ls_buffer :: FixedBuffer

text \<open>The overloads of the stream operator: \<open>bool\<close>, \<open>const char *\<close> (null or a C string, which ends at its
  first null byte), \<open>std::string\<close>, the integer types, \<open>double\<close>, \<open>char\<close> and \<open>std::string_view\<close>.\<close>

datatype log_arg =
  LBool bool | LCStr "bytes option" | LString bytes | LInt int | LDouble f64 | LChar byte | LView bytes

fun log_arg_text :: "log_arg \<Rightarrow> bytes" where
  "log_arg_text (LBool v) = (if v then ''1'' else ''0'')"
| "log_arg_text (LCStr str) = (case str of Some s \<Rightarrow> takeWhile (\<lambda>c. c \<noteq> NUL) s | None \<Rightarrow> ''(null)'')"
| "log_arg_text (LString v) = v"
| "log_arg_text (LInt v) = to_string_int v"
| "log_arg_text (LDouble v) = f64_to_string v"
| "log_arg_text (LChar v) = [v]"
| "log_arg_text (LView v) = v"

definition LogStream_put :: "log_arg \<Rightarrow> LogStream \<Rightarrow> LogStream" where
  "LogStream_put a s = s\<lparr>ls_buffer := FixedBuffer_append (log_arg_text a) (ls_buffer s)\<rparr>"

definition LogStream_resetBuffer :: "LogStream \<Rightarrow> LogStream" where
  "LogStream_resetBuffer s = s\<lparr>ls_buffer := FixedBuffer_reset (ls_buffer s)\<rparr>"

definition LogStream_new :: "bytes \<Rightarrow> LogStream" where
  "LogStream_new storage = \<lparr>ls_buffer = FixedBuffer_new storage\<rparr>"

section \<open>Levels\<close>

text \<open>The enumeration in the order of the source, compared by its integer values.\<close>

datatype LogLevel = INFO | ERROR | FATAL | DEBUG

fun level_value :: "LogLevel \<Rightarrow> nat" where
  "level_value INFO = 0"
| "level_value ERROR = 1"
| "level_value FATAL = 2"
| "level_value DEBUG = 3"

lemma level_value_inject: "level_value a = level_value b \<longleftrightarrow> a = b"
  by (cases a; cases b) simp_all

instantiation LogLevel :: linorder
begin

definition less_eq_LogLevel :: "LogLevel \<Rightarrow> LogLevel \<Rightarrow> bool" where
  "less_eq_LogLevel a b \<longleftrightarrow> level_value a \<le> level_value b"

definition less_LogLevel :: "LogLevel \<Rightarrow> LogLevel \<Rightarrow> bool" where
  "less_LogLevel a b \<longleftrightarrow> level_value a < level_value b"

instance
  by standard (auto simp: less_eq_LogLevel_def less_LogLevel_def level_value_inject)

end

text \<open>The four macros: whether the statement is executed, for the global level and whether the code was
  compiled with \<open>MUDEBUG\<close>.\<close>

fun log_enabled :: "bool \<Rightarrow> LogLevel \<Rightarrow> LogLevel \<Rightarrow> bool" where
  "log_enabled mudebug global INFO \<longleftrightarrow> global \<le> INFO"
| "log_enabled mudebug global ERROR \<longleftrightarrow> global \<le> ERROR"
| "log_enabled mudebug global FATAL \<longleftrightarrow> True"
| "log_enabled mudebug global DEBUG \<longleftrightarrow> mudebug \<and> global \<le> DEBUG"

section \<open>The logger\<close>

text \<open>The three globals every log statement reads: the addresses of the output and flush functions and the
  level; \<open>defaultOutput\<close> and \<open>defaultFlush\<close> write to and flush \<open>stdout\<close>.\<close>

record logger_globals =
  g_output :: nat
  g_flush :: nat
  globalLogLevel :: LogLevel

definition logger_globals_init :: "nat \<Rightarrow> nat \<Rightarrow> logger_globals" where
  "logger_globals_init defaultOutput defaultFlush =
     \<lparr>g_output = defaultOutput, g_flush = defaultFlush, globalLogLevel = INFO\<rparr>"

definition Logger_setOutput :: "nat \<Rightarrow> logger_globals \<Rightarrow> logger_globals" where
  "Logger_setOutput out g = g\<lparr>g_output := out\<rparr>"

definition Logger_setFlush :: "nat \<Rightarrow> logger_globals \<Rightarrow> logger_globals" where
  "Logger_setFlush flush g = g\<lparr>g_flush := flush\<rparr>"

definition Logger_setLogLevel :: "LogLevel \<Rightarrow> logger_globals \<Rightarrow> logger_globals" where
  "Logger_setLogLevel level g = g\<lparr>globalLogLevel := level\<rparr>"

text \<open>Broken-down time with the conventions of \<open>struct tm\<close>: years from 1900, months from 0.\<close>

record tm =
  tm_year :: nat
  tm_mon :: nat
  tm_mday :: nat
  tm_hour :: nat
  tm_min :: nat
  tm_sec :: nat

definition log_time :: "tm \<Rightarrow> bytes" where
  "log_time t =
     pad 4 (tm_year t + 1900) @ ''-'' @ pad 2 (tm_mon t + 1) @ ''-'' @ pad 2 (tm_mday t) @ '' ''
     @ pad 2 (tm_hour t) @ '':'' @ pad 2 (tm_min t) @ '':'' @ pad 2 (tm_sec t)"

fun level_tag :: "LogLevel \<Rightarrow> bytes" where
  "level_tag INFO = ''[INFO] ''"
| "level_tag ERROR = ''[ERROR] ''"
| "level_tag FATAL = ''[FATAL] ''"
| "level_tag DEBUG = ''[DEBUG] ''"

record Logger =
  lg_stream :: LogStream
  lg_file :: bytes
  lg_line :: int
  lg_level :: LogLevel

definition Logger_new :: "bytes \<Rightarrow> tm \<Rightarrow> bytes \<Rightarrow> int \<Rightarrow> LogLevel \<Rightarrow> Logger" where
  "Logger_new storage now file line level =
     (let s1 = LogStream_put (LCStr (Some ''[''))  (LogStream_new storage);
          s2 = LogStream_put (LCStr (Some (log_time now))) s1;
          s3 = LogStream_put (LCStr (Some ''] '')) s2
      in \<lparr>lg_stream = LogStream_put (LCStr (Some (level_tag level))) s3, lg_file = file, lg_line = line, lg_level = level\<rparr>)"

datatype log_effect = Output bytes | Flush | Abort

definition Logger_destroy :: "Logger \<Rightarrow> log_effect list" where
  "Logger_destroy l =
     (let s = fold LogStream_put
                [LCStr (Some '' - ''), LCStr (Some (lg_file l)), LCStr (Some '':''), LInt (lg_line l), LChar LF]
                (lg_stream l)
      in Output (FixedBuffer_content (ls_buffer s)) # (if lg_level l = FATAL then [Flush, Abort] else []))"

text \<open>A whole log statement: the macro's test, the temporary, the streamed arguments, the destructor.\<close>

definition log_statement ::
    "bool \<Rightarrow> LogLevel \<Rightarrow> bytes \<Rightarrow> tm \<Rightarrow> bytes \<Rightarrow> int \<Rightarrow> LogLevel \<Rightarrow> log_arg list \<Rightarrow> log_effect list" where
  "log_statement mudebug global storage now file line level args =
     (if log_enabled mudebug global level then
        let l = Logger_new storage now file line level
        in Logger_destroy (l\<lparr>lg_stream := fold LogStream_put args (lg_stream l)\<rparr>)
      else [])"

section \<open>Buffers hold what fits\<close>

definition FixedBuffer_ok :: "FixedBuffer \<Rightarrow> bool" where
  "FixedBuffer_ok b \<longleftrightarrow> 0 < length (fb_data b) \<and> length (fb_data b) < 2 ^ 63 \<and> fb_cur b < length (fb_data b)"

text \<open>The reference: every piece that leaves at least one byte free is kept, the others are dropped whole.\<close>

fun fit :: "nat \<Rightarrow> bytes \<Rightarrow> bytes list \<Rightarrow> bytes" where
  "fit cap acc [] = acc"
| "fit cap acc (p # ps) = fit cap (if length acc + length p < cap then acc @ p else acc) ps"

lemma FixedBuffer_ok_new: "0 < length storage \<Longrightarrow> length storage < 2 ^ 63 \<Longrightarrow> FixedBuffer_ok (FixedBuffer_new storage)"
  by (simp add: FixedBuffer_ok_def FixedBuffer_new_def)

lemma FixedBuffer_content_new [simp]: "FixedBuffer_content (FixedBuffer_new storage) = []"
  by (simp add: FixedBuffer_content_def FixedBuffer_new_def)

lemma length_FixedBuffer_content: "FixedBuffer_ok b \<Longrightarrow> length (FixedBuffer_content b) = fb_cur b"
  by (simp add: FixedBuffer_ok_def FixedBuffer_content_def)

lemma avail_unsigned:
  assumes "FixedBuffer_ok b"
  shows "nat (FixedBuffer_avail b mod 2 ^ 64) = length (fb_data b) - fb_cur b"
proof -
  have "0 \<le> FixedBuffer_avail b" "FixedBuffer_avail b < 2 ^ 64"
    using assms by (simp_all add: FixedBuffer_ok_def FixedBuffer_avail_def)
  then have "FixedBuffer_avail b mod 2 ^ 64 = FixedBuffer_avail b" by simp
  then show ?thesis by (simp add: FixedBuffer_avail_def nat_diff_distrib')
qed

lemma FixedBuffer_append_correct:
  assumes "FixedBuffer_ok b"
  shows "FixedBuffer_ok (FixedBuffer_append p b)"
    and "length (fb_data (FixedBuffer_append p b)) = length (fb_data b)"
    and "FixedBuffer_content (FixedBuffer_append p b) =
      (if fb_cur b + length p < length (fb_data b) then FixedBuffer_content b @ p else FixedBuffer_content b)"
proof -
  have cur: "fb_cur b < length (fb_data b)" "length (fb_data b) < 2 ^ 63" "0 < length (fb_data b)"
    using assms by (auto simp: FixedBuffer_ok_def)
  have "FixedBuffer_append p b =
      (if fb_cur b + length p < length (fb_data b)
       then b\<lparr>fb_data := blit (fb_data b) (fb_cur b) p, fb_cur := fb_cur b + length p\<rparr> else b)"
    unfolding FixedBuffer_append_def avail_unsigned [OF assms] using cur by (simp add: less_diff_conv add.commute)
  then show "FixedBuffer_ok (FixedBuffer_append p b)"
    "length (fb_data (FixedBuffer_append p b)) = length (fb_data b)"
    "FixedBuffer_content (FixedBuffer_append p b) =
      (if fb_cur b + length p < length (fb_data b) then FixedBuffer_content b @ p else FixedBuffer_content b)"
    using cur by (simp_all add: FixedBuffer_ok_def FixedBuffer_content_def blit_def)
qed

lemma LogStream_put_all:
  assumes "FixedBuffer_ok (ls_buffer s)"
  shows "FixedBuffer_ok (ls_buffer (fold LogStream_put args s))
    \<and> length (fb_data (ls_buffer (fold LogStream_put args s))) = length (fb_data (ls_buffer s))
    \<and> FixedBuffer_content (ls_buffer (fold LogStream_put args s)) =
        fit (length (fb_data (ls_buffer s))) (FixedBuffer_content (ls_buffer s)) (map log_arg_text args)"
  using assms
proof (induction args arbitrary: s)
  case (Cons a args)
  let ?s = "LogStream_put a s"
  note c = FixedBuffer_append_correct [OF Cons.prems, of "log_arg_text a"]
  have buf: "ls_buffer ?s = FixedBuffer_append (log_arg_text a) (ls_buffer s)" by (simp add: LogStream_put_def)
  then have ok: "FixedBuffer_ok (ls_buffer ?s)" using c(1) by simp
  show ?case using Cons.IH [OF ok] c buf length_FixedBuffer_content [OF Cons.prems] by simp
qed simp

lemma fit_all: "length acc + length (concat ps) < cap \<Longrightarrow> fit cap acc ps = acc @ concat ps"
  by (induction ps arbitrary: acc) auto

lemma fit_less: "length acc < cap \<Longrightarrow> length (fit cap acc ps) < cap"
  by (induction ps arbitrary: acc) auto

section \<open>Records\<close>

lemma takeWhile_no_NUL: "NUL \<notin> set s \<Longrightarrow> takeWhile (\<lambda>c. c \<noteq> NUL) s = s"
  by (induction s) auto

lemma to_string_no_NUL: "NUL \<notin> set (to_string n)"
  using to_string_digits [of n] by (auto simp: list_all_iff isdigit_def NUL_def ord_def)

lemma log_time_no_NUL: "NUL \<notin> set (log_time t)"
  by (auto simp: log_time_def pad_def to_string_no_NUL) (simp_all add: NUL_def)

lemma level_tag_no_NUL: "NUL \<notin> set (level_tag l)"
  by (cases l) (simp_all add: NUL_def)

lemma Logger_new_stream:
  "lg_stream (Logger_new storage now file line level) =
     fold LogStream_put [LCStr (Some ''[''), LCStr (Some (log_time now)), LCStr (Some ''] ''), LCStr (Some (level_tag level))]
       (LogStream_new storage)"
  "lg_file (Logger_new storage now file line level) = file"
  "lg_line (Logger_new storage now file line level) = line"
  "lg_level (Logger_new storage now file line level) = level"
  by (simp_all add: Logger_new_def Let_def)

definition record_pieces :: "tm \<Rightarrow> bytes \<Rightarrow> int \<Rightarrow> LogLevel \<Rightarrow> log_arg list \<Rightarrow> log_arg list" where
  "record_pieces now file line level args =
     [LCStr (Some ''[''), LCStr (Some (log_time now)), LCStr (Some ''] ''), LCStr (Some (level_tag level))]
     @ args @ [LCStr (Some '' - ''), LCStr (Some file), LCStr (Some '':''), LInt line, LChar LF]"

lemma log_statement_eq:
  "log_statement mudebug global storage now file line level args =
     (if log_enabled mudebug global level then
        Output (FixedBuffer_content (ls_buffer (fold LogStream_put (record_pieces now file line level args)
          (LogStream_new storage)))) # (if level = FATAL then [Flush, Abort] else [])
      else [])"
  by (simp add: log_statement_def Logger_destroy_def record_pieces_def Let_def Logger_new_stream)

lemma log_statement_fit:
  assumes "length storage = kSmallBuffer" "log_enabled mudebug global level"
  shows "log_statement mudebug global storage now file line level args =
    Output (fit kSmallBuffer [] (map log_arg_text (record_pieces now file line level args)))
      # (if level = FATAL then [Flush, Abort] else [])"
proof -
  have "FixedBuffer_ok (ls_buffer (LogStream_new storage))"
    using assms(1) by (simp add: LogStream_new_def FixedBuffer_ok_new kSmallBuffer_def)
  from LogStream_put_all [OF this, of "record_pieces now file line level args"] assms show ?thesis
    by (simp add: log_statement_eq LogStream_new_def FixedBuffer_new_def FixedBuffer_content_def)
qed

section \<open>Properties\<close>

text \<open>C29. A log stream never writes outside its 4000 bytes: after any sequence of stream operators the array
  still has its size, the write position is inside it, and the record holds, in order, exactly the
  pieces that fitted when they came (a piece that does not fit is dropped whole).\<close>

theorem LogStream_holds_what_fits:
  assumes "length storage = kSmallBuffer"
  shows "let b = ls_buffer (fold LogStream_put args (LogStream_new storage)) in
    length (fb_data b) = kSmallBuffer \<and> fb_cur b < kSmallBuffer
    \<and> FixedBuffer_content b = fit kSmallBuffer [] (map log_arg_text args)
    \<and> (length (concat (map log_arg_text args)) < kSmallBuffer \<longrightarrow>
         FixedBuffer_content b = concat (map log_arg_text args))"
proof -
  have new: "FixedBuffer_ok (ls_buffer (LogStream_new storage))"
    using assms(1) by (simp add: LogStream_new_def FixedBuffer_ok_new kSmallBuffer_def)
  have "length (fb_data (ls_buffer (LogStream_new storage))) = kSmallBuffer"
    "FixedBuffer_content (ls_buffer (LogStream_new storage)) = []"
    using assms by (simp_all add: LogStream_new_def) (simp add: FixedBuffer_new_def)
  with LogStream_put_all [OF new, of args] show ?thesis
    by (auto simp: Let_def FixedBuffer_ok_def fit_all)
qed

theorem LogStream_holds_what_fits_witness:
  "FixedBuffer_content (ls_buffer (fold LogStream_put [LCStr (Some ''id=''), LInt (- 1), LBool True]
     (LogStream_new (replicate kSmallBuffer NUL)))) = ''id=-11''"
  using LogStream_holds_what_fits [of "replicate kSmallBuffer NUL" "[LCStr (Some ''id=''), LInt (- 1), LBool True]"]
  by (simp add: Let_def to_string_int_def to_string.simps [of "Suc 0"] char_of_def bit_0 kSmallBuffer_def NUL_def)

text \<open>C30. A log statement: when its level is enabled it calls the output function exactly once, with the
  whole record (time, level, the streamed values, file and line, newline), provided it is shorter than the
  stream's buffer of 4000 bytes and the file name holds no NUL; a fatal one is always enabled, flushes after the output and then aborts; a
  disabled one does nothing.\<close>

theorem Logger_record:
  assumes "length storage = kSmallBuffer" "NUL \<notin> set file"
    and "length (log_time now) + length (level_tag level) + length (concat (map log_arg_text args))
           + length file + length (to_string_int line) + 8 < kSmallBuffer"
  shows "log_statement mudebug global storage now file line level args =
    (if log_enabled mudebug global level then
       Output (''['' @ log_time now @ ''] '' @ level_tag level @ concat (map log_arg_text args)
          @ '' - '' @ file @ '':'' @ to_string_int line @ [LF])
        # (if level = FATAL then [Flush, Abort] else [])
     else [])
    \<and> log_enabled mudebug global FATAL"
proof -
  have t: "map log_arg_text (record_pieces now file line level args) =
      [''['', log_time now, ''] '', level_tag level] @ map log_arg_text args @ ['' - '', file, '':'', to_string_int line, [LF]]"
    using takeWhile_no_NUL [OF log_time_no_NUL, of now] takeWhile_no_NUL [OF level_tag_no_NUL, of level]
      takeWhile_no_NUL [OF assms(2)]
    by (simp add: record_pieces_def NUL_def)
  have "fit kSmallBuffer [] (map log_arg_text (record_pieces now file line level args)) =
      concat (map log_arg_text (record_pieces now file line level args))"
    using assms(3) fit_all [of "[]" "map log_arg_text (record_pieces now file line level args)" kSmallBuffer]
    unfolding t by simp
  with log_statement_fit [OF assms(1), of mudebug global level] show ?thesis
    by (cases "log_enabled mudebug global level") (simp_all add: t, simp add: log_statement_def)
qed

definition epoch :: tm where
  "epoch = \<lparr>tm_year = 70, tm_mon = 0, tm_mday = 1, tm_hour = 0, tm_min = 0, tm_sec = 0\<rparr>"

theorem Logger_record_witness:
  "log_statement False INFO (replicate kSmallBuffer NUL) epoch ''a.cpp'' 7 FATAL [LCStr (Some ''x'')] =
     [Output (''[1970-01-01 00:00:00] [FATAL] x - a.cpp:7'' @ [LF]), Flush, Abort]"
proof -
  have t: "log_time epoch = ''1970-01-01 00:00:00''"
    by (simp add: log_time_def epoch_def pad_def to_string.simps char_of_def bit_0)
  have "to_string_int 7 = ''7''" by (simp add: to_string_int_def to_string.simps [of 7] char_of_def bit_0)
  then show ?thesis
    using Logger_record [of "replicate kSmallBuffer NUL" "''a.cpp''" epoch FATAL "[LCStr (Some ''x'')]" 7 False INFO]
    by (simp add: t kSmallBuffer_def NUL_def)
qed

section \<open>Behaviours to know about\<close>

text \<open>\<open>DEBUG\<close> is the greatest level, so a global level of \<open>DEBUG\<close> turns informational and error records off.\<close>

lemma debug_level_silences: "\<not> log_enabled mudebug DEBUG INFO \<and> \<not> log_enabled mudebug DEBUG ERROR"
  by (simp add: less_eq_LogLevel_def)

text \<open>A record whose other pieces fill 3999 bytes loses its newline.\<close>

lemma full_record_has_no_newline:
  assumes "length acc = kSmallBuffer - 1"
  shows "fit kSmallBuffer acc [[LF]] = acc"
  using assms by (simp add: kSmallBuffer_def)

end
