(* ===== verification/LogFile.thy ===== *)
theory LogFile
  imports Logging
begin

text \<open>
  Rolling log files: \<open>src/src/base/LogFile.h\<close> and \<open>LogFile.cpp\<close>. \<open>fp_\<close> is the name of the open file or
  \<open>None\<close> for the null pointer. Clock readings and the outcomes of \<open>fopen\<close> and \<open>fwrite\<close> are parameters;
  every operation returns the calls it makes on the standard I/O library.
\<close>

datatype file_call = FOpen bytes bool | FWrite bytes bytes | FFlush bytes | FClose bytes

record LogFile =
  lf_basename :: bytes
  lf_rollSize :: nat
  lf_writtenBytes :: nat
  lf_fp :: "bytes option"
  lf_lastDay :: nat

text \<open>The outcomes of one call of \<open>rollFile\<close>: the two readings of the clock and whether \<open>fopen\<close> succeeds; of
  one \<open>append\<close>: its clock reading, those of the roll it may do, and how much \<open>fwrite\<close> takes.\<close>

record roll_env =
  re_name :: tm
  re_day :: tm
  re_opens :: bool

record append_env =
  ae_now :: tm
  ae_roll :: roll_env
  ae_takes :: nat

definition LogFile_getLogFileName :: "bytes \<Rightarrow> tm \<Rightarrow> bytes" where
  "LogFile_getLogFileName basename t =
     basename @ (''.'' @ pad 4 (tm_year t + 1900) @ pad 2 (tm_mon t + 1) @ pad 2 (tm_mday t) @ ''-''
       @ pad 2 (tm_hour t) @ pad 2 (tm_min t) @ pad 2 (tm_sec t) @ ''.'') @ ''log''"

definition LogFile_rollFile :: "roll_env \<Rightarrow> LogFile \<Rightarrow> LogFile \<times> file_call list" where
  "LogFile_rollFile env f =
     (let filename = LogFile_getLogFileName (lf_basename f) (re_name env)
      in (f\<lparr>lf_fp := (if re_opens env then Some filename else None), lf_writtenBytes := 0,
            lf_lastDay := tm_mday (re_day env)\<rparr>,
          (case lf_fp f of Some fp \<Rightarrow> [FClose fp] | None \<Rightarrow> []) @ [FOpen filename (re_opens env)]))"

definition LogFile_new :: "roll_env \<Rightarrow> bytes \<Rightarrow> nat \<Rightarrow> LogFile \<times> file_call list" where
  "LogFile_new env basename rollSize =
     LogFile_rollFile env
       \<lparr>lf_basename = basename, lf_rollSize = rollSize, lf_writtenBytes = 0, lf_fp = None, lf_lastDay = 0\<rparr>"

definition LogFile_destroy :: "LogFile \<Rightarrow> file_call list" where
  "LogFile_destroy f = (case lf_fp f of Some fp \<Rightarrow> [FClose fp] | None \<Rightarrow> [])"

definition LogFile_append :: "append_env \<Rightarrow> bytes \<Rightarrow> LogFile \<Rightarrow> LogFile \<times> file_call list" where
  "LogFile_append env logline f =
     (case lf_fp f of
        None \<Rightarrow> (f, [])
      | Some _ \<Rightarrow>
          let currentDay = tm_mday (ae_now env);
              (f1, calls) =
                (if currentDay \<noteq> lf_lastDay f then LogFile_rollFile (ae_roll env) f
                 else if lf_rollSize f < lf_writtenBytes f then LogFile_rollFile (ae_roll env) f
                 else (f, []))
          in case lf_fp f1 of
               None \<Rightarrow> (f1, calls)
             | Some fp \<Rightarrow>
                 let written = min (ae_takes env) (length logline)
                 in (f1\<lparr>lf_writtenBytes := lf_writtenBytes f1 + written\<rparr>,
                     calls @ [FWrite fp (take written logline)]))"

definition LogFile_flush :: "LogFile \<Rightarrow> file_call list" where
  "LogFile_flush f = (case lf_fp f of Some fp \<Rightarrow> [FFlush fp] | None \<Rightarrow> [])"

section \<open>What reaches the files\<close>

text \<open>The bytes written, over all files; the size of one file, by its name, and how often it is opened (files are opened for
  appending, and their names have a resolution of one second).\<close>

fun file_bytes :: "file_call list \<Rightarrow> bytes" where
  "file_bytes [] = []"
| "file_bytes (FWrite _ d # cs) = d @ file_bytes cs"
| "file_bytes (_ # cs) = file_bytes cs"

fun file_size :: "bytes \<Rightarrow> file_call list \<Rightarrow> nat" where
  "file_size n [] = 0"
| "file_size n (FWrite m d # cs) = (if m = n then length d else 0) + file_size n cs"
| "file_size n (_ # cs) = file_size n cs"

fun open_count :: "bytes \<Rightarrow> file_call list \<Rightarrow> nat" where
  "open_count n [] = 0"
| "open_count n (FOpen m success # cs) = (if m = n then 1 else 0) + open_count n cs"
| "open_count n (_ # cs) = open_count n cs"

text \<open>Is every call made on the file that is open at that time, and what is open at the end?\<close>

fun opened :: "bytes option \<Rightarrow> file_call list \<Rightarrow> bytes option option" where
  "opened cur [] = Some cur"
| "opened cur (FOpen n success # cs) =
     (if cur = None then opened (if success then Some n else None) cs else None)"
| "opened cur (FWrite n d # cs) = (if cur = Some n then opened cur cs else None)"
| "opened cur (FFlush n # cs) = (if cur = Some n then opened cur cs else None)"
| "opened cur (FClose n # cs) = (if cur = Some n then opened None cs else None)"

text \<open>The largest number of bytes written between two opens, and the bytes written since the last one.\<close>

fun peak :: "nat \<Rightarrow> file_call list \<Rightarrow> nat" where
  "peak k [] = k"
| "peak k (FWrite _ d # cs) = peak (k + length d) cs"
| "peak k (FOpen _ _ # cs) = max k (peak 0 cs)"
| "peak k (_ # cs) = peak k cs"

fun since_open :: "nat \<Rightarrow> file_call list \<Rightarrow> nat" where
  "since_open k [] = k"
| "since_open k (FWrite _ d # cs) = since_open (k + length d) cs"
| "since_open k (FOpen _ _ # cs) = since_open 0 cs"
| "since_open k (_ # cs) = since_open k cs"

fun LogFile_appends :: "(append_env \<times> bytes) list \<Rightarrow> LogFile \<Rightarrow> LogFile \<times> file_call list" where
  "LogFile_appends [] f = (f, [])"
| "LogFile_appends ((env, l) # ls) f =
     (let (f1, calls1) = LogFile_append env l f; (f2, calls2) = LogFile_appends ls f1
      in (f2, calls1 @ calls2))"

lemma file_bytes_append [simp]: "file_bytes (xs @ ys) = file_bytes xs @ file_bytes ys"
  by (induction xs rule: file_bytes.induct) simp_all

lemma opened_append: "opened cur (xs @ ys) = Option.bind (opened cur xs) (\<lambda>c. opened c ys)"
  by (induction xs arbitrary: cur rule: file_bytes.induct) auto

lemma since_open_append: "since_open k (xs @ ys) = since_open (since_open k xs) ys"
  by (induction xs arbitrary: k rule: file_bytes.induct) auto

lemma peak_ge: "k \<le> peak k cs"
proof (induction k cs rule: peak.induct)
  case (2 k n d cs)
  then show ?case by simp
qed auto

lemma peak_append: "peak k (xs @ ys) = max (peak k xs) (peak (since_open k xs) ys)"
  by (induction xs arbitrary: k rule: file_bytes.induct) (auto simp: max_absorb2 peak_ge)

lemma file_size_opens:
  assumes "opened cur cs = Some fin" "peak k cs \<le> B"
  shows "file_size n cs \<le> open_count n cs * B + (if cur = Some n then B - k else 0)"
  using assms
proof (induction cur cs arbitrary: k rule: opened.induct)
  case (3 cur m d cs)
  then have "cur = Some m" "opened cur cs = Some fin" "peak (k + length d) cs \<le> B" by (simp_all split: if_splits)
  with 3(1) [of "k + length d"] peak_ge [of "k + length d" cs] show ?case by (auto split: if_splits)
next
  case (2 cur m success cs)
  then have "opened (if success then Some m else None) cs = Some fin" "peak 0 cs \<le> B" by (simp_all split: if_splits)
  with 2(1) [of 0] 2(2) show ?case by (auto split: if_splits)
next
  case (5 cur m cs)
  then have "opened None cs = Some fin" "peak k cs \<le> B" by (simp_all split: if_splits)
  with 5(1) [of k] 5(2) show ?case by (auto split: if_splits)
qed (auto split: if_splits)

definition append_ok :: "append_env \<times> bytes \<Rightarrow> bool" where
  "append_ok e \<longleftrightarrow> re_opens (ae_roll (fst e)) \<and> length (snd e) \<le> ae_takes (fst e)"

lemma LogFile_append_correct:
  assumes "lf_fp f = Some fp"
  shows "let (f', calls) = LogFile_append env l f in
    opened (Some fp) calls = Some (lf_fp f')
    \<and> since_open (lf_writtenBytes f) calls = lf_writtenBytes f'
    \<and> peak (lf_writtenBytes f) calls \<le> max (lf_writtenBytes f) (lf_rollSize f + length l)
    \<and> lf_rollSize f' = lf_rollSize f
    \<and> (append_ok (env, l) \<longrightarrow> lf_fp f' \<noteq> None \<and> file_bytes calls = l)"
  using assms
  by (auto simp: LogFile_append_def LogFile_rollFile_def Let_def append_ok_def)

text \<open>A file that could not be opened is never tried again: every later record is dropped.\<close>

lemma closed_file_drops_all: "lf_fp f = None \<Longrightarrow> LogFile_appends ls f = (f, [])"
  by (induction ls) (auto simp: LogFile_append_def)

lemma LogFile_appends_correct:
  assumes "\<forall>(env, l) \<in> set ls. length l \<le> L" "LogFile_appends ls f = (f', calls)"
  shows "opened (lf_fp f) calls = Some (lf_fp f')
    \<and> since_open (lf_writtenBytes f) calls = lf_writtenBytes f'
    \<and> peak (lf_writtenBytes f) calls \<le> max (lf_writtenBytes f) (lf_rollSize f + L)
    \<and> lf_rollSize f' = lf_rollSize f
    \<and> (lf_fp f \<noteq> None \<longrightarrow> list_all append_ok ls \<longrightarrow> lf_fp f' \<noteq> None \<and> file_bytes calls = concat (map snd ls))"
  using assms
proof (induction ls arbitrary: f f' calls)
  case (Cons e ls)
  obtain env l where e: "e = (env, l)" by (cases e)
  show ?case
  proof (cases "lf_fp f")
    case None
    with Cons.prems(2) closed_file_drops_all [OF None, of "e # ls"] show ?thesis by simp
  next
    case (Some fp)
    obtain f1 c1 where 1: "LogFile_append env l f = (f1, c1)" by fastforce
    obtain f2 c2 where 2: "LogFile_appends ls f1 = (f2, c2)" by fastforce
    have calls: "f' = f2" "calls = c1 @ c2" using Cons.prems(2) 1 2 e by simp_all
    have l: "length l \<le> L" using Cons.prems(1) e by simp
    from LogFile_append_correct [OF Some, of env l] 1 have a:
      "opened (Some fp) c1 = Some (lf_fp f1)" "since_open (lf_writtenBytes f) c1 = lf_writtenBytes f1"
      "peak (lf_writtenBytes f) c1 \<le> max (lf_writtenBytes f) (lf_rollSize f + length l)" "lf_rollSize f1 = lf_rollSize f"
      "append_ok (env, l) \<Longrightarrow> lf_fp f1 \<noteq> None \<and> file_bytes c1 = l" by simp_all
    have w1: "lf_writtenBytes f1 \<le> max (lf_writtenBytes f) (lf_rollSize f + L)"
    proof -
      have "since_open k cs \<le> peak k cs" for k cs
        by (induction k cs rule: peak.induct) auto
      from this [of "lf_writtenBytes f" c1] a(2,3) l show ?thesis by linarith
    qed
    from Cons.IH [OF _ 2] Cons.prems(1) have b:
      "opened (lf_fp f1) c2 = Some (lf_fp f2)" "since_open (lf_writtenBytes f1) c2 = lf_writtenBytes f2"
      "peak (lf_writtenBytes f1) c2 \<le> max (lf_writtenBytes f1) (lf_rollSize f1 + L)" "lf_rollSize f2 = lf_rollSize f1"
      "lf_fp f1 \<noteq> None \<Longrightarrow> list_all append_ok ls \<Longrightarrow> lf_fp f2 \<noteq> None \<and> file_bytes c2 = concat (map snd ls)" by simp_all
    have "peak (lf_writtenBytes f) calls \<le> max (lf_writtenBytes f) (lf_rollSize f + L)"
      unfolding calls(2) peak_append a(2) using a(3,4) b(3) w1 l by linarith
    moreover have "opened (lf_fp f) calls = Some (lf_fp f')" by (simp add: calls opened_append Some a(1) b(1))
    moreover have "since_open (lf_writtenBytes f) calls = lf_writtenBytes f'"
      by (simp add: calls since_open_append a(2) b(2))
    moreover have "lf_fp f' \<noteq> None \<and> file_bytes calls = concat (map snd (e # ls))" if "list_all append_ok (e # ls)"
      using that a(5) b(5) by (simp add: calls e)
    ultimately show ?thesis using a(4) b(4) calls(1) by simp
  qed
qed simp

section \<open>Properties\<close>

text \<open>C28. Rolling: whatever the clock says and whichever opens and writes fail, every write, flush and close is
  made on the file that is open at that moment, nothing is left open after the destructor, and a file
  holds at most the roll size plus the longest record for each time it was opened: one that is opened once, because no second roll
  falls into the same second, stays within the roll size plus one record. When opens and writes succeed, the
  files together hold exactly the records, in order: rolling loses nothing.\<close>

theorem LogFile_rolls:
  assumes "LogFile_new env0 basename rollSize = (f0, calls0)" "LogFile_appends ls f0 = (f1, calls)"
    and "\<forall>(env, l) \<in> set ls. length l \<le> L"
  shows "opened None (calls0 @ calls @ LogFile_flush f1 @ LogFile_destroy f1) = Some None
    \<and> file_size name (calls0 @ calls) \<le> open_count name (calls0 @ calls) * (rollSize + L)
    \<and> (re_opens env0 \<longrightarrow> list_all append_ok ls \<longrightarrow> file_bytes (calls0 @ calls) = concat (map snd ls))"
proof -
  have new: "opened None calls0 = Some (lf_fp f0)" "since_open 0 calls0 = 0" "peak 0 calls0 = 0" "file_bytes calls0 = []"
    "lf_writtenBytes f0 = 0" "lf_rollSize f0 = rollSize" "re_opens env0 \<Longrightarrow> lf_fp f0 \<noteq> None"
    using assms(1) by (auto simp: LogFile_new_def LogFile_rollFile_def Let_def)
  note c = LogFile_appends_correct [OF assms(3,2)]
  have "opened (lf_fp f1) (LogFile_flush f1 @ LogFile_destroy f1) = Some None"
    by (cases "lf_fp f1") (simp_all add: LogFile_flush_def LogFile_destroy_def)
  then have "opened None (calls0 @ calls @ LogFile_flush f1 @ LogFile_destroy f1) = Some None"
    using new(1) c by (simp add: opened_append)
  moreover have "peak 0 (calls0 @ calls) \<le> rollSize + L" using new c by (simp add: peak_append)
  then have "file_size name (calls0 @ calls) \<le> open_count name (calls0 @ calls) * (rollSize + L)"
    using file_size_opens [of None "calls0 @ calls" "lf_fp f1" 0 "rollSize + L" name] new(1) c by (simp add: opened_append)
  ultimately show ?thesis using new(4,7) c by simp
qed

text \<open>The second record is written to a file of the next second.\<close>

theorem LogFile_rolls_witness:
  "\<exists>f0 calls0 f1 calls. LogFile_new \<lparr>re_name = epoch, re_day = epoch, re_opens = True\<rparr> ''log'' 4 = (f0, calls0)
     \<and> LogFile_appends (replicate 2 (\<lparr>ae_now = epoch, ae_roll = \<lparr>re_name = epoch\<lparr>tm_sec := 1\<rparr>, re_day = epoch, re_opens = True\<rparr>,
           ae_takes = 5\<rparr>, ''hello'')) f0 = (f1, calls)
     \<and> file_bytes (calls0 @ calls) = ''hellohello'' \<and> open_count ''log.19700101-000000.log'' (calls0 @ calls) = 1
     \<and> file_size ''log.19700101-000000.log'' (calls0 @ calls) \<le> 9"
proof -
  let ?env = "\<lparr>re_name = epoch, re_day = epoch, re_opens = True\<rparr>" and ?name = "''log.19700101-000000.log''"
  let ?roll = "\<lparr>re_name = epoch\<lparr>tm_sec := 1\<rparr>, re_day = epoch, re_opens = True\<rparr>"
  let ?ls = "replicate 2 (\<lparr>ae_now = epoch, ae_roll = ?roll, ae_takes = 5\<rparr>, ''hello'')"
  obtain f0 calls0 where n: "LogFile_new ?env ''log'' 4 = (f0, calls0)" by fastforce
  obtain f1 calls where a: "LogFile_appends ?ls f0 = (f1, calls)" by fastforce
  have "open_count ?name (snd (LogFile_new ?env ''log'' 4) @ snd (LogFile_appends ?ls (fst (LogFile_new ?env ''log'' 4)))) = 1"
    by code_simp
  then have one: "open_count ?name (calls0 @ calls) = 1" using n a by simp
  from LogFile_rolls [OF n a, of 5 ?name] n a one show ?thesis
    by (intro exI [of _ f0] exI [of _ calls0] exI [of _ f1] exI [of _ calls])
      (simp add: append_ok_def numeral_2_eq_2)
qed

section \<open>Behaviours to know about\<close>

text \<open>Rolls within one second open the same file again, for appending: it grows past the roll size without bound. Here
  three records of five bytes end in one file with roll size 4.\<close>

lemma rolls_within_a_second_grow_one_file:
  "let env = \<lparr>re_name = epoch, re_day = epoch, re_opens = True\<rparr>; (f0, calls0) = LogFile_new env ''log'' 4;
       (f1, calls) = LogFile_appends (replicate 3 (\<lparr>ae_now = epoch, ae_roll = env, ae_takes = 5\<rparr>, ''hello'')) f0
   in file_size ''log.19700101-000000.log'' (calls0 @ calls) = 15"
  by code_simp

end
