(* ===== verification/AsyncLogging.thy ===== *)
theory AsyncLogging
  imports LogFile ThreadPool
begin

text \<open>
  The double-buffered back end of the logger: \<open>src/src/base/AsyncLogging.h\<close> and \<open>AsyncLogging.cpp\<close>.
  A \<open>BufferPtr\<close> is the buffer it owns or \<open>None\<close> when it is null or moved from; dereferencing a null
  pointer and taking the back of an empty vector are \<open>None\<close> results. The producers, the writer
  thread and the thread that stops it interleave in \<open>log_step\<close>, whose steps are the critical
  sections under \<open>mutex_\<close>, the test of the atomic \<open>running_\<close> and the writer's work outside the lock.
  The writer's wait can end at any time: by a notification, by the timeout, or spuriously.
\<close>

section \<open>State and operations\<close>

type_synonym BufferPtr = "FixedBuffer option"

record AsyncLogging =
  al_currentBuffer :: BufferPtr
  al_nextBuffer :: BufferPtr
  al_buffers :: "BufferPtr list"
  al_running :: bool
  al_thread :: Thread
  al_basename :: bytes
  al_flushInterval :: int

definition AsyncLogging_new :: "bytes \<Rightarrow> bytes \<Rightarrow> int \<Rightarrow> bytes \<Rightarrow> int \<Rightarrow> AsyncLogging" where
  "AsyncLogging_new storage1 storage2 num basename flushInterval =
     \<lparr>al_currentBuffer = Some (FixedBuffer_bzero (FixedBuffer_new storage1)),
      al_nextBuffer = Some (FixedBuffer_bzero (FixedBuffer_new storage2)),
      al_buffers = [], al_running = False, al_thread = snd (Thread_new num ''AsyncLogging''),
      al_basename = basename, al_flushInterval = flushInterval\<rparr>"

definition AsyncLogging_start :: "AsyncLogging \<Rightarrow> AsyncLogging" where
  "AsyncLogging_start a = a\<lparr>al_running := True, al_thread := Thread_start (al_thread a)\<rparr>"

text \<open>\<open>stop\<close> up to the join, and whether it then joins the thread.\<close>

definition AsyncLogging_stop :: "AsyncLogging \<Rightarrow> AsyncLogging \<times> bool" where
  "AsyncLogging_stop a = (a\<lparr>al_running := False\<rparr>, th_started (al_thread a))"

text \<open>The destructor, and whether it joins the thread.\<close>

definition AsyncLogging_destroy :: "AsyncLogging \<Rightarrow> AsyncLogging \<times> bool" where
  "AsyncLogging_destroy a = (if al_running a then AsyncLogging_stop a else (a, False))"

text \<open>\<open>append\<close>: the new state and whether it notifies the writer; \<open>fresh\<close> is the storage of a new buffer.\<close>

definition AsyncLogging_append :: "bytes \<Rightarrow> bytes \<Rightarrow> AsyncLogging \<Rightarrow> (AsyncLogging \<times> bool) option" where
  "AsyncLogging_append fresh logline a =
     (case al_currentBuffer a of
        None \<Rightarrow> None
      | Some cur \<Rightarrow>
          if int (length logline) < FixedBuffer_avail cur
          then Some (a\<lparr>al_currentBuffer := Some (FixedBuffer_append logline cur)\<rparr>, False)
          else
            let a1 = a\<lparr>al_buffers := al_buffers a @ [al_currentBuffer a], al_currentBuffer := None\<rparr>;
                a2 = (if al_nextBuffer a1 \<noteq> None
                      then a1\<lparr>al_currentBuffer := al_nextBuffer a1, al_nextBuffer := None\<rparr>
                      else a1\<lparr>al_currentBuffer := Some (FixedBuffer_new fresh)\<rparr>)
            in map_option (\<lambda>b. (a2\<lparr>al_currentBuffer := Some (FixedBuffer_append logline b)\<rparr>, True))
                 (al_currentBuffer a2))"

text \<open>The locals of \<open>threadFunc\<close>.\<close>

record log_worker =
  wk_newBuffer1 :: BufferPtr
  wk_newBuffer2 :: BufferPtr
  wk_buffersToWrite :: "BufferPtr list"
  wk_output :: LogFile

definition threadFunc_begin :: "bytes \<Rightarrow> bytes \<Rightarrow> roll_env \<Rightarrow> AsyncLogging \<Rightarrow> log_worker \<times> file_call list" where
  "threadFunc_begin storage1 storage2 env a =
     (let (output, calls) = LogFile_new env (al_basename a) (50 * 1024 * 1024)
      in (\<lparr>wk_newBuffer1 = Some (FixedBuffer_bzero (FixedBuffer_new storage1)),
           wk_newBuffer2 = Some (FixedBuffer_bzero (FixedBuffer_new storage2)),
           wk_buffersToWrite = [], wk_output = output\<rparr>, calls))"

text \<open>The assertions at the top of the loop.\<close>

definition empty_buffer :: "BufferPtr \<Rightarrow> bool" where
  "empty_buffer p \<longleftrightarrow> (case p of Some b \<Rightarrow> FixedBuffer_length b = 0 | None \<Rightarrow> False)"

definition threadFunc_asserts :: "log_worker \<Rightarrow> bool" where
  "threadFunc_asserts w \<longleftrightarrow>
     empty_buffer (wk_newBuffer1 w) \<and> empty_buffer (wk_newBuffer2 w) \<and> wk_buffersToWrite w = []"

text \<open>The critical section, from the end of the wait.\<close>

definition threadFunc_swap :: "AsyncLogging \<Rightarrow> log_worker \<Rightarrow> AsyncLogging \<times> log_worker" where
  "threadFunc_swap a w =
     (let filled = al_buffers a @ [al_currentBuffer a];
          a1 = a\<lparr>al_currentBuffer := wk_newBuffer1 w, al_buffers := wk_buffersToWrite w\<rparr>;
          w1 = w\<lparr>wk_newBuffer1 := None, wk_buffersToWrite := filled\<rparr>
      in if al_nextBuffer a1 = None
         then (a1\<lparr>al_nextBuffer := wk_newBuffer2 w1\<rparr>, w1\<lparr>wk_newBuffer2 := None\<rparr>)
         else (a1, w1))"

text \<open>One iteration of the loop that writes the buffers.\<close>

definition threadFunc_write :: "append_env \<Rightarrow> BufferPtr \<Rightarrow> log_worker \<Rightarrow> (log_worker \<times> file_call list) option" where
  "threadFunc_write env buffer w =
     map_option (\<lambda>b.
         let (output, calls) = LogFile_append env (FixedBuffer_content b) (wk_output w)
         in (w\<lparr>wk_output := output\<rparr>, calls))
       buffer"

text \<open>Taking a buffer back from the written ones.\<close>

definition reuse_buffer :: "BufferPtr list \<Rightarrow> (BufferPtr \<times> BufferPtr list) option" where
  "reuse_buffer bs =
     (if bs = [] then None
      else case last bs of None \<Rightarrow> None | Some b \<Rightarrow> Some (Some (FixedBuffer_reset b), butlast bs))"

definition threadFunc_recycle :: "log_worker \<Rightarrow> log_worker option" where
  "threadFunc_recycle w =
     (let bs = (if 2 < length (wk_buffersToWrite w) then take 2 (wk_buffersToWrite w) else wk_buffersToWrite w) in
      do {
        (new1, bs1) \<leftarrow> (if wk_newBuffer1 w = None then reuse_buffer bs else Some (wk_newBuffer1 w, bs));
        (new2, bs2) \<leftarrow> (if wk_newBuffer2 w = None then reuse_buffer bs1 else Some (wk_newBuffer2 w, bs1));
        Some (w\<lparr>wk_newBuffer1 := new1, wk_newBuffer2 := new2, wk_buffersToWrite := []\<rparr>)
      })"

section \<open>Producers, writer and stopper\<close>

datatype writer_pc =
    NotStarted | Spawned | WriterTest log_worker | WriterLock log_worker | WriterWaits log_worker
  | WriterWrites log_worker "BufferPtr list" | WriterRecycles log_worker | WriterEnded

text \<open>\<open>as_lines\<close> are the records passed to \<open>append\<close>, \<open>as_taken\<close> the bytes handed to the log file,
  \<open>as_calls\<close> the calls made on files, \<open>as_files_ok\<close> whether all of those succeeded so far.\<close>

record log_sys =
  as_log :: AsyncLogging
  as_pc :: writer_pc
  as_lines :: "bytes list"
  as_taken :: bytes
  as_calls :: "file_call list"
  as_files_ok :: bool

datatype log_event =
    LStart | LBegin bytes bytes roll_env | LAppend bytes bytes | LStop | LTest | LLock | LWaitEnds
  | LWrite append_env | LRecycle

inductive log_step :: "log_sys \<Rightarrow> log_event \<Rightarrow> log_sys \<Rightarrow> bool" where
  log_start: "as_pc s = NotStarted \<Longrightarrow>
    log_step s LStart (s\<lparr>as_log := AsyncLogging_start (as_log s), as_pc := Spawned\<rparr>)"
| log_begin: "as_pc s = Spawned \<Longrightarrow> length storage1 = kLargeBuffer \<Longrightarrow> length storage2 = kLargeBuffer \<Longrightarrow>
    threadFunc_begin storage1 storage2 env (as_log s) = (w, calls) \<Longrightarrow>
    log_step s (LBegin storage1 storage2 env)
      (s\<lparr>as_pc := WriterTest w, as_calls := as_calls s @ calls, as_files_ok := as_files_ok s \<and> re_opens env\<rparr>)"
| log_append: "length fresh = kLargeBuffer \<Longrightarrow> AsyncLogging_append fresh logline (as_log s) = Some (a, notify) \<Longrightarrow>
    log_step s (LAppend fresh logline) (s\<lparr>as_log := a, as_lines := as_lines s @ [logline]\<rparr>)"
| log_stop: "log_step s LStop (s\<lparr>as_log := fst (AsyncLogging_stop (as_log s))\<rparr>)"
| test_running: "as_pc s = WriterTest w \<Longrightarrow> al_running (as_log s) \<Longrightarrow>
    log_step s LTest (s\<lparr>as_pc := WriterLock w\<rparr>)"
| test_ended: "as_pc s = WriterTest w \<Longrightarrow> \<not> al_running (as_log s) \<Longrightarrow>
    log_step s LTest (s\<lparr>as_pc := WriterEnded, as_calls := as_calls s @ LogFile_destroy (wk_output w)\<rparr>)"
| lock_waits: "as_pc s = WriterLock w \<Longrightarrow> al_buffers (as_log s) = [] \<Longrightarrow>
    log_step s LLock (s\<lparr>as_pc := WriterWaits w\<rparr>)"
| lock_swaps: "as_pc s = WriterLock w \<Longrightarrow> al_buffers (as_log s) \<noteq> [] \<Longrightarrow>
    threadFunc_swap (as_log s) w = (a, w') \<Longrightarrow>
    log_step s LLock (s\<lparr>as_log := a, as_pc := WriterWrites w' (wk_buffersToWrite w')\<rparr>)"
| wait_ends: "as_pc s = WriterWaits w \<Longrightarrow> threadFunc_swap (as_log s) w = (a, w') \<Longrightarrow>
    log_step s LWaitEnds (s\<lparr>as_log := a, as_pc := WriterWrites w' (wk_buffersToWrite w')\<rparr>)"
| write_one: "as_pc s = WriterWrites w (Some b # rest) \<Longrightarrow>
    threadFunc_write env (Some b) w = Some (w', calls) \<Longrightarrow>
    log_step s (LWrite env)
      (s\<lparr>as_pc := WriterWrites w' rest, as_taken := as_taken s @ FixedBuffer_content b,
         as_calls := as_calls s @ calls,
         as_files_ok := as_files_ok s \<and> append_ok (env, FixedBuffer_content b)\<rparr>)"
| writes_done: "as_pc s = WriterWrites w [] \<Longrightarrow>
    log_step s LRecycle
      (s\<lparr>as_pc := WriterRecycles w, as_calls := as_calls s @ LogFile_flush (wk_output w)\<rparr>)"
| recycles: "as_pc s = WriterRecycles w \<Longrightarrow> threadFunc_recycle w = Some w' \<Longrightarrow>
    log_step s LRecycle (s\<lparr>as_pc := WriterTest w'\<rparr>)"

definition log_init :: "bytes \<Rightarrow> bytes \<Rightarrow> int \<Rightarrow> bytes \<Rightarrow> int \<Rightarrow> log_sys" where
  "log_init storage1 storage2 num basename flushInterval =
     \<lparr>as_log = AsyncLogging_new storage1 storage2 num basename flushInterval, as_pc = NotStarted,
      as_lines = [], as_taken = [], as_calls = [], as_files_ok = True\<rparr>"

section \<open>Invariant\<close>

definition large_ok :: "FixedBuffer \<Rightarrow> bool" where
  "large_ok b \<longleftrightarrow> FixedBuffer_ok b \<and> length (fb_data b) = kLargeBuffer"

definition ptr_ok :: "BufferPtr \<Rightarrow> bool" where
  "ptr_ok p \<longleftrightarrow> (case p of Some b \<Rightarrow> large_ok b | None \<Rightarrow> False)"

definition spare_ok :: "BufferPtr \<Rightarrow> bool" where
  "spare_ok p \<longleftrightarrow> (case p of Some b \<Rightarrow> large_ok b \<and> fb_cur b = 0 | None \<Rightarrow> False)"

definition ptr_content :: "BufferPtr \<Rightarrow> bytes" where
  "ptr_content p = (case p of Some b \<Rightarrow> FixedBuffer_content b | None \<Rightarrow> [])"

definition front_ok :: "AsyncLogging \<Rightarrow> bool" where
  "front_ok a \<longleftrightarrow> ptr_ok (al_currentBuffer a) \<and> (al_nextBuffer a = None \<or> spare_ok (al_nextBuffer a))
     \<and> (al_nextBuffer a = None \<longrightarrow> al_buffers a \<noteq> []) \<and> list_all ptr_ok (al_buffers a)"

definition idle_ok :: "log_worker \<Rightarrow> bool" where
  "idle_ok w \<longleftrightarrow> spare_ok (wk_newBuffer1 w) \<and> spare_ok (wk_newBuffer2 w) \<and> wk_buffersToWrite w = []"

definition busy_ok :: "log_worker \<Rightarrow> bool" where
  "busy_ok w \<longleftrightarrow> wk_newBuffer1 w = None \<and> wk_buffersToWrite w \<noteq> [] \<and> list_all ptr_ok (wk_buffersToWrite w)
     \<and> (if wk_newBuffer2 w = None then 2 \<le> length (wk_buffersToWrite w) else spare_ok (wk_newBuffer2 w))"

fun pc_ok :: "writer_pc \<Rightarrow> bool" where
  "pc_ok (WriterTest w) \<longleftrightarrow> idle_ok w"
| "pc_ok (WriterLock w) \<longleftrightarrow> idle_ok w"
| "pc_ok (WriterWaits w) \<longleftrightarrow> idle_ok w"
| "pc_ok (WriterWrites w rest) \<longleftrightarrow> busy_ok w \<and> list_all ptr_ok rest"
| "pc_ok (WriterRecycles w) \<longleftrightarrow> busy_ok w"
| "pc_ok _ \<longleftrightarrow> True"

fun pc_pending :: "writer_pc \<Rightarrow> bytes" where
  "pc_pending (WriterWrites w rest) = concat (map ptr_content rest)"
| "pc_pending _ = []"

fun pc_output :: "writer_pc \<Rightarrow> LogFile option" where
  "pc_output (WriterTest w) = Some (wk_output w)"
| "pc_output (WriterLock w) = Some (wk_output w)"
| "pc_output (WriterWaits w) = Some (wk_output w)"
| "pc_output (WriterWrites w rest) = Some (wk_output w)"
| "pc_output (WriterRecycles w) = Some (wk_output w)"
| "pc_output _ = None"

definition front_content :: "AsyncLogging \<Rightarrow> bytes" where
  "front_content a = concat (map ptr_content (al_buffers a)) @ ptr_content (al_currentBuffer a)"

text \<open>The records that fit into a buffer at all.\<close>

definition kept_lines :: "bytes list \<Rightarrow> bytes" where
  "kept_lines ls = concat (filter (\<lambda>l. length l < kLargeBuffer) ls)"

definition log_ok :: "log_sys \<Rightarrow> bool" where
  "log_ok s \<longleftrightarrow> front_ok (as_log s) \<and> pc_ok (as_pc s)
     \<and> as_taken s @ pc_pending (as_pc s) @ front_content (as_log s) = kept_lines (as_lines s)
     \<and> (as_files_ok s \<longrightarrow> file_bytes (as_calls s) = as_taken s
          \<and> (\<forall>f. pc_output (as_pc s) = Some f \<longrightarrow> lf_fp f \<noteq> None))"

lemma large_ok_new: "length storage = kLargeBuffer \<Longrightarrow> large_ok (FixedBuffer_new storage) \<and> fb_cur (FixedBuffer_new storage) = 0"
  by (simp add: large_ok_def FixedBuffer_ok_def FixedBuffer_new_def kLargeBuffer_def)

lemma spare_ok_bzero: "length storage = kLargeBuffer \<Longrightarrow> spare_ok (Some (FixedBuffer_bzero (FixedBuffer_new storage)))"
  using large_ok_new [of storage]
  by (simp add: spare_ok_def large_ok_def FixedBuffer_ok_def FixedBuffer_bzero_def)

lemma spare_ptr_ok: "spare_ok p \<Longrightarrow> ptr_ok p"
  by (cases p) (simp_all add: spare_ok_def ptr_ok_def)

lemma spare_content: "spare_ok p \<Longrightarrow> ptr_content p = []"
  by (cases p) (simp_all add: spare_ok_def ptr_content_def FixedBuffer_content_def)

lemma kept_lines_snoc:
  "kept_lines (ls @ [l]) = kept_lines ls @ (if length l < kLargeBuffer then l else [])"
  by (simp add: kept_lines_def)

text \<open>Appending into a buffer that is large enough, and into an empty one.\<close>

lemma large_append:
  assumes "large_ok b"
  shows "large_ok (FixedBuffer_append l b)"
    and "int (length l) < FixedBuffer_avail b \<Longrightarrow> FixedBuffer_content (FixedBuffer_append l b) = FixedBuffer_content b @ l"
    and "int (length l) < FixedBuffer_avail b \<Longrightarrow> length l < kLargeBuffer"
    and "fb_cur b = 0 \<Longrightarrow> FixedBuffer_content (FixedBuffer_append l b) = (if length l < kLargeBuffer then l else [])"
  using assms FixedBuffer_append_correct [of b l]
  by (auto simp: large_ok_def FixedBuffer_avail_def FixedBuffer_content_def)

text \<open>A record goes behind everything appended before; only one that fits into no buffer is dropped.\<close>

lemma append_front:
  assumes "front_ok a" "length fresh = kLargeBuffer"
  obtains a' notify where "AsyncLogging_append fresh l a = Some (a', notify)" "front_ok a'"
    "front_content a' = front_content a @ (if length l < kLargeBuffer then l else [])"
proof -
  from assms(1) obtain cur where cur: "al_currentBuffer a = Some cur" "large_ok cur"
    by (cases "al_currentBuffer a") (auto simp: front_ok_def ptr_ok_def)
  show ?thesis
  proof (cases "int (length l) < FixedBuffer_avail cur")
    case True
    show ?thesis
    proof (rule that)
      show "AsyncLogging_append fresh l a = Some (a\<lparr>al_currentBuffer := Some (FixedBuffer_append l cur)\<rparr>, False)"
        using True cur(1) by (simp add: AsyncLogging_append_def)
    qed (use assms(1) True large_append [OF cur(2), of l] cur(1) in
        \<open>simp_all add: front_ok_def ptr_ok_def front_content_def ptr_content_def\<close>)
  next
    case False
    obtain b where b: "large_ok b" "fb_cur b = 0"
      "(if al_nextBuffer a \<noteq> None then al_nextBuffer a else Some (FixedBuffer_new fresh)) = Some b"
      using assms(1) large_ok_new [OF assms(2)]
      by (cases "al_nextBuffer a") (auto simp: front_ok_def spare_ok_def)
    let ?a = "a\<lparr>al_buffers := al_buffers a @ [al_currentBuffer a], al_currentBuffer := Some (FixedBuffer_append l b),
      al_nextBuffer := None\<rparr>"
    show ?thesis
    proof (rule that)
      show "AsyncLogging_append fresh l a = Some (?a, True)"
        using False cur(1) b(3) by (cases "al_nextBuffer a") (simp_all add: AsyncLogging_append_def Let_def)
      show "front_ok ?a"
        using assms(1) cur large_append(1) [OF b(1)] by (simp add: front_ok_def ptr_ok_def)
      show "front_content ?a = front_content a @ (if length l < kLargeBuffer then l else [])"
        using large_append(4) [OF b(1,2)] by (simp add: front_content_def ptr_content_def)
    qed
  qed
qed

text \<open>The swap takes everything from the front and leaves it two empty buffers.\<close>

lemma swap_ok:
  assumes "front_ok a" "idle_ok w" "threadFunc_swap a w = (a', w')"
  shows "front_ok a'" "busy_ok w'" "front_content a' = []" "wk_output w' = wk_output w"
    and "concat (map ptr_content (wk_buffersToWrite w')) = front_content a" "list_all ptr_ok (wk_buffersToWrite w')"
proof -
  have f: "ptr_ok (al_currentBuffer a)" "al_nextBuffer a = None \<or> spare_ok (al_nextBuffer a)"
    "al_nextBuffer a = None \<longrightarrow> al_buffers a \<noteq> []" "list_all ptr_ok (al_buffers a)"
    using assms(1) by (simp_all add: front_ok_def)
  have i: "spare_ok (wk_newBuffer1 w)" "spare_ok (wk_newBuffer2 w)" "wk_buffersToWrite w = []"
    using assms(2) by (simp_all add: idle_ok_def)
  then have n: "wk_newBuffer2 w \<noteq> None" by (cases "wk_newBuffer2 w") (simp_all add: spare_ok_def)
  have "2 \<le> Suc (length (al_buffers a))" if "al_nextBuffer a = None"
    using that f(3) by (cases "al_buffers a") simp_all
  then show "front_ok a'" "busy_ok w'" "front_content a' = []" "wk_output w' = wk_output w"
    "concat (map ptr_content (wk_buffersToWrite w')) = front_content a" "list_all ptr_ok (wk_buffersToWrite w')"
    using assms(3) f i n spare_ptr_ok [OF i(1)] spare_content [OF i(1)]
    by (auto simp: threadFunc_swap_def Let_def front_ok_def busy_ok_def front_content_def split: if_splits)
qed

lemma reuse_ok:
  assumes "bs \<noteq> []" "list_all ptr_ok bs"
  obtains p where "reuse_buffer bs = Some (p, butlast bs)" "spare_ok p"
proof -
  have "ptr_ok (last bs)" using assms by (simp add: list_all_iff)
  then obtain b where "last bs = Some b" "large_ok b" by (cases "last bs") (auto simp: ptr_ok_def)
  with assms(1) show ?thesis
    by (intro that [of "Some (FixedBuffer_reset b)"])
      (simp_all add: reuse_buffer_def spare_ok_def large_ok_def FixedBuffer_ok_def FixedBuffer_reset_def)
qed

text \<open>Enough buffers come back for the two the next turn needs.\<close>

lemma recycle_ok:
  assumes "busy_ok w"
  obtains w' where "threadFunc_recycle w = Some w'" "idle_ok w'" "wk_output w' = wk_output w"
proof -
  let ?all = "wk_buffersToWrite w"
  let ?bs = "if 2 < length ?all then take 2 ?all else ?all"
  have w: "wk_newBuffer1 w = None" "?all \<noteq> []" "list_all ptr_ok ?all"
    "wk_newBuffer2 w = None \<Longrightarrow> 2 \<le> length ?all" "wk_newBuffer2 w \<noteq> None \<Longrightarrow> spare_ok (wk_newBuffer2 w)"
    using assms by (auto simp: busy_ok_def split: if_splits)
  have bs: "?bs \<noteq> []" "list_all ptr_ok ?bs" using w(2,3) by (auto simp: list_all_iff dest: in_set_takeD)
  from reuse_ok [OF this] obtain p where p: "reuse_buffer ?bs = Some (p, butlast ?bs)" "spare_ok p" .
  show ?thesis
  proof (cases "wk_newBuffer2 w = None")
    case False
    then obtain y where "wk_newBuffer2 w = Some y" by blast
    with p w(1,5) show ?thesis
      by (intro that [of "w\<lparr>wk_newBuffer1 := p, wk_newBuffer2 := wk_newBuffer2 w, wk_buffersToWrite := []\<rparr>"])
        (simp_all add: threadFunc_recycle_def Let_def idle_ok_def)
  next
    case True
    have "length ?bs = 2" using w(4) [OF True] by auto
    then have "butlast ?bs \<noteq> []" by (metis diff_Suc_1 length_butlast list.size(3) numeral_2_eq_2 zero_neq_one One_nat_def)
    moreover have "list_all ptr_ok (butlast ?bs)" using bs(2) by (auto simp: list_all_iff dest: in_set_butlastD)
    ultimately obtain q where "reuse_buffer (butlast ?bs) = Some (q, butlast (butlast ?bs))" "spare_ok q"
      by (rule reuse_ok)
    with True p w(1) show ?thesis
      by (intro that [of "w\<lparr>wk_newBuffer1 := p, wk_newBuffer2 := q, wk_buffersToWrite := []\<rparr>"])
        (simp_all add: threadFunc_recycle_def Let_def idle_ok_def)
  qed
qed

lemma append_ok_calls:
  assumes "append_ok (env, l)" "lf_fp f = Some fp" "LogFile_append env l f = (f', calls)"
  shows "lf_fp f' \<noteq> None \<and> file_bytes calls = l"
  using LogFile_append_correct [OF assms(2), of env l] assms(1,3) by simp

lemma file_bytes_end [simp]: "file_bytes (LogFile_destroy f) = []" "file_bytes (LogFile_flush f) = []"
  by (simp_all add: LogFile_destroy_def LogFile_flush_def split: option.splits)

lemma log_step_ok:
  assumes ok: "log_ok s" and step: "log_step s e s'"
  shows "log_ok s'"
  using step
proof cases
  case log_start
  with ok show ?thesis by (simp add: log_ok_def AsyncLogging_start_def front_ok_def front_content_def)
next
  case (log_begin storage1 storage2 env w calls)
  have "idle_ok w" "file_bytes calls = []" "re_opens env \<Longrightarrow> lf_fp (wk_output w) \<noteq> None"
    using log_begin(4-6) spare_ok_bzero [OF log_begin(4)] spare_ok_bzero [OF log_begin(5)]
    by (auto simp: threadFunc_begin_def LogFile_new_def LogFile_rollFile_def Let_def idle_ok_def)
  with ok log_begin(2,3) show ?thesis by (simp add: log_ok_def)
next
  case (log_append fresh logline a notify)
  have "front_ok (as_log s)" using ok by (simp add: log_ok_def)
  then obtain a' n where "AsyncLogging_append fresh logline (as_log s) = Some (a', n)" "front_ok a'"
    "front_content a' = front_content (as_log s) @ (if length logline < kLargeBuffer then logline else [])"
    using log_append(3) by (rule append_front)
  moreover from this(1) log_append(4) have "a' = a" by simp
  ultimately show ?thesis using ok unfolding log_append(2)
    by (simp add: log_ok_def kept_lines_snoc flip: append_assoc)
next
  case log_stop
  with ok show ?thesis by (simp add: log_ok_def AsyncLogging_stop_def front_ok_def front_content_def)
next
  case (lock_swaps w a w')
  have "front_ok (as_log s)" "idle_ok w" using ok lock_swaps(3) by (simp_all add: log_ok_def)
  from swap_ok [OF this lock_swaps(5)] ok lock_swaps(2,3) show ?thesis by (simp add: log_ok_def)
next
  case (wait_ends w a w')
  have "front_ok (as_log s)" "idle_ok w" using ok wait_ends(3) by (simp_all add: log_ok_def)
  from swap_ok [OF this wait_ends(4)] ok wait_ends(2,3) show ?thesis by (simp add: log_ok_def)
next
  case (write_one w b rest env w' calls)
  obtain f' where f': "LogFile_append env (FixedBuffer_content b) (wk_output w) = (f', calls)" "w' = w\<lparr>wk_output := f'\<rparr>"
    using write_one(4) by (auto simp: threadFunc_write_def split: prod.splits)
  have "lf_fp f' \<noteq> None \<and> file_bytes calls = FixedBuffer_content b"
    if "append_ok (env, FixedBuffer_content b)" "lf_fp (wk_output w) \<noteq> None"
    using append_ok_calls [OF that(1) _ f'(1)] that(2) by blast
  with ok write_one(2,3) f'(2) show ?thesis by (auto simp: log_ok_def busy_ok_def ptr_content_def)
next
  case (recycles w w')
  have "busy_ok w" using ok recycles(3) by (simp add: log_ok_def)
  then obtain v where "threadFunc_recycle w = Some v" "idle_ok v" "wk_output v = wk_output w" by (rule recycle_ok)
  with ok recycles(2-4) show ?thesis by (simp add: log_ok_def)
qed (use ok in \<open>auto simp: log_ok_def\<close>)

interpretation async: step_invariant log_step log_ok
  by unfold_locales (rule log_step_ok)

lemma log_init_ok:
  assumes "length storage1 = kLargeBuffer" "length storage2 = kLargeBuffer"
  shows "log_ok (log_init storage1 storage2 num basename flushInterval)"
  using spare_ok_bzero [OF assms(1)] spare_ok_bzero [OF assms(2)]
    spare_ptr_ok [OF spare_ok_bzero [OF assms(1)]] spare_content [OF spare_ok_bzero [OF assms(1)]]
  by (simp add: log_ok_def log_init_def AsyncLogging_new_def front_ok_def front_content_def kept_lines_def)

lemma log_run_ok:
  "length storage1 = kLargeBuffer \<Longrightarrow> length storage2 = kLargeBuffer \<Longrightarrow>
   run log_step (log_init storage1 storage2 num basename flushInterval) es s \<Longrightarrow> log_ok s"
  using async.inv_run log_init_ok by blast

section \<open>A turn of the writer\<close>

lemma write_all:
  assumes "as_pc s = WriterWrites w rest" "list_all ptr_ok rest" "busy_ok w"
  shows "\<exists>s' w'. run log_step s (replicate (length rest) (LWrite env)) s' \<and> as_pc s' = WriterWrites w' []
    \<and> busy_ok w' \<and> as_taken s' = as_taken s @ concat (map ptr_content rest) \<and> as_log s' = as_log s
    \<and> as_lines s' = as_lines s"
  using assms
proof (induction rest arbitrary: s w)
  case Nil
  then show ?case by (auto intro: run.intros)
next
  case (Cons p rest)
  then obtain b where p: "p = Some b" by (cases p) (auto simp: ptr_ok_def)
  obtain f calls where f: "LogFile_append env (FixedBuffer_content b) (wk_output w) = (f, calls)" by fastforce
  let ?w = "w\<lparr>wk_output := f\<rparr>"
  let ?s = "s\<lparr>as_pc := WriterWrites ?w rest, as_taken := as_taken s @ FixedBuffer_content b,
    as_calls := as_calls s @ calls, as_files_ok := as_files_ok s \<and> append_ok (env, FixedBuffer_content b)\<rparr>"
  have step: "log_step s (LWrite env) ?s"
  proof (rule write_one)
    show "as_pc s = WriterWrites w (Some b # rest)" using Cons.prems(1) p by simp
    show "threadFunc_write env (Some b) w = Some (?w, calls)"
      unfolding threadFunc_write_def option.map f Let_def prod.case ..
  qed
  have "busy_ok ?w" using Cons.prems(3) by (simp add: busy_ok_def)
  with Cons.IH [of ?s ?w] Cons.prems(2) obtain s' w' where
    "run log_step ?s (replicate (length rest) (LWrite env)) s'" "as_pc s' = WriterWrites w' []" "busy_ok w'"
    "as_taken s' = as_taken ?s @ concat (map ptr_content rest)" "as_log s' = as_log s" "as_lines s' = as_lines s"
    by auto
  with step p show ?case
    by (intro exI [of _ s'] exI [of _ w']) (auto simp: ptr_content_def [of "Some b"] intro: run.intros)
qed

lemma writer_turn:
  assumes "log_ok s" "as_pc s = WriterLock w"
  shows "\<exists>s' w'. run log_step s
      ((if al_buffers (as_log s) = [] then [LLock, LWaitEnds] else [LLock])
       @ replicate (Suc (length (al_buffers (as_log s)))) (LWrite env) @ [LRecycle, LRecycle]) s'
    \<and> as_pc s' = WriterTest w' \<and> as_taken s' = as_taken s @ front_content (as_log s)"
proof -
  let ?n = "Suc (length (al_buffers (as_log s)))"
  have ok: "front_ok (as_log s)" "idle_ok w" using assms by (simp_all add: log_ok_def)
  obtain a w1 where sw: "threadFunc_swap (as_log s) w = (a, w1)" by fastforce
  note swapped = swap_ok [OF ok sw]
  have n: "length (wk_buffersToWrite w1) = ?n" using sw by (auto simp: threadFunc_swap_def Let_def split: if_splits)
  define evs where "evs = (if al_buffers (as_log s) = [] then [LLock, LWaitEnds] else [LLock])"
  obtain s1 where s1: "run log_step s evs s1"
    "as_pc s1 = WriterWrites w1 (wk_buffersToWrite w1)" "as_taken s1 = as_taken s"
  proof (cases "al_buffers (as_log s) = []")
    case True
    let ?m = "s\<lparr>as_pc := WriterWaits w\<rparr>"
    have "log_step s LLock ?m" by (rule lock_waits [OF assms(2) True])
    moreover have "log_step ?m LWaitEnds (?m\<lparr>as_log := a, as_pc := WriterWrites w1 (wk_buffersToWrite w1)\<rparr>)"
      by (rule wait_ends) (use sw in simp_all)
    ultimately have "run log_step s [LLock, LWaitEnds] (?m\<lparr>as_log := a, as_pc := WriterWrites w1 (wk_buffersToWrite w1)\<rparr>)"
      by (blast intro: run.intros)
    moreover have "evs = [LLock, LWaitEnds]" using True by (simp add: evs_def)
    ultimately show ?thesis
      using that [of "?m\<lparr>as_log := a, as_pc := WriterWrites w1 (wk_buffersToWrite w1)\<rparr>"] by simp
  next
    case False
    have "log_step s LLock (s\<lparr>as_log := a, as_pc := WriterWrites w1 (wk_buffersToWrite w1)\<rparr>)"
      by (rule lock_swaps [OF assms(2) False sw])
    then have "run log_step s [LLock] (s\<lparr>as_log := a, as_pc := WriterWrites w1 (wk_buffersToWrite w1)\<rparr>)"
      by (blast intro: run.intros)
    moreover have "evs = [LLock]" using False by (simp add: evs_def)
    ultimately show ?thesis
      using that [of "s\<lparr>as_log := a, as_pc := WriterWrites w1 (wk_buffersToWrite w1)\<rparr>"] by simp
  qed
  from write_all [OF s1(2) swapped(6,2), of env] obtain s2 w2 where
    s2: "run log_step s1 (replicate ?n (LWrite env)) s2" "as_pc s2 = WriterWrites w2 []" "busy_ok w2"
      "as_taken s2 = as_taken s @ front_content (as_log s)"
    using swapped(5) s1(3) n by auto
  from recycle_ok [OF s2(3)] obtain w3 where w3: "threadFunc_recycle w2 = Some w3" by blast
  let ?s3 = "s2\<lparr>as_pc := WriterRecycles w2, as_calls := as_calls s2 @ LogFile_flush (wk_output w2)\<rparr>"
  have "log_step s2 LRecycle ?s3" by (rule writes_done [OF s2(2)])
  moreover have "log_step ?s3 LRecycle (?s3\<lparr>as_pc := WriterTest w3\<rparr>)" by (rule recycles) (use w3 in simp_all)
  ultimately have "run log_step s2 [LRecycle, LRecycle] (?s3\<lparr>as_pc := WriterTest w3\<rparr>)" by (auto intro: run.intros)
  from run_append [OF s1(1) run_append [OF s2(1) this]] s2(4) show ?thesis
    unfolding evs_def by (intro exI [of _ "?s3\<lparr>as_pc := WriterTest w3\<rparr>"] exI [of _ w3]) simp
qed

section \<open>Properties\<close>

text \<open>C25. No record is lost, duplicated or reordered on its way: in every interleaving of producers, the writer
  and a stop, the bytes handed to the log file, followed by the buffers the writer still has to
  write and the ones in front, are exactly the records appended so far (those that fit into a buffer
  at all), in the order of their appends; and as long as the files accept what they are given, the
  bytes written to them are those handed over.\<close>

theorem AsyncLogging_integrity:
  assumes "length storage1 = kLargeBuffer" "length storage2 = kLargeBuffer"
    and "run log_step (log_init storage1 storage2 num basename flushInterval) es s"
  shows "as_taken s @ pc_pending (as_pc s) @ front_content (as_log s) =
           concat (filter (\<lambda>l. length l < kLargeBuffer) (as_lines s))
       \<and> (as_files_ok s \<longrightarrow> file_bytes (as_calls s) = as_taken s)"
  using log_run_ok [OF assms] by (simp add: log_ok_def kept_lines_def)

theorem AsyncLogging_integrity_witness:
  "\<exists>s. run log_step (log_init (replicate kLargeBuffer NUL) (replicate kLargeBuffer NUL) 0 ''log'' 3)
       [LAppend (replicate kLargeBuffer NUL) ''hello''] s
     \<and> as_taken s @ pc_pending (as_pc s) @ front_content (as_log s) = ''hello''"
proof -
  let ?st = "replicate kLargeBuffer NUL"
  let ?s0 = "log_init ?st ?st 0 ''log'' 3"
  have l: "length ?st = kLargeBuffer" by simp
  have "front_ok (as_log ?s0)" using log_init_ok [OF l l] by (simp add: log_ok_def)
  from append_front [OF this l, of "''hello''"] obtain a n where
    "AsyncLogging_append ?st ''hello'' (as_log ?s0) = Some (a, n)" by blast
  from log_append [OF l this] have r: "run log_step ?s0 [LAppend ?st ''hello'']
      (?s0\<lparr>as_log := a, as_lines := as_lines ?s0 @ [''hello'']\<rparr>)" by (auto intro: run.intros)
  have "as_lines (?s0\<lparr>as_log := a, as_lines := as_lines ?s0 @ [''hello'']\<rparr>) = [''hello'']"
    by (simp add: log_init_def)
  with AsyncLogging_integrity [OF l l r] r show ?thesis by (intro exI conjI) (assumption, simp add: kLargeBuffer_def)
qed

text \<open>C26. The logger never fails inside: in every interleaving a producer finds a current buffer, the writer's
  assertions hold at the top of its loop (two empty spare buffers, nothing left to write), it never
  dereferences a moved-from buffer, and enough written buffers come back to refill its spares.\<close>

theorem AsyncLogging_never_fails:
  assumes "length storage1 = kLargeBuffer" "length storage2 = kLargeBuffer"
    and "run log_step (log_init storage1 storage2 num basename flushInterval) es s"
  shows "(\<forall>fresh logline. length fresh = kLargeBuffer \<longrightarrow> AsyncLogging_append fresh logline (as_log s) \<noteq> None)
    \<and> (\<forall>w. as_pc s = WriterLock w \<longrightarrow> threadFunc_asserts w)
    \<and> (\<forall>w p rest env. as_pc s = WriterWrites w (p # rest) \<longrightarrow> threadFunc_write env p w \<noteq> None)
    \<and> (\<forall>w. as_pc s = WriterRecycles w \<longrightarrow> threadFunc_recycle w \<noteq> None)"
proof (intro conjI allI impI)
  have ok: "front_ok (as_log s)" "pc_ok (as_pc s)" using log_run_ok [OF assms] by (simp_all add: log_ok_def)
  show "AsyncLogging_append fresh logline (as_log s) \<noteq> None" if "length fresh = kLargeBuffer" for fresh logline
    using append_front [OF ok(1) that, of logline] by (metis option.discI)
  show "threadFunc_asserts w" if "as_pc s = WriterLock w" for w
    using ok(2) that unfolding threadFunc_asserts_def empty_buffer_def
    by (auto simp: idle_ok_def spare_ok_def FixedBuffer_length_def split: option.splits)
  show "threadFunc_write env p w \<noteq> None" if "as_pc s = WriterWrites w (p # rest)" for w p rest env
    using ok(2) that by (auto simp: threadFunc_write_def ptr_ok_def split: option.splits)
  show "threadFunc_recycle w \<noteq> None" if "as_pc s = WriterRecycles w" for w
    using ok(2) that recycle_ok [of w] by (metis option.discI pc_ok.simps(5))
qed

theorem AsyncLogging_never_fails_witness:
  "AsyncLogging_append (replicate kLargeBuffer NUL) ''x''
     (as_log (log_init (replicate kLargeBuffer NUL) (replicate kLargeBuffer NUL) 0 ''log'' 3)) \<noteq> None"
proof -
  let ?st = "replicate kLargeBuffer NUL"
  have l: "length ?st = kLargeBuffer" by simp
  from AsyncLogging_never_fails [OF l l run_nil, of 0 "''log''" 3] l show ?thesis by blast
qed

text \<open>C27. A turn of the writer writes everything: from any reachable state in which the writer is about to take
  the lock, its steps up to the next test of \<open>running_\<close> (lock, wait if there is no full buffer, swap, one
  write per buffer, recycle) can all be taken, and hand to the log file every record appended before (that fits
  into a buffer at all).\<close>

theorem AsyncLogging_turn_writes_all:
  assumes "length storage1 = kLargeBuffer" "length storage2 = kLargeBuffer"
    and "run log_step (log_init storage1 storage2 num basename flushInterval) es s" "as_pc s = WriterLock w"
  shows "\<exists>s' w'. run log_step s
      ((if al_buffers (as_log s) = [] then [LLock, LWaitEnds] else [LLock])
       @ replicate (Suc (length (al_buffers (as_log s)))) (LWrite env) @ [LRecycle, LRecycle]) s'
    \<and> as_pc s' = WriterTest w'
    \<and> as_taken s' = concat (filter (\<lambda>l. length l < kLargeBuffer) (as_lines s))"
proof -
  have ok: "log_ok s" by (rule log_run_ok [OF assms(1-3)])
  then have "as_taken s @ front_content (as_log s) = kept_lines (as_lines s)"
    using assms(4) by (simp add: log_ok_def)
  with writer_turn [OF ok assms(4), of env] show ?thesis by (simp add: kept_lines_def)
qed

text \<open>A run up to the first test of \<open>running_\<close>, with one record appended.\<close>

definition one_record :: "log_event list" where
  "one_record = [LStart, LBegin (replicate kLargeBuffer NUL) (replicate kLargeBuffer NUL)
      \<lparr>re_name = epoch, re_day = epoch, re_opens = True\<rparr>, LAppend (replicate kLargeBuffer NUL) ''hello'']"

lemma one_record_run:
  obtains s w where "run log_step (log_init (replicate kLargeBuffer NUL) (replicate kLargeBuffer NUL) 0 ''log'' 3) one_record s"
    "as_pc s = WriterTest w" "al_running (as_log s)" "as_lines s = [''hello'']" "as_taken s = []"
proof -
  let ?st = "replicate kLargeBuffer NUL" and ?env = "\<lparr>re_name = epoch, re_day = epoch, re_opens = True\<rparr>"
  let ?s0 = "log_init ?st ?st 0 ''log'' 3"
  have l: "length ?st = kLargeBuffer" by simp
  let ?s1 = "?s0\<lparr>as_log := AsyncLogging_start (as_log ?s0), as_pc := Spawned\<rparr>"
  have 1: "log_step ?s0 LStart ?s1" by (rule log_start) (simp add: log_init_def)
  obtain w calls where w: "threadFunc_begin ?st ?st ?env (as_log ?s1) = (w, calls)" by fastforce
  let ?s2 = "?s1\<lparr>as_pc := WriterTest w, as_calls := as_calls ?s1 @ calls, as_files_ok := as_files_ok ?s1 \<and> re_opens ?env\<rparr>"
  have 2: "log_step ?s1 (LBegin ?st ?st ?env) ?s2" by (rule log_begin [OF _ l l w]) simp
  have "log_ok ?s1" by (rule log_step_ok [OF log_init_ok [OF l l] 1])
  then have "front_ok (as_log ?s2)" by (simp add: log_ok_def)
  from append_front [OF this l, of "''hello''"] obtain a n where
    a: "AsyncLogging_append ?st ''hello'' (as_log ?s2) = Some (a, n)" by blast
  let ?s3 = "?s2\<lparr>as_log := a, as_lines := as_lines ?s2 @ [''hello'']\<rparr>"
  have 3: "log_step ?s2 (LAppend ?st ''hello'') ?s3" by (rule log_append [OF l a])
  have "run log_step ?s0 one_record ?s3" unfolding one_record_def 
    by (rule run_cons [of log_step, OF 1 run_cons [of log_step, OF 2 run_cons [of log_step, OF 3 run_nil]]])
  moreover have "al_running a"
    using a by (auto simp: AsyncLogging_append_def AsyncLogging_start_def Let_def split: option.splits if_splits)
  moreover have "as_lines ?s3 = [''hello'']" "as_taken ?s3 = []" by (simp_all add: log_init_def)
  ultimately show ?thesis using that [of ?s3 w] by simp
qed

theorem AsyncLogging_turn_writes_all_witness:
  "\<exists>s s'. run log_step (log_init (replicate kLargeBuffer NUL) (replicate kLargeBuffer NUL) 0 ''log'' 3) (one_record @ [LTest]) s
     \<and> run log_step s
        ((if al_buffers (as_log s) = [] then [LLock, LWaitEnds] else [LLock])
         @ replicate (Suc (length (al_buffers (as_log s))))
             (LWrite \<lparr>ae_now = epoch, ae_roll = \<lparr>re_name = epoch, re_day = epoch, re_opens = True\<rparr>, ae_takes = 9\<rparr>)
         @ [LRecycle, LRecycle]) s'
     \<and> as_taken s' = ''hello''"
proof -
  let ?st = "replicate kLargeBuffer NUL"
  let ?env = "\<lparr>ae_now = epoch, ae_roll = \<lparr>re_name = epoch, re_day = epoch, re_opens = True\<rparr>, ae_takes = 9\<rparr>"
  obtain s w where s: "run log_step (log_init ?st ?st 0 ''log'' 3) one_record s" "as_pc s = WriterTest w"
    "al_running (as_log s)" "as_lines s = [''hello'']" by (rule one_record_run)
  let ?s = "s\<lparr>as_pc := WriterLock w\<rparr>"
  have r: "run log_step (log_init ?st ?st 0 ''log'' 3) (one_record @ [LTest]) ?s"
    by (rule run_snoc [OF s(1)]) (rule test_running [OF s(2,3)])
  have l: "length ?st = kLargeBuffer" and "as_pc ?s = WriterLock w" by simp_all
  from AsyncLogging_turn_writes_all [OF l l r this(2), of ?env] obtain s' where
    r2: "run log_step ?s ((if al_buffers (as_log ?s) = [] then [LLock, LWaitEnds] else [LLock])
       @ replicate (Suc (length (al_buffers (as_log ?s)))) (LWrite ?env) @ [LRecycle, LRecycle]) s'"
    and taken: "as_taken s' = concat (filter (\<lambda>l. length l < kLargeBuffer) (as_lines ?s))" by blast
  have "concat (filter (\<lambda>l. length l < kLargeBuffer) (as_lines ?s)) = ''hello''"
    by (simp add: s(4) kLargeBuffer_def)
  with taken have "as_taken s' = ''hello''" by simp
  from conjI [OF r conjI [OF r2 this]] show ?thesis by (intro exI)
qed

section \<open>Behaviours to know about\<close>

text \<open>\<open>stop\<close> does not flush: the writer tests \<open>running_\<close> before it looks at the buffers, so records appended
  since its last swap are lost when it ends.\<close>

lemma stop_drops_records:
  "\<exists>s. run log_step (log_init (replicate kLargeBuffer NUL) (replicate kLargeBuffer NUL) 0 ''log'' 3)
       (one_record @ [LStop, LTest]) s
     \<and> as_pc s = WriterEnded \<and> as_lines s = [''hello''] \<and> as_taken s = []"
proof -
  let ?st = "replicate kLargeBuffer NUL"
  obtain s w where s: "run log_step (log_init ?st ?st 0 ''log'' 3) one_record s" "as_pc s = WriterTest w"
    "as_lines s = [''hello'']" "as_taken s = []" by (rule one_record_run)
  let ?s1 = "s\<lparr>as_log := fst (AsyncLogging_stop (as_log s))\<rparr>"
  let ?s2 = "?s1\<lparr>as_pc := WriterEnded, as_calls := as_calls ?s1 @ LogFile_destroy (wk_output w)\<rparr>"
  have "log_step ?s1 LTest ?s2" by (rule test_ended) (simp_all add: s(2) AsyncLogging_stop_def)
  from run_cons [of log_step, OF log_stop [of s] run_cons [of log_step, OF this run_nil]]
  have "run log_step s [LStop, LTest] ?s2" .
  from run_append [OF s(1) this] s(3,4) show ?thesis by (intro exI [of _ ?s2]) simp
qed

text \<open>A record of at least the size of a buffer is dropped silently.\<close>

lemma huge_record_dropped: "kLargeBuffer \<le> length l \<Longrightarrow> kept_lines (ls @ [l]) = kept_lines ls"
  by (simp add: kept_lines_snoc)

end
