(* ===== verification/WebChat.thy ===== *)
theory WebChat
  imports TcpServer HttpParser AsyncLogging
begin

text \<open>
  The application: \<open>src/main.cpp\<close>. The server object keeps the set of connections, their timers and one
  HTTP parser per connection; connections are the addresses of the server's heap. A callback returns
  the new state and what it does to connections and timers, in order. The outcome of
  \<open>conn->connected()\<close> is an argument: the callbacks of a connection run on its loop, where only they change it.
  The id a timer gets from \<open>runAfter\<close> is an argument too.
\<close>

section \<open>The page\<close>

definition g_chat_html :: bytes where
  "g_chat_html =
     [CHR 0x0A]
     @ ''<!DOCTYPE html>'' @ [CHR 0x0A]
     @ ''<html>'' @ [CHR 0x0A]
     @ ''<head>'' @ [CHR 0x0A]
     @ ''    <meta charset='' @ [CHR 0x22] @ ''UTF-8'' @ [CHR 0x22] @ ''>'' @ [CHR 0x0A]
     @ ''    <title>LunaNet WebChat</title>'' @ [CHR 0x0A]
     @ ''</head>'' @ [CHR 0x0A]
     @ ''<body style='' @ [CHR 0x22] @ ''font-family: Arial, sans-serif; background-color: #f4f4f9; padding: 20px;'' @ [CHR 0x22] @ ''>'' @ [CHR 0x0A]
     @ ''    <h2 style='' @ [CHR 0x22] @ ''color: #333;'' @ [CHR 0x22] @ ''>'' @ [CHR 0xF0, CHR 0x9F, CHR 0x9A, CHR 0x80] @ '' LunaNet '' @ [CHR 0xE7, CHR 0x94, CHR 0x9F, CHR 0xE4, CHR 0xBA, CHR 0xA7, CHR 0xE7, CHR 0xBA, CHR 0xA7] @ '' WebChat '' @ [CHR 0xE6, CHR 0xBC, CHR 0x94, CHR 0xE7, CHR 0xA4, CHR 0xBA] @ ''</h2>'' @ [CHR 0x0A]
     @ ''    <div id='' @ [CHR 0x22] @ ''chat-box'' @ [CHR 0x22] @ '' style='' @ [CHR 0x22] @ ''height:400px; border:1px solid #ccc; overflow-y:scroll; background:white; padding:10px; border-radius: 8px;'' @ [CHR 0x22] @ ''></div>'' @ [CHR 0x0A]
     @ ''    <div style='' @ [CHR 0x22] @ ''margin-top: 15px;'' @ [CHR 0x22] @ ''>'' @ [CHR 0x0A]
     @ ''        <input type='' @ [CHR 0x22] @ ''text'' @ [CHR 0x22] @ '' id='' @ [CHR 0x22] @ ''msg-input'' @ [CHR 0x22] @ '' placeholder='' @ [CHR 0x22, CHR 0xE8, CHR 0xBE, CHR 0x93, CHR 0xE5, CHR 0x85, CHR 0xA5, CHR 0xE8, CHR 0x81, CHR 0x8A, CHR 0xE5, CHR 0xA4, CHR 0xA9, CHR 0xE5, CHR 0x86, CHR 0x85, CHR 0xE5, CHR 0xAE, CHR 0xB9] @ ''...'' @ [CHR 0x22] @ '' style='' @ [CHR 0x22] @ ''width:70%; padding: 10px; border-radius: 4px; border: 1px solid #ccc;'' @ [CHR 0x22] @ ''>'' @ [CHR 0x0A]
     @ ''        <button onclick='' @ [CHR 0x27] @ ''sendMsg()'' @ [CHR 0x27] @ '' style='' @ [CHR 0x22] @ ''padding: 10px 20px; background-color: #007BFF; color: white; border: none; border-radius: 4px; cursor: pointer;'' @ [CHR 0x22] @ ''>'' @ [CHR 0xE5, CHR 0x8F, CHR 0x91, CHR 0xE9, CHR 0x80, CHR 0x81] @ ''</button>'' @ [CHR 0x0A]
     @ ''    </div>'' @ [CHR 0x0A]
     @ ''    <script>'' @ [CHR 0x0A]
     @ ''        function sendMsg() {'' @ [CHR 0x0A]
     @ ''            const input = document.getElementById('' @ [CHR 0x27] @ ''msg-input'' @ [CHR 0x27] @ '');'' @ [CHR 0x0A]
     @ ''            const val = input.value;'' @ [CHR 0x0A]
     @ ''            if(!val) return;'' @ [CHR 0x0A]
     @ ''            fetch('' @ [CHR 0x27] @ ''/chat'' @ [CHR 0x27] @ '', { method: '' @ [CHR 0x27] @ ''POST'' @ [CHR 0x27] @ '', body: val });'' @ [CHR 0x0A]
     @ [CHR 0x0A]
     @ ''            const box = document.getElementById('' @ [CHR 0x27] @ ''chat-box'' @ [CHR 0x27] @ '');'' @ [CHR 0x0A]
     @ ''            box.innerHTML += '' @ [CHR 0x27] @ ''<div style='' @ [CHR 0x22] @ ''margin-bottom:8px;'' @ [CHR 0x22] @ ''><b>'' @ [CHR 0xE6, CHR 0x88, CHR 0x91] @ '':</b> '' @ [CHR 0x27] @ '' + val + '' @ [CHR 0x27] @ ''</div>'' @ [CHR 0x27] @ '';'' @ [CHR 0x0A]
     @ ''            box.scrollTop = box.scrollHeight;'' @ [CHR 0x0A]
     @ ''            input.value = '' @ [CHR 0x27, CHR 0x27] @ '';'' @ [CHR 0x0A]
     @ ''        }'' @ [CHR 0x0A]
     @ ''    </script>'' @ [CHR 0x0A]
     @ ''</body>'' @ [CHR 0x0A]
     @ ''</html>'' @ [CHR 0x0A]"

section \<open>State\<close>

record ConnectionTimers =
  ct_idleTimer :: TimerId
  ct_forceCloseTimer :: TimerId

definition ConnectionTimers_new :: ConnectionTimers where
  "ConnectionTimers_new = \<lparr>ct_idleTimer = 0, ct_forceCloseTimer = 0\<rparr>"

record WebChatServer =
  wc_connections :: "conn_ptr set"
  wc_idleTimers :: "conn_ptr \<rightharpoonup> ConnectionTimers"
  wc_parsers :: "conn_ptr \<rightharpoonup> HttpParser"

datatype chat_timer = IdleTimeout | ForceCloseTimeout

datatype chat_effect =
    ChatSend conn_ptr bytes | ChatShutdown conn_ptr | ChatForceClose conn_ptr
  | ChatCancel conn_ptr TimerId | ChatRunAfter conn_ptr TimerId f64 chat_timer

definition WebChatServer_state :: WebChatServer where
  "WebChatServer_state = \<lparr>wc_connections = {}, wc_idleTimers = Map.empty, wc_parsers = Map.empty\<rparr>"

text \<open>The constructor, with the listening server it configures.\<close>

definition WebChatServer_new ::
    "(32 word \<Rightarrow> bytes) \<Rightarrow> loop_ptr \<Rightarrow> fd \<Rightarrow> bool \<Rightarrow> InetAddress \<Rightarrow> (WebChatServer \<times> TcpServer) option" where
  "WebChatServer_new inet_ntop loop fd bound listenAddr =
     map_option (\<lambda>s. (WebChatServer_state, TcpServer_setThreadNum 4 (TcpServer_setCallbacks True True False False s)))
       (TcpServer_new inet_ntop loop fd bound listenAddr ''WebChatServer'')"

section \<open>Timers\<close>

definition fifteen_seconds :: f64 where "fifteen_seconds = Finite 15 0"

definition WebChatServer_refreshIdleTimer ::
    "bool \<Rightarrow> TimerId \<Rightarrow> conn_ptr \<Rightarrow> WebChatServer \<Rightarrow> WebChatServer \<times> chat_effect list" where
  "WebChatServer_refreshIdleTimer isConnected newTimer conn w =
     (if \<not> isConnected then (w, [])
      else case wc_idleTimers w conn of
             None \<Rightarrow> (w, [])
           | Some t \<Rightarrow>
               (w\<lparr>wc_idleTimers := (wc_idleTimers w)(conn \<mapsto> t\<lparr>ct_idleTimer := newTimer\<rparr>)\<rparr>,
                (if ct_idleTimer t \<noteq> 0 then [ChatCancel conn (ct_idleTimer t)] else [])
                @ [ChatRunAfter conn newTimer fifteen_seconds IdleTimeout]))"

definition WebChatServer_handleIdleTimeout ::
    "bool \<Rightarrow> TimerId \<Rightarrow> conn_ptr \<Rightarrow> WebChatServer \<Rightarrow> WebChatServer \<times> chat_effect list" where
  "WebChatServer_handleIdleTimeout isConnected newTimer conn w =
     (if \<not> isConnected then (w, [])
      else case wc_idleTimers w conn of
             None \<Rightarrow> (w, [ChatShutdown conn])
           | Some t \<Rightarrow>
               (w\<lparr>wc_idleTimers :=
                    (wc_idleTimers w)(conn \<mapsto> t\<lparr>ct_idleTimer := 0, ct_forceCloseTimer := newTimer\<rparr>)\<rparr>,
                [ChatShutdown conn, ChatRunAfter conn newTimer fifteen_seconds ForceCloseTimeout]))"

definition WebChatServer_handleForceCloseTimeout ::
    "bool \<Rightarrow> conn_ptr \<Rightarrow> WebChatServer \<Rightarrow> WebChatServer \<times> chat_effect list" where
  "WebChatServer_handleForceCloseTimeout isDisconnected conn w =
     (case wc_idleTimers w conn of
        None \<Rightarrow> (w, [])
      | Some t \<Rightarrow>
          (w\<lparr>wc_idleTimers := (wc_idleTimers w)(conn \<mapsto> t\<lparr>ct_forceCloseTimer := 0\<rparr>)\<rparr>,
           if \<not> isDisconnected then [ChatForceClose conn] else []))"

section \<open>Connections\<close>

definition WebChatServer_onConnection ::
    "bool \<Rightarrow> TimerId \<Rightarrow> conn_ptr \<Rightarrow> WebChatServer \<Rightarrow> WebChatServer \<times> chat_effect list" where
  "WebChatServer_onConnection isConnected newTimer conn w =
     (let (w1, idleTimer, forceCloseTimer) =
            (if isConnected then
               (w\<lparr>wc_connections := insert conn (wc_connections w),
                  wc_idleTimers := (wc_idleTimers w)(conn \<mapsto> ConnectionTimers_new)\<rparr>, 0, 0)
             else
               let w0 = w\<lparr>wc_connections := wc_connections w - {conn}\<rparr>
               in case wc_idleTimers w0 conn of
                    None \<Rightarrow> (w0, 0, 0)
                  | Some t \<Rightarrow> (w0\<lparr>wc_idleTimers := (wc_idleTimers w0)(conn := None)\<rparr>,
                               ct_idleTimer t, ct_forceCloseTimer t));
          cancels = (if idleTimer \<noteq> 0 then [ChatCancel conn idleTimer] else [])
                    @ (if forceCloseTimer \<noteq> 0 then [ChatCancel conn forceCloseTimer] else []);
          (w2, refreshed) =
            (if isConnected then WebChatServer_refreshIdleTimer isConnected newTimer conn w1 else (w1, []));
          w3 = (if isConnected then
                  (if wc_parsers w2 conn = None
                   then w2\<lparr>wc_parsers := (wc_parsers w2)(conn \<mapsto> HttpParser_new)\<rparr> else w2)
                else w2\<lparr>wc_parsers := (wc_parsers w2)(conn := None)\<rparr>)
      in (w3, cancels @ refreshed))"

section \<open>Messages\<close>

type_synonym chat_request = "bytes \<times> bytes"

text \<open>The parsing loop; \<open>None\<close> would be a loop that does not end.\<close>

partial_function (option) onMessage_loop ::
    "HttpParser \<Rightarrow> Buffer \<Rightarrow> chat_request list \<Rightarrow> (bool \<times> chat_request list \<times> HttpParser \<times> Buffer) option" where
  "onMessage_loop parser buf requests =
     Option.bind (HttpParser_parseRequest parser buf)
       (\<lambda>(ok, parser1, buf1).
          if \<not> ok then Some (True, requests, parser1, buf1)
          else if \<not> HttpParser_gotAll parser1 then Some (False, requests, parser1, buf1)
          else
            let requests1 = requests @ [(hp_path parser1, hp_body parser1)];
                parser2 = HttpParser_reset parser1
            in if readableBytes buf1 = 0 then Some (False, requests1, parser2, buf1)
               else onMessage_loop parser2 buf1 requests1)"

definition WebChatServer_sendHttpResponse :: "conn_ptr \<Rightarrow> bytes \<Rightarrow> bytes \<Rightarrow> chat_effect list" where
  "WebChatServer_sendHttpResponse conn contentType content =
     [ChatSend conn (''HTTP/1.1 200 OK'' @ kCRLF @ ''Content-Type: '' @ contentType @ kCRLF
        @ ''Content-Length: '' @ to_string (length content) @ kCRLF @ ''Connection: Keep-Alive'' @ kCRLF
        @ kCRLF @ content)]"

text \<open>A \<open>std::set\<close> of pointers is visited in the order of the addresses.\<close>

definition WebChatServer_broadcast :: "bytes \<Rightarrow> WebChatServer \<Rightarrow> chat_effect list" where
  "WebChatServer_broadcast msg w =
     map (\<lambda>conn. ChatSend conn (''Broadcast: '' @ msg @ kCRLF)) (sorted_list_of_set (wc_connections w))"

definition bad_request :: bytes where
  "bad_request = ''HTTP/1.1 400 Bad Request'' @ kCRLF @ ''Content-Length: 0'' @ kCRLF
     @ ''Connection: close'' @ kCRLF @ kCRLF"

text \<open>What one request is answered with; \<open>peer\<close> is the printed peer address.\<close>

definition onMessage_respond :: "bytes \<Rightarrow> conn_ptr \<Rightarrow> WebChatServer \<Rightarrow> chat_request \<Rightarrow> chat_effect list" where
  "onMessage_respond peer conn w request =
     (let path = fst request in
      if path = ''/'' then WebChatServer_sendHttpResponse conn ''text/html; charset=utf-8'' g_chat_html
      else if path = ''/chat'' then
        WebChatServer_broadcast (''['' @ peer @ '']: '' @ snd request) w
        @ WebChatServer_sendHttpResponse conn ''text/plain'' ''OK''
      else [])"

definition WebChatServer_onMessage ::
    "bytes \<Rightarrow> bool \<Rightarrow> TimerId \<Rightarrow> conn_ptr \<Rightarrow> Buffer \<Rightarrow> WebChatServer \<Rightarrow>
     (WebChatServer \<times> Buffer \<times> chat_effect list) option" where
  "WebChatServer_onMessage peer isConnected newTimer conn buf w =
     (let (w1, refreshed) =
            (if isConnected then WebChatServer_refreshIdleTimer isConnected newTimer conn w else (w, []));
          parser = (case wc_parsers w1 conn of Some p \<Rightarrow> p | None \<Rightarrow> HttpParser_new)
      in map_option (\<lambda>(malformedRequest, requests, parser1, buf1).
             let w2 = w1\<lparr>wc_parsers := (wc_parsers w1)(conn \<mapsto> parser1)\<rparr>
             in (w2, buf1,
                 refreshed
                 @ (if malformedRequest then [ChatSend conn bad_request, ChatShutdown conn]
                    else concat (map (onMessage_respond peer conn w2) requests))))
           (onMessage_loop parser buf []))"

section \<open>The process\<close>

text \<open>Log records go to the background writer.\<close>

definition asyncOutput :: "bytes \<Rightarrow> bytes \<Rightarrow> AsyncLogging \<Rightarrow> (AsyncLogging \<times> bool) option" where
  "asyncOutput fresh msg a = AsyncLogging_append fresh msg a"

text \<open>The signal handler, on the thread \<open>tid\<close> that takes the signal.\<close>

definition signalHandler :: "tid \<Rightarrow> EventLoop option \<Rightarrow> EventLoop option" where
  "signalHandler tid g_loop = map_option (EventLoop_quit tid) g_loop"

definition WebChatServer_start :: "(nat \<Rightarrow> loop_ptr) \<Rightarrow> TcpServer \<Rightarrow> TcpServer \<times> server_action list" where
  "WebChatServer_start startLoop s = TcpServer_start startLoop s"

text \<open>\<open>main\<close> up to \<open>loop.loop()\<close>: the logger, the base loop with the \<open>epoll_ctl\<close> calls of its constructor, the
  chat state, the listening server, and what it hands to its loop; \<open>None\<close> is the abort of a failed
  \<open>eventfd\<close> or the \<open>exit(1)\<close> of a failed bind.\<close>

definition main_boot ::
    "(bytes \<Rightarrow> 32 word option) \<Rightarrow> (32 word \<Rightarrow> bytes) \<Rightarrow> (nat \<Rightarrow> loop_ptr) \<Rightarrow> AsyncLogging \<Rightarrow>
     tid \<Rightarrow> loop_ptr \<Rightarrow> errno + fd \<Rightarrow> errno + fd \<Rightarrow> fd \<Rightarrow> bool \<Rightarrow>
     (AsyncLogging \<times> EventLoop \<times> ctl_call list \<times> WebChatServer \<times> TcpServer \<times> server_action list) option" where
  "main_boot inet_pton inet_ntop startLoop logging tid loop eventfd timerfd listenFd bound =
     do {
       let logging1 = AsyncLogging_start logging;
       wakeupFd \<leftarrow> createEventfd eventfd;
       let (el, calls) = EventLoop_new tid wakeupFd (createTimerfd timerfd);
       let listenAddr = InetAddress_new inet_pton ''127.0.0.1'' 8080;
       (w, s) \<leftarrow> WebChatServer_new inet_ntop loop listenFd bound listenAddr;
       let (s1, acts) = WebChatServer_start startLoop s;
       Some (logging1, el, calls, w, s1, acts)
     }"

section \<open>The requests of a byte stream\<close>

text \<open>A parser that waits for a line completes a request only by taking bytes.\<close>

lemma parse_stream_consumes:
  "parse_stream p cs = (r, p', rest) \<Longrightarrow> awaits_line p \<Longrightarrow> hp_state p' = GotAll \<Longrightarrow> length rest < length cs"
proof (induction p cs rule: parse_stream_induct)
  case (halt p cs)
  then show ?case by (simp add: awaits_line_iff)
next
  case (wait p cs)
  then show ?case by (simp add: parse_stream_no_line awaits_line_def)
next
  case (line p cs line rest' p'')
  have "parse_stream p'' rest' = (r, p', rest)" using line by (simp add: parse_stream_line)
  then have "length rest \<le> length rest'" by (auto dest!: parse_stream_suffix suffix_length_le)
  with split_line_length [OF line(2)] show ?case by simp
qed (auto simp: parse_stream_line awaits_line_iff)

lemma awaits_line_new [simp]: "awaits_line HttpParser_new"
  by (simp add: awaits_line_def HttpParser_new_def)

function stream_requests ::
    "HttpParser \<Rightarrow> bytes \<Rightarrow> chat_request list \<Rightarrow> bool \<times> chat_request list \<times> HttpParser \<times> bytes" where
  "stream_requests p cs reqs =
     (case parse_stream p cs of
        (ok, p1, rest) \<Rightarrow>
          if \<not> ok then (True, reqs, p1, rest)
          else if hp_state p1 \<noteq> GotAll then (False, reqs, p1, rest)
          else
            (let reqs1 = reqs @ [(hp_path p1, hp_body p1)] in
             if rest = [] then (False, reqs1, HttpParser_new, rest)
             else stream_requests HttpParser_new rest reqs1))"
  by pat_completeness auto

termination
proof (relation "inv_image (less_than <*lex*> less_than)
    (\<lambda>(p, cs, reqs). (length cs, if awaits_line p then 0 else 1))")
  fix p cs reqs ok y p1 rest reqs1
  assume a: "(ok, y) = parse_stream p cs" "(p1, rest) = y" "\<not> \<not> ok" "\<not> hp_state p1 \<noteq> GotAll"
  have ps: "parse_stream p cs = (ok, p1, rest)" using a(1,2) by simp
  have "length rest \<le> length cs" using parse_stream_suffix [OF ps] by (rule suffix_length_le)
  moreover have "length rest < length cs" if "awaits_line p"
    using parse_stream_consumes [OF ps that] a(4) by simp
  ultimately have "length rest < length cs \<or> length rest = length cs \<and> \<not> awaits_line p"
    by linarith
  then show "((HttpParser_new, rest, reqs1), p, cs, reqs)
      \<in> inv_image (less_than <*lex*> less_than) (\<lambda>(p, cs, reqs). (length cs, if awaits_line p then 0 else 1))"
    by auto
qed auto

declare stream_requests.simps [simp del]

text \<open>The loop of \<open>onMessage\<close> ends, and finds the requests of the stream.\<close>

lemma onMessage_loop_refines:
  assumes "Buffer_ok b"
  shows "\<exists>m rs p' b'. onMessage_loop p b reqs = Some (m, rs, p', b') \<and> Buffer_ok b'
    \<and> stream_requests p (Buffer_content b) reqs = (m, rs, p', Buffer_content b')"
  using assms
proof (induction p "Buffer_content b" reqs arbitrary: b rule: stream_requests.induct)
  case (1 p reqs)
  obtain ok p1 b1 where r: "HttpParser_parseRequest p b = Some (ok, p1, b1)" "Buffer_ok b1"
    "parse_stream p (Buffer_content b) = (ok, p1, Buffer_content b1)"
    by (rule parseRequest_refines [OF 1(2)])
  have empty: "readableBytes b1 = 0 \<longleftrightarrow> Buffer_content b1 = []"
    using length_content [OF r(2)] by (metis length_0_conv)
  show ?case
  proof (cases "ok \<and> hp_state p1 = GotAll \<and> Buffer_content b1 \<noteq> []")
    case False
    with r empty show ?thesis
      by (subst onMessage_loop.simps, subst stream_requests.simps)
        (auto simp: HttpParser_gotAll_def reset_eq_new)
  next
    case True
    let ?rs = "reqs @ [(hp_path p1, hp_body p1)]"
    have "onMessage_loop p b reqs = onMessage_loop HttpParser_new b1 ?rs"
      using True r(1) empty by (subst onMessage_loop.simps) (simp add: HttpParser_gotAll_def reset_eq_new)
    moreover have "stream_requests p (Buffer_content b) reqs = stream_requests HttpParser_new (Buffer_content b1) ?rs"
      using True r(3) by (subst stream_requests.simps) simp
    moreover have "\<exists>m rs p' b'. onMessage_loop HttpParser_new b1 ?rs = Some (m, rs, p', b') \<and> Buffer_ok b'
        \<and> stream_requests HttpParser_new (Buffer_content b1) ?rs = (m, rs, p', Buffer_content b')"
      by (rule 1(1) [OF r(3) [symmetric] refl _ _ refl _ r(2)]) (use True in auto)
    ultimately show ?thesis by simp
  qed
qed

lemma stream_requests_acc:
  "stream_requests p cs (a @ reqs) = (case stream_requests p cs reqs of (m, rs, q) \<Rightarrow> (m, a @ rs, q))"
proof (induction p cs reqs rule: stream_requests.induct)
  case (1 p cs reqs)
  obtain ok p1 rest where r: "parse_stream p cs = (ok, p1, rest)" by (cases "parse_stream p cs")
  from 1 [OF r [symmetric] refl _ _ refl] show ?case
    by (simp add: stream_requests.simps [of p] r Let_def)
qed

lemma parse_stream_False: "parse_stream p cs = (False, p', rest) \<Longrightarrow> hp_state p' = Error"
proof (induction p cs rule: parse_stream_induct)
  case (halt p cs)
  then show ?case by (auto simp: halted_def)
qed (auto simp: parse_stream_no_line parse_stream_line parse_stream_body split: if_splits)

lemma parse_stream_new_empty: "parse_stream HttpParser_new [] = (True, HttpParser_new, [])"
  by (rule parse_stream_no_line) (simp_all add: split_line_None_iff kCRLF_def)

text \<open>More input continues where the last pass stopped; a malformed request stays malformed.\<close>

lemma stream_requests_append:
  "stream_requests p cs reqs = (False, rs, p', rest) \<Longrightarrow>
   stream_requests p (cs @ ds) reqs = stream_requests p' (rest @ ds) rs"
proof (induction p cs reqs rule: stream_requests.induct)
  case (1 p cs reqs)
  obtain ok p1 rest1 where r: "parse_stream p cs = (ok, p1, rest1)" by (cases "parse_stream p cs")
  have ok: ok using 1(2) r by (simp add: stream_requests.simps [of p] split: if_splits)
  have more: "parse_stream p (cs @ ds) = parse_stream p1 (rest1 @ ds)" by (rule parse_stream_resume [OF r])
  show ?case
  proof (cases "hp_state p1 = GotAll")
    case False
    with 1(2) r ok have "rs = reqs" "p' = p1" "rest = rest1" by (simp_all add: stream_requests.simps [of p])
    with more show ?thesis by (simp add: stream_requests.simps [of p] stream_requests.simps [of p1])
  next
    case True
    let ?rs = "reqs @ [(hp_path p1, hp_body p1)]"
    have "parse_stream p (cs @ ds) = (True, p1, rest1 @ ds)" using True more by (simp add: halted_def)
    then have full: "stream_requests p (cs @ ds) reqs =
        (if rest1 @ ds = [] then (False, ?rs, HttpParser_new, []) else stream_requests HttpParser_new (rest1 @ ds) ?rs)"
      using True by (simp add: stream_requests.simps [of p] Let_def)
    show ?thesis
    proof (cases "rest1 = []")
      case True
      with 1(2) r ok \<open>hp_state p1 = GotAll\<close> have "rs = ?rs" "p' = HttpParser_new" "rest = []"
        by (simp_all add: stream_requests.simps [of p])
      moreover have "stream_requests HttpParser_new [] ?rs = (False, ?rs, HttpParser_new, [])"
        by (simp add: stream_requests.simps [of HttpParser_new] parse_stream_new_empty) (simp add: HttpParser_new_def)
      ultimately show ?thesis using full True by simp
    next
      case False
      with 1(2) r ok True have "stream_requests HttpParser_new rest1 ?rs = (False, rs, p', rest)"
        by (simp add: stream_requests.simps [of p])
      from 1(1) [OF r [symmetric] refl _ _ refl False this] ok True full False show ?thesis by simp
    qed
  qed
qed

lemma stream_requests_malformed:
  "stream_requests p cs reqs = (True, rs, p', rest) \<Longrightarrow> fst (stream_requests p (cs @ ds) reqs)"
proof (induction p cs reqs rule: stream_requests.induct)
  case (1 p cs reqs)
  obtain ok p1 rest1 where r: "parse_stream p cs = (ok, p1, rest1)" by (cases "parse_stream p cs")
  have more: "parse_stream p (cs @ ds) = parse_stream p1 (rest1 @ ds)" by (rule parse_stream_resume [OF r])
  show ?case
  proof (cases ok)
    case False
    with r have "hp_state p1 = Error" by (auto dest: parse_stream_False)
    then show ?thesis using more by (simp add: stream_requests.simps [of p] halted_def)
  next
    case True
    with 1(2) r have g: "hp_state p1 = GotAll" "rest1 \<noteq> []"
      by (auto simp: stream_requests.simps [of p] split: if_splits)
    with 1(2) r True have "stream_requests HttpParser_new rest1 (reqs @ [(hp_path p1, hp_body p1)]) = (True, rs, p', rest)"
      by (simp add: stream_requests.simps [of p])
    from 1(1) [OF r [symmetric] refl _ _ refl g(2) this] True g more show ?thesis
      by (simp add: stream_requests.simps [of p] halted_def)
  qed
qed

lemma stream_requests_settled:
  assumes "stream_requests p cs reqs = (False, rs, p', rest)"
  shows "stream_requests p' rest [] = (False, [], p', rest)"
proof -
  have "stream_requests p' rest rs = (False, rs, p', rest)"
    using stream_requests_append [OF assms, of "[]"] assms by simp
  with stream_requests_acc [of p' rest rs "[]"] show ?thesis
    by (cases "stream_requests p' rest []") auto
qed

section \<open>Answers\<close>

definition is_send :: "chat_effect \<Rightarrow> bool" where
  "is_send e \<longleftrightarrow> (case e of ChatSend _ _ \<Rightarrow> True | _ \<Rightarrow> False)"

lemma respond_sends [simp]: "filter is_send (onMessage_respond peer conn w r) = onMessage_respond peer conn w r"
  by (auto simp: onMessage_respond_def WebChatServer_broadcast_def WebChatServer_sendHttpResponse_def Let_def
      is_send_def filter_map comp_def)

lemma respond_cong: "wc_connections w = wc_connections w' \<Longrightarrow> onMessage_respond peer conn w = onMessage_respond peer conn w'"
  by (auto simp: onMessage_respond_def WebChatServer_broadcast_def fun_eq_iff)

lemma refresh_same:
  assumes "WebChatServer_refreshIdleTimer isConnected newTimer conn w = (w', effects)"
  shows "wc_connections w' = wc_connections w" "wc_parsers w' = wc_parsers w" "filter is_send effects = []"
  using assms by (auto simp: WebChatServer_refreshIdleTimer_def is_send_def split: if_splits option.splits)

lemma onMessage_spec:
  assumes "Buffer_ok buf" "wc_parsers w conn = Some p"
    and s: "stream_requests p (Buffer_content buf) [] = (m, rs, p', rest)"
  obtains w' buf' effects where "WebChatServer_onMessage peer isConnected newTimer conn buf w = Some (w', buf', effects)"
    "Buffer_ok buf'" "Buffer_content buf' = rest" "wc_parsers w' conn = Some p'" "wc_connections w' = wc_connections w"
    "filter is_send effects =
       (if m then [ChatSend conn bad_request] else concat (map (onMessage_respond peer conn w) rs))"
proof -
  obtain w1 refreshed where w1: "(if isConnected then WebChatServer_refreshIdleTimer isConnected newTimer conn w else (w, [])) = (w1, refreshed)"
    by fastforce
  have same: "wc_connections w1 = wc_connections w" "wc_parsers w1 = wc_parsers w" "filter is_send refreshed = []"
    using w1 refresh_same by (auto split: if_splits)
  obtain buf' where l: "onMessage_loop p buf [] = Some (m, rs, p', buf')" "Buffer_ok buf'" "Buffer_content buf' = rest"
    using onMessage_loop_refines [OF assms(1), of p "[]"] s by auto
  let ?w2 = "w1\<lparr>wc_parsers := (wc_parsers w1)(conn \<mapsto> p')\<rparr>"
  have resp: "onMessage_respond peer conn ?w2 = onMessage_respond peer conn w"
    by (rule respond_cong) (simp add: same(1))
  have sends: "filter is_send (concat (map (onMessage_respond peer conn w) rs)) = concat (map (onMessage_respond peer conn w) rs)"
    by (simp add: filter_concat comp_def)
  have "WebChatServer_onMessage peer isConnected newTimer conn buf w =
      Some (?w2, buf', refreshed @ (if m then [ChatSend conn bad_request, ChatShutdown conn]
        else concat (map (onMessage_respond peer conn ?w2) rs)))"
    unfolding WebChatServer_onMessage_def w1 by (simp add: same(2) assms(2) l(1) Let_def)
  then show ?thesis
    by (rule that) (use l same sends resp in \<open>simp_all add: is_send_def\<close>)
qed

text \<open>A connection whose bytes arrive in pieces, each with the timer id its refresh gets.\<close>

fun chat_feed ::
    "bytes \<Rightarrow> conn_ptr \<Rightarrow> (TimerId \<times> bytes) list \<Rightarrow> Buffer \<Rightarrow> WebChatServer \<Rightarrow>
     (WebChatServer \<times> Buffer \<times> chat_effect list) option" where
  "chat_feed peer conn [] buf w = Some (w, buf, [])"
| "chat_feed peer conn ((newTimer, piece) # pieces) buf w =
     Option.bind (WebChatServer_onMessage peer True newTimer conn (Buffer_append buf piece) w)
       (\<lambda>(w1, buf1, e1). map_option (\<lambda>(w2, buf2, e2). (w2, buf2, e1 @ e2)) (chat_feed peer conn pieces buf1 w1))"

lemma chat_feed_spec:
  assumes "Buffer_ok buf" "wc_parsers w conn = Some p"
    and "stream_requests p (Buffer_content buf) [] = (False, [], p, Buffer_content buf)"
    and "stream_requests p (Buffer_content buf @ concat (map snd pieces)) [] = (False, rs, p', rest)"
  shows "\<exists>w' buf' effects. chat_feed peer conn pieces buf w = Some (w', buf', effects)
    \<and> Buffer_content buf' = rest \<and> wc_parsers w' conn = Some p' \<and> wc_connections w' = wc_connections w
    \<and> filter is_send effects = concat (map (onMessage_respond peer conn w) rs)"
  using assms
proof (induction pieces arbitrary: buf w p rs)
  case Nil
  then show ?case by simp
next
  case (Cons x pieces)
  obtain newTimer c where x: "x = (newTimer, c)" by (cases x)
  have ab: "Buffer_ok (Buffer_append buf c)" "Buffer_content (Buffer_append buf c) = Buffer_content buf @ c"
    using append_correct [OF Cons.prems(1)] by auto
  obtain m rs1 p1 rest1 where 1: "stream_requests p (Buffer_content buf @ c) [] = (m, rs1, p1, rest1)"
    by (metis prod_cases4)
  have m: "\<not> m"
  proof
    assume m
    with 1 have "stream_requests p (Buffer_content buf @ c) [] = (True, rs1, p1, rest1)" by simp
    from stream_requests_malformed [OF this, of "concat (map snd pieces)"] Cons.prems(4) x show False by simp
  qed
  have "stream_requests p1 (rest1 @ concat (map snd pieces)) rs1 = (False, rs, p', rest)"
    using stream_requests_append [of p "Buffer_content buf @ c" "[]" rs1 p1 rest1 "concat (map snd pieces)"] 1 m Cons.prems(4) x
    by simp
  then obtain rs2 where rs: "rs = rs1 @ rs2"
    "stream_requests p1 (rest1 @ concat (map snd pieces)) [] = (False, rs2, p', rest)"
    using stream_requests_acc [of p1 "rest1 @ concat (map snd pieces)" rs1 "[]"]
    by (cases "stream_requests p1 (rest1 @ concat (map snd pieces)) []") auto
  have s: "stream_requests p (Buffer_content (Buffer_append buf c)) [] = (False, rs1, p1, rest1)" using 1 m ab(2) by simp
  obtain w1 buf1 e1 where o: "WebChatServer_onMessage peer True newTimer conn (Buffer_append buf c) w = Some (w1, buf1, e1)"
    "Buffer_ok buf1" "Buffer_content buf1 = rest1" "wc_parsers w1 conn = Some p1" "wc_connections w1 = wc_connections w"
    "filter is_send e1 = concat (map (onMessage_respond peer conn w) rs1)"
    by (rule onMessage_spec [OF ab(1) Cons.prems(2) s, of peer True newTimer, unfolded if_False])
  have settled: "stream_requests p1 (Buffer_content buf1) [] = (False, [], p1, Buffer_content buf1)"
    using stream_requests_settled [of p _ "[]" rs1 p1 rest1] 1 m o(3) by simp
  from Cons.IH [OF o(2,4) settled, of rs2] rs(2) o(3) obtain w2 buf2 e2 where
    i: "chat_feed peer conn pieces buf1 w1 = Some (w2, buf2, e2)" "Buffer_content buf2 = rest" "wc_parsers w2 conn = Some p'"
      "wc_connections w2 = wc_connections w1" "filter is_send e2 = concat (map (onMessage_respond peer conn w1) rs2)"
    by auto
  have "onMessage_respond peer conn w1 = onMessage_respond peer conn w" by (rule respond_cong) (rule o(5))
  with x o i rs(1) show ?case by simp
qed

section \<open>Timers of a connection\<close>

text \<open>
  \<open>cs_state\<close> is the state of each connection object, \<open>cs_timers\<close> its timers running on its loop. A
  connection comes up once; messages arrive until it is down; timers fire once.
\<close>

record chat_sys =
  cs_chat :: WebChatServer
  cs_state :: "conn_ptr \<Rightarrow> StateE"
  cs_timers :: "conn_ptr \<Rightarrow> TimerId \<rightharpoonup> chat_timer"

datatype chat_event =
    Up conn_ptr TimerId | Message conn_ptr bytes TimerId Buffer | Fire conn_ptr TimerId TimerId | Down conn_ptr

fun chat_effect_do :: "chat_effect \<Rightarrow> chat_sys \<Rightarrow> chat_sys" where
  "chat_effect_do (ChatSend c d) s = s"
| "chat_effect_do (ChatShutdown c) s =
     (if cs_state s c = kConnected then s\<lparr>cs_state := (cs_state s)(c := kDisconnecting)\<rparr> else s)"
| "chat_effect_do (ChatForceClose c) s =
     (if cs_state s c = kConnected \<or> cs_state s c = kDisconnecting
      then s\<lparr>cs_state := (cs_state s)(c := kDisconnecting)\<rparr> else s)"
| "chat_effect_do (ChatCancel c i) s = s\<lparr>cs_timers := (cs_timers s)(c := (cs_timers s c)(i := None))\<rparr>"
| "chat_effect_do (ChatRunAfter c i delay k) s = s\<lparr>cs_timers := (cs_timers s)(c := (cs_timers s c)(i \<mapsto> k))\<rparr>"

definition run_timer :: "chat_timer \<Rightarrow> StateE \<Rightarrow> TimerId \<Rightarrow> conn_ptr \<Rightarrow> WebChatServer \<Rightarrow> WebChatServer \<times> chat_effect list" where
  "run_timer k st newTimer c w =
     (case k of
        IdleTimeout \<Rightarrow> WebChatServer_handleIdleTimeout (st = kConnected) newTimer c w
      | ForceCloseTimeout \<Rightarrow> WebChatServer_handleForceCloseTimeout (st = kDisconnected) c w)"

inductive chat_step :: "chat_sys \<Rightarrow> chat_event \<Rightarrow> chat_sys \<Rightarrow> bool" where
  chat_up: "cs_state s c = kConnecting \<Longrightarrow> newTimer \<noteq> 0 \<Longrightarrow> cs_timers s c newTimer = None \<Longrightarrow>
    WebChatServer_onConnection True newTimer c (cs_chat s) = (w, effects) \<Longrightarrow>
    chat_step s (Up c newTimer)
      (fold chat_effect_do effects (s\<lparr>cs_chat := w, cs_state := (cs_state s)(c := kConnected)\<rparr>))"
| chat_message: "cs_state s c = kConnected \<or> cs_state s c = kDisconnecting \<Longrightarrow>
    newTimer \<noteq> 0 \<Longrightarrow> cs_timers s c newTimer = None \<Longrightarrow>
    WebChatServer_onMessage peer (cs_state s c = kConnected) newTimer c buf (cs_chat s) = Some (w, buf', effects) \<Longrightarrow>
    chat_step s (Message c peer newTimer buf) (fold chat_effect_do effects (s\<lparr>cs_chat := w\<rparr>))"
| chat_fire: "cs_timers s c i = Some k \<Longrightarrow> newTimer \<noteq> 0 \<Longrightarrow> cs_timers s c newTimer = None \<Longrightarrow>
    run_timer k (cs_state s c) newTimer c (cs_chat s) = (w, effects) \<Longrightarrow>
    chat_step s (Fire c i newTimer)
      (fold chat_effect_do effects (s\<lparr>cs_chat := w, cs_timers := (cs_timers s)(c := (cs_timers s c)(i := None))\<rparr>))"
| chat_down: "cs_state s c = kConnected \<or> cs_state s c = kDisconnecting \<Longrightarrow>
    WebChatServer_onConnection False 0 c (cs_chat s) = (w, effects) \<Longrightarrow>
    chat_step s (Down c)
      (fold chat_effect_do effects (s\<lparr>cs_chat := w, cs_state := (cs_state s)(c := kDisconnected)\<rparr>))"

definition chat_init :: chat_sys where
  "chat_init = \<lparr>cs_chat = WebChatServer_state, cs_state = (\<lambda>_. kConnecting), cs_timers = (\<lambda>_. Map.empty)\<rparr>"

text \<open>What the records of one connection say, given its state and its running timers.\<close>

definition timers_ok :: "StateE \<Rightarrow> (TimerId \<rightharpoonup> chat_timer) \<Rightarrow> ConnectionTimers option \<Rightarrow> bool" where
  "timers_ok st tms t \<longleftrightarrow>
     (case t of
        None \<Rightarrow> tms = Map.empty \<and> (st = kConnecting \<or> st = kDisconnected)
      | Some ct \<Rightarrow>
          (st = kConnected \<or> st = kDisconnecting)
          \<and> tms 0 = None
          \<and> (\<forall>i. tms i = Some IdleTimeout \<longrightarrow> i = ct_idleTimer ct)
          \<and> (\<forall>i. tms i = Some ForceCloseTimeout \<longrightarrow> i = ct_forceCloseTimer ct)
          \<and> (st = kConnected \<longrightarrow>
               ct_forceCloseTimer ct = 0 \<and> ct_idleTimer ct \<noteq> 0 \<and> tms (ct_idleTimer ct) = Some IdleTimeout))"

definition chat_ok :: "chat_sys \<Rightarrow> bool" where
  "chat_ok s \<longleftrightarrow>
     (\<forall>c. timers_ok (cs_state s c) (cs_timers s c) (wc_idleTimers (cs_chat s) c)
        \<and> (c \<in> wc_connections (cs_chat s) \<longleftrightarrow> wc_idleTimers (cs_chat s) c \<noteq> None))"

text \<open>Effects of one connection's callback touch only that connection.\<close>

fun effect_conn :: "chat_effect \<Rightarrow> conn_ptr option" where
  "effect_conn (ChatSend c d) = None"
| "effect_conn (ChatShutdown c) = Some c"
| "effect_conn (ChatForceClose c) = Some c"
| "effect_conn (ChatCancel c i) = Some c"
| "effect_conn (ChatRunAfter c i d k) = Some c"

lemma fold_sends: "list_all is_send es \<Longrightarrow> fold chat_effect_do es s = s"
  by (induction es) (auto simp: is_send_def split: chat_effect.splits)

lemma effects_others:
  "list_all (\<lambda>e. effect_conn e = None \<or> effect_conn e = Some c) es \<Longrightarrow> d \<noteq> c \<Longrightarrow>
   cs_state (fold chat_effect_do es s) d = cs_state s d \<and> cs_timers (fold chat_effect_do es s) d = cs_timers s d
   \<and> cs_chat (fold chat_effect_do es s) = cs_chat s"
proof (induction es arbitrary: s)
  case (Cons e es)
  then show ?case by (cases e) auto
qed simp

lemma chat_ok_local:
  assumes "chat_ok s"
    and "\<And>d. d \<noteq> c \<Longrightarrow> cs_state s' d = cs_state s d \<and> cs_timers s' d = cs_timers s d
       \<and> wc_idleTimers (cs_chat s') d = wc_idleTimers (cs_chat s) d
       \<and> (d \<in> wc_connections (cs_chat s') \<longleftrightarrow> d \<in> wc_connections (cs_chat s))"
    and "timers_ok (cs_state s' c) (cs_timers s' c) (wc_idleTimers (cs_chat s') c)"
    and "c \<in> wc_connections (cs_chat s') \<longleftrightarrow> wc_idleTimers (cs_chat s') c \<noteq> None"
  shows "chat_ok s'"
  unfolding chat_ok_def
proof
  fix d
  show "timers_ok (cs_state s' d) (cs_timers s' d) (wc_idleTimers (cs_chat s') d) \<and>
      (d \<in> wc_connections (cs_chat s')) = (wc_idleTimers (cs_chat s') d \<noteq> None)"
  proof (cases "d = c")
    case True
    with assms(3,4) show ?thesis by simp
  next
    case False
    from assms(2) [OF this] assms(1) show ?thesis by (simp add: chat_ok_def)
  qed
qed

lemma chat_okD:
  "chat_ok s \<Longrightarrow> timers_ok (cs_state s c) (cs_timers s c) (wc_idleTimers (cs_chat s) c)"
  "chat_ok s \<Longrightarrow> c \<in> wc_connections (cs_chat s) \<longleftrightarrow> wc_idleTimers (cs_chat s) c \<noteq> None"
  by (simp_all add: chat_ok_def)

lemma timers_okD:
  assumes "timers_ok st tms (Some ct)"
  shows "st = kConnected \<or> st = kDisconnecting" "tms 0 = None"
    and "tms i = Some IdleTimeout \<Longrightarrow> i = ct_idleTimer ct"
    and "tms i = Some ForceCloseTimeout \<Longrightarrow> i = ct_forceCloseTimer ct"
    and "st = kConnected \<Longrightarrow> ct_forceCloseTimer ct = 0 \<and> ct_idleTimer ct \<noteq> 0 \<and> tms (ct_idleTimer ct) = Some IdleTimeout"
  using assms unfolding timers_ok_def option.case by blast+

lemma timers_okI:
  assumes "st = kConnected \<or> st = kDisconnecting" "tms 0 = None"
    and "\<And>i. tms i = Some IdleTimeout \<Longrightarrow> i = ct_idleTimer ct"
    and "\<And>i. tms i = Some ForceCloseTimeout \<Longrightarrow> i = ct_forceCloseTimer ct"
    and "st = kConnected \<Longrightarrow> ct_forceCloseTimer ct = 0 \<and> ct_idleTimer ct \<noteq> 0 \<and> tms (ct_idleTimer ct) = Some IdleTimeout"
  shows "timers_ok st tms (Some ct)"
  using assms unfolding timers_ok_def option.case by blast

lemma timers_ok_None: "timers_ok st tms None \<longleftrightarrow> tms = Map.empty \<and> (st = kConnecting \<or> st = kDisconnected)"
  by (simp add: timers_ok_def)

text \<open>A connected connection has exactly one timer.\<close>

lemma timers_connected:
  assumes "timers_ok kConnected tms (Some ct)"
  shows "tms = [ct_idleTimer ct \<mapsto> IdleTimeout]"
proof
  fix i
  note d = timers_okD [OF assms]
  show "tms i = [ct_idleTimer ct \<mapsto> IdleTimeout] i"
  proof (cases "tms i")
    case None
    with d(5) show ?thesis by (cases "i = ct_idleTimer ct") auto
  next
    case (Some k)
    show ?thesis
    proof (cases k)
      case IdleTimeout
      with Some d(3) [of i] show ?thesis by simp
    next
      case ForceCloseTimeout
      with Some d(4) [of i] d(5) have "tms 0 = Some ForceCloseTimeout" by simp
      with d(2) show ?thesis by simp
    qed
  qed
qed

text \<open>What a refresh, a shutdown, the timers and the end of a connection do to its records.\<close>

lemma timers_ok_refresh:
  assumes "timers_ok kConnected tms (Some ct)" "newTimer \<noteq> 0"
  shows "timers_ok kConnected ((tms(ct_idleTimer ct := None))(newTimer \<mapsto> IdleTimeout)) (Some (ct\<lparr>ct_idleTimer := newTimer\<rparr>))"
  using timers_okD(5) [OF assms(1)] assms(2) unfolding timers_connected [OF assms(1)]
  by (intro timers_okI) (auto split: if_splits)

lemma timers_ok_shutdown: "timers_ok kConnected tms t \<Longrightarrow> timers_ok kDisconnecting tms t"
  by (cases t) (auto simp: timers_ok_None intro: timers_okI dest: timers_okD)

lemma timers_ok_idle_fires:
  assumes "timers_ok kConnected tms (Some ct)" "tms i = Some IdleTimeout" "newTimer \<noteq> 0"
  shows "timers_ok kDisconnecting ((tms(i := None))(newTimer \<mapsto> ForceCloseTimeout))
    (Some (ct\<lparr>ct_idleTimer := 0, ct_forceCloseTimer := newTimer\<rparr>))"
proof -
  have "i = ct_idleTimer ct" by (rule timers_okD(3) [OF assms(1,2)])
  then show ?thesis using assms(3) unfolding timers_connected [OF assms(1)]
    by (intro timers_okI) (auto split: if_splits)
qed

lemma timers_ok_fired:
  assumes "timers_ok kDisconnecting tms (Some ct)"
  shows "timers_ok kDisconnecting (tms(i := None)) (Some ct)"
    and "tms i = Some ForceCloseTimeout \<Longrightarrow> timers_ok kDisconnecting (tms(i := None)) (Some (ct\<lparr>ct_forceCloseTimer := 0\<rparr>))"
proof -
  note d = timers_okD [OF assms]
  show "timers_ok kDisconnecting (tms(i := None)) (Some ct)"
    by (rule timers_okI) (use d in \<open>auto split: if_splits\<close>)
  assume f: "tms i = Some ForceCloseTimeout"
  have "tms j \<noteq> Some ForceCloseTimeout" if "j \<noteq> i" for j
    using d(4) [of j] d(4) [OF f] that by blast
  then show "timers_ok kDisconnecting (tms(i := None)) (Some (ct\<lparr>ct_forceCloseTimer := 0\<rparr>))"
    by (intro timers_okI) (use d(2,3) in \<open>auto split: if_splits\<close>)
qed

lemma timers_ok_cancelled:
  assumes "timers_ok st tms (Some ct)"
  shows "(tms(ct_idleTimer ct := None))(ct_forceCloseTimer ct := None) = Map.empty"
proof
  fix i
  show "((tms(ct_idleTimer ct := None))(ct_forceCloseTimer ct := None)) i = None"
  proof (cases "tms i")
    case (Some k)
    with timers_okD(3,4) [OF assms, of i] show ?thesis by (cases k) simp_all
  qed simp
qed

lemma respond_all_sends: "list_all is_send (concat (map (onMessage_respond peer conn w) rs))"
proof -
  have "list_all is_send (onMessage_respond peer conn w r)" for r
    using respond_sends [of peer conn w r] by (metis Ball_set filter_id_conv)
  then show ?thesis by (auto simp: list_all_iff)
qed

lemma onMessage_effects:
  assumes "WebChatServer_onMessage peer isConnected newTimer conn buf w = Some (w', buf', effects)"
  obtains w1 refreshed rest where
    "WebChatServer_refreshIdleTimer isConnected newTimer conn w = (w1, refreshed)" "effects = refreshed @ rest"
    "rest = [ChatSend conn bad_request, ChatShutdown conn] \<or> list_all is_send rest"
    "wc_idleTimers w' = wc_idleTimers w1" "wc_connections w' = wc_connections w1"
proof -
  obtain w1 refreshed where w1: "WebChatServer_refreshIdleTimer isConnected newTimer conn w = (w1, refreshed)" by fastforce
  have "(if isConnected then WebChatServer_refreshIdleTimer isConnected newTimer conn w else (w, [])) = (w1, refreshed)"
    using w1 by (simp add: WebChatServer_refreshIdleTimer_def split: if_splits)
  with assms obtain m rs p1 where
    "w' = w1\<lparr>wc_parsers := (wc_parsers w1)(conn \<mapsto> p1)\<rparr>"
    "effects = refreshed @ (if m then [ChatSend conn bad_request, ChatShutdown conn]
       else concat (map (onMessage_respond peer conn w') rs))"
    unfolding WebChatServer_onMessage_def by (auto simp: Let_def)
  with w1 show ?thesis
    by (intro that [of w1 refreshed "if m then [ChatSend conn bad_request, ChatShutdown conn]
       else concat (map (onMessage_respond peer conn w') rs)"]) (auto simp: respond_all_sends)
qed

lemma chat_up_ok:
  assumes "chat_ok s" "cs_state s c = kConnecting" "newTimer \<noteq> 0"
    "WebChatServer_onConnection True newTimer c (cs_chat s) = (w, effects)"
  shows "chat_ok (fold chat_effect_do effects (s\<lparr>cs_chat := w, cs_state := (cs_state s)(c := kConnected)\<rparr>))"
proof -
  have t: "timers_ok kConnecting (cs_timers s c) (wc_idleTimers (cs_chat s) c)"
    using chat_okD(1) [OF assms(1), of c] assms(2) by simp
  then have none: "cs_timers s c = Map.empty"
    using timers_okD(1) [of kConnecting] by (cases "wc_idleTimers (cs_chat s) c") (auto simp: timers_ok_None)
  have eff: "effects = [ChatRunAfter c newTimer fifteen_seconds IdleTimeout]"
    and w: "wc_connections w = insert c (wc_connections (cs_chat s))"
      "wc_idleTimers w = (wc_idleTimers (cs_chat s))(c \<mapsto> \<lparr>ct_idleTimer = newTimer, ct_forceCloseTimer = 0\<rparr>)"
    using assms(4) by (auto simp: WebChatServer_onConnection_def WebChatServer_refreshIdleTimer_def
        ConnectionTimers_new_def Let_def split: if_splits)
  show ?thesis
    by (rule chat_ok_local [OF assms(1), of c])
      (use w none assms(3) in \<open>auto simp: eff intro!: timers_okI split: if_splits\<close>)
qed

lemma chat_message_ok:
  assumes "chat_ok s" "cs_state s c = kConnected \<or> cs_state s c = kDisconnecting" "newTimer \<noteq> 0"
    "WebChatServer_onMessage peer (cs_state s c = kConnected) newTimer c buf (cs_chat s) = Some (w, buf', effects)"
  shows "chat_ok (fold chat_effect_do effects (s\<lparr>cs_chat := w\<rparr>))"
proof -
  obtain w1 refreshed rest where
    w1: "WebChatServer_refreshIdleTimer (cs_state s c = kConnected) newTimer c (cs_chat s) = (w1, refreshed)"
    and eff: "effects = refreshed @ rest"
    and rest: "rest = [ChatSend c bad_request, ChatShutdown c] \<or> list_all is_send rest"
    and w: "wc_idleTimers w = wc_idleTimers w1" "wc_connections w = wc_connections w1"
    by (rule onMessage_effects [OF assms(4)])
  note t = chat_okD(1) [OF assms(1), of c]
  obtain ct where ct: "wc_idleTimers (cs_chat s) c = Some ct"
    using t assms(2) by (cases "wc_idleTimers (cs_chat s) c") (auto simp: timers_ok_None)
  let ?s1 = "fold chat_effect_do refreshed (s\<lparr>cs_chat := w\<rparr>)"
  have s1: "chat_ok ?s1"
  proof (cases "cs_state s c = kConnected")
    case True
    have t': "timers_ok kConnected (cs_timers s c) (Some ct)" using t ct True by simp
    have "ct_idleTimer ct \<noteq> 0" using timers_okD(5) [OF t'] by simp
    then have "WebChatServer_refreshIdleTimer True newTimer c (cs_chat s) =
        ((cs_chat s)\<lparr>wc_idleTimers := (wc_idleTimers (cs_chat s))(c \<mapsto> ct\<lparr>ct_idleTimer := newTimer\<rparr>)\<rparr>,
         [ChatCancel c (ct_idleTimer ct), ChatRunAfter c newTimer fifteen_seconds IdleTimeout])"
      using ct by (simp add: WebChatServer_refreshIdleTimer_def)
    with w1 True have r: "refreshed = [ChatCancel c (ct_idleTimer ct), ChatRunAfter c newTimer fifteen_seconds IdleTimeout]"
      "w1 = (cs_chat s)\<lparr>wc_idleTimers := (wc_idleTimers (cs_chat s))(c \<mapsto> ct\<lparr>ct_idleTimer := newTimer\<rparr>)\<rparr>"
      by simp_all
    have "wc_idleTimers w = (wc_idleTimers (cs_chat s))(c \<mapsto> ct\<lparr>ct_idleTimer := newTimer\<rparr>)"
      "wc_connections w = wc_connections (cs_chat s)"
      using w r(2) by simp_all
    with timers_ok_refresh [OF t' assms(3)] chat_okD(2) [OF assms(1), of c] True ct r(1) show ?thesis
      by (intro chat_ok_local [OF assms(1), of c]) simp_all
  next
    case False
    then have "refreshed = []" "wc_idleTimers w = wc_idleTimers (cs_chat s)" "wc_connections w = wc_connections (cs_chat s)"
      using w1 w by (auto simp: WebChatServer_refreshIdleTimer_def)
    with assms(1) show ?thesis by (simp add: chat_ok_def)
  qed
  have fold: "fold chat_effect_do effects (s\<lparr>cs_chat := w\<rparr>) = fold chat_effect_do rest ?s1" by (simp add: eff)
  show ?thesis unfolding fold
  proof (cases "list_all is_send rest")
    case True
    with s1 show "chat_ok (fold chat_effect_do rest ?s1)" by (simp add: fold_sends)
  next
    case False
    with rest have "rest = [ChatSend c bad_request, ChatShutdown c]" by simp
    moreover have "chat_ok (?s1\<lparr>cs_state := (cs_state ?s1)(c := kDisconnecting)\<rparr>)" if "cs_state ?s1 c = kConnected"
      by (rule chat_ok_local [OF s1, of c])
        (use chat_okD [OF s1, of c] that in \<open>simp_all add: timers_ok_shutdown\<close>)
    ultimately show "chat_ok (fold chat_effect_do rest ?s1)" using s1 by simp
  qed
qed

lemma chat_fire_ok:
  assumes "chat_ok s" "cs_timers s c i = Some k" "newTimer \<noteq> 0"
    "run_timer k (cs_state s c) newTimer c (cs_chat s) = (w, effects)"
  shows "chat_ok (fold chat_effect_do effects
    (s\<lparr>cs_chat := w, cs_timers := (cs_timers s)(c := (cs_timers s c)(i := None))\<rparr>))"
proof -
  note t = chat_okD(1) [OF assms(1), of c]
  obtain ct where ct: "wc_idleTimers (cs_chat s) c = Some ct"
    using t assms(2) by (cases "wc_idleTimers (cs_chat s) c") (auto simp: timers_ok_None)
  have mem: "c \<in> wc_connections (cs_chat s)" using chat_okD(2) [OF assms(1), of c] ct by simp
  have t': "timers_ok (cs_state s c) (cs_timers s c) (Some ct)" using t ct by simp
  consider (idle) "k = IdleTimeout" "cs_state s c = kConnected"
    | (late) "k = IdleTimeout" "cs_state s c = kDisconnecting"
    | (force) "k = ForceCloseTimeout" "cs_state s c = kDisconnecting"
    | (none) "k = ForceCloseTimeout" "cs_state s c = kConnected"
    using timers_okD(1) [OF t'] by (cases k) blast+
  then show ?thesis
  proof cases
    case idle
    then have "effects = [ChatShutdown c, ChatRunAfter c newTimer fifteen_seconds ForceCloseTimeout]"
      "w = (cs_chat s)\<lparr>wc_idleTimers :=
        (wc_idleTimers (cs_chat s))(c \<mapsto> ct\<lparr>ct_idleTimer := 0, ct_forceCloseTimer := newTimer\<rparr>)\<rparr>"
      using assms(4) ct by (auto simp: run_timer_def WebChatServer_handleIdleTimeout_def)
    moreover have "timers_ok kDisconnecting (((cs_timers s c)(i := None))(newTimer \<mapsto> ForceCloseTimeout))
        (Some (ct\<lparr>ct_idleTimer := 0, ct_forceCloseTimer := newTimer\<rparr>))"
      by (rule timers_ok_idle_fires) (use t' idle assms(2,3) in simp_all)
    ultimately show ?thesis using idle mem by (intro chat_ok_local [OF assms(1), of c]) auto
  next
    case late
    then have "effects = []" "w = cs_chat s"
      using assms(4) by (auto simp: run_timer_def WebChatServer_handleIdleTimeout_def)
    moreover have "timers_ok kDisconnecting ((cs_timers s c)(i := None)) (Some ct)"
      by (rule timers_ok_fired(1)) (use t' late in simp)
    ultimately show ?thesis using late mem ct by (intro chat_ok_local [OF assms(1), of c]) auto
  next
    case force
    then have "effects = [ChatForceClose c]"
      "w = (cs_chat s)\<lparr>wc_idleTimers := (wc_idleTimers (cs_chat s))(c \<mapsto> ct\<lparr>ct_forceCloseTimer := 0\<rparr>)\<rparr>"
      using assms(4) ct by (auto simp: run_timer_def WebChatServer_handleForceCloseTimeout_def)
    moreover have "timers_ok kDisconnecting ((cs_timers s c)(i := None)) (Some (ct\<lparr>ct_forceCloseTimer := 0\<rparr>))"
      by (rule timers_ok_fired(2)) (use t' force assms(2) in simp_all)
    ultimately show ?thesis using force mem by (intro chat_ok_local [OF assms(1), of c]) auto
  next
    case none
    then have "cs_timers s c = [ct_idleTimer ct \<mapsto> IdleTimeout]" using timers_connected t' by simp
    with assms(2) none show ?thesis by (auto split: if_splits)
  qed
qed

lemma chat_down_ok:
  assumes "chat_ok s" "cs_state s c = kConnected \<or> cs_state s c = kDisconnecting"
    "WebChatServer_onConnection False 0 c (cs_chat s) = (w, effects)"
  shows "chat_ok (fold chat_effect_do effects (s\<lparr>cs_chat := w, cs_state := (cs_state s)(c := kDisconnected)\<rparr>))"
proof -
  note t = chat_okD(1) [OF assms(1), of c]
  obtain ct where ct: "wc_idleTimers (cs_chat s) c = Some ct"
    using t assms(2) by (cases "wc_idleTimers (cs_chat s) c") (auto simp: timers_ok_None)
  have t': "timers_ok (cs_state s c) (cs_timers s c) (Some ct)" using t ct by simp
  note zero = timers_okD(2) [OF t']
  let ?s1 = "s\<lparr>cs_chat := w, cs_state := (cs_state s)(c := kDisconnected)\<rparr>"
  let ?es = "\<lambda>i. if i \<noteq> 0 then [ChatCancel c i] else []"
  have eff: "effects = ?es (ct_idleTimer ct) @ ?es (ct_forceCloseTimer ct)"
    and w: "wc_connections w = wc_connections (cs_chat s) - {c}" "wc_idleTimers w = (wc_idleTimers (cs_chat s))(c := None)"
    using assms(3) ct by (auto simp: WebChatServer_onConnection_def Let_def split: if_splits)
  have cancel: "fold chat_effect_do (?es i) u = u\<lparr>cs_timers := (cs_timers u)(c := (cs_timers u c)(i := None))\<rparr>"
    if "cs_timers u c 0 = None" for i u
    using that by (auto simp: fun_upd_idem)
  have "fold chat_effect_do effects ?s1 = ?s1\<lparr>cs_timers := (cs_timers s)(c := Map.empty)\<rparr>"
    using zero timers_ok_cancelled [OF t'] cancel [of ?s1 "ct_idleTimer ct"]
      cancel [of "?s1\<lparr>cs_timers := (cs_timers s)(c := (cs_timers s c)(ct_idleTimer ct := None))\<rparr>" "ct_forceCloseTimer ct"]
    by (simp add: eff)
  with w show ?thesis by (intro chat_ok_local [OF assms(1), of c]) (auto simp: timers_ok_None)
qed

lemma chat_step_ok: "chat_ok s \<Longrightarrow> chat_step s e s' \<Longrightarrow> chat_ok s'"
  by (erule chat_step.cases) (simp_all add: chat_up_ok chat_message_ok chat_fire_ok chat_down_ok)

interpretation chat: step_invariant chat_step chat_ok
  by unfold_locales (rule chat_step_ok)

lemma chat_init_ok: "chat_ok chat_init"
  by (simp add: chat_ok_def chat_init_def WebChatServer_state_def timers_ok_None)

section \<open>Pipelines\<close>

type_synonym wire_request = "bytes \<times> bytes \<times> bytes \<times> (bytes \<times> bytes) list \<times> bytes"

definition wire :: "wire_request \<Rightarrow> bytes" where
  "wire r = (case r of (meth, tgt, version, hs, body) \<Rightarrow> serialize_request meth tgt version hs body)"

definition wire_ok :: "wire_request \<Rightarrow> bool" where
  "wire_ok r \<longleftrightarrow> (case r of (meth, tgt, version, hs, body) \<Rightarrow> request_ok meth tgt version hs body)"

definition wire_chat :: "wire_request \<Rightarrow> chat_request" where
  "wire_chat r = (case r of (meth, tgt, version, hs, body) \<Rightarrow> (tgt, body))"

lemma stream_requests_new_empty: "stream_requests HttpParser_new [] acc = (False, acc, HttpParser_new, [])"
  by (simp add: stream_requests.simps [of HttpParser_new] parse_stream_new_empty) (simp add: HttpParser_new_def)

lemma stream_requests_pipeline:
  "list_all wire_ok reqs \<Longrightarrow>
   stream_requests HttpParser_new (concat (map wire reqs)) acc = (False, acc @ map wire_chat reqs, HttpParser_new, [])"
proof (induction reqs arbitrary: acc)
  case Nil
  then show ?case by (simp add: stream_requests_new_empty)
next
  case (Cons r reqs)
  obtain meth tgt version hs body where r: "r = (meth, tgt, version, hs, body)" by (metis prod_cases5)
  define rest where "rest = concat (map wire reqs)"
  have ok: "request_ok meth tgt version hs body" using Cons.prems r by (simp add: wire_ok_def)
  obtain p1 where p1: "parse_stream HttpParser_new (wire r @ rest) = (True, p1, rest)"
    "hp_state p1 = GotAll" "hp_path p1 = tgt" "hp_body p1 = body"
    using parse_serialized [OF ok, of HttpParser_new rest] by (auto simp: r wire_def HttpParser_new_def)
  have wc: "wire_chat r = (hp_path p1, hp_body p1)" using p1(3,4) r by (simp add: wire_chat_def)
  have "stream_requests HttpParser_new (wire r @ rest) acc = stream_requests HttpParser_new rest (acc @ [wire_chat r])"
    by (subst stream_requests.simps) (simp add: p1(1,2) wc Let_def stream_requests_new_empty)
  with Cons.IH [folded rest_def] Cons.prems show ?case by (simp flip: rest_def)
qed

text \<open>What the server promises each client, written over the clients and not over the calls: the page goes to the
  client that asked for it; a chat message goes as a line to every registered client and is acknowledged to its
  sender, after the line; any other request is ignored.\<close>

definition http_answer :: "bytes \<Rightarrow> bytes \<Rightarrow> bytes" where
  "http_answer contentType content =
     ''HTTP/1.1 200 OK'' @ kCRLF @ ''Content-Type: '' @ contentType @ kCRLF
     @ ''Content-Length: '' @ to_string (length content) @ kCRLF @ ''Connection: Keep-Alive'' @ kCRLF @ kCRLF @ content"

definition broadcast_line :: "bytes \<Rightarrow> bytes \<Rightarrow> bytes" where
  "broadcast_line peer body = ''Broadcast: '' @ (''['' @ peer @ '']: '' @ body) @ kCRLF"

definition chat_answers :: "bytes \<Rightarrow> conn_ptr \<Rightarrow> conn_ptr set \<Rightarrow> conn_ptr \<Rightarrow> chat_request \<Rightarrow> bytes list" where
  "chat_answers peer sender clients d request =
     (case request of (path, body) \<Rightarrow>
        if path = ''/'' then (if d = sender then [http_answer ''text/html; charset=utf-8'' g_chat_html] else [])
        else if path = ''/chat'' then
          (if d \<in> clients then [broadcast_line peer body] else [])
          @ (if d = sender then [http_answer ''text/plain'' ''OK''] else [])
        else [])"

fun sent_to :: "conn_ptr \<Rightarrow> chat_effect list \<Rightarrow> bytes list" where
  "sent_to d [] = []"
| "sent_to d (ChatSend c m # es) = (if c = d then m # sent_to d es else sent_to d es)"
| "sent_to d (_ # es) = sent_to d es"

lemma sent_to_append [simp]: "sent_to d (es @ fs) = sent_to d es @ sent_to d fs"
  by (induction d es rule: sent_to.induct) simp_all

lemma sent_to_sends: "sent_to d (filter is_send es) = sent_to d es"
  by (induction d es rule: sent_to.induct) (simp_all add: is_send_def)

lemma sent_to_all:
  assumes "distinct cs"
  shows "sent_to d (map (\<lambda>c. ChatSend c m) cs) = (if d \<in> set cs then [m] else [])"
  using assms by (induction cs) auto

lemma respond_answers:
  assumes "finite (wc_connections w)"
  shows "sent_to d (onMessage_respond peer conn w r) = chat_answers peer conn (wc_connections w) d r"
  using assms
  by (auto simp: onMessage_respond_def WebChatServer_broadcast_def WebChatServer_sendHttpResponse_def sent_to_all
      chat_answers_def http_answer_def broadcast_line_def split: prod.splits)

lemma respond_all_answers:
  assumes "finite (wc_connections w)"
  shows "sent_to d (concat (map (onMessage_respond peer conn w) rs)) =
    concat (map (chat_answers peer conn (wc_connections w) d) rs)"
  by (induction rs) (simp_all add: respond_answers [OF assms])

section \<open>Properties\<close>

text \<open>C16. A pipeline of well-formed requests, however its bytes are cut into reads, is served completely and in
  order: every call of \<open>onMessage\<close> returns; each client \<open>d\<close> is sent, request by request in their order,
  the page if it asked for \<open>/\<close>, for a \<open>/chat\<close> request the broadcast line if it is registered and then the
  acknowledgement if it is the sender, nothing for any other path, and nothing else; and afterwards the parser and
  the buffer are as at the beginning.\<close>

theorem WebChatServer_answers_pipeline:
  assumes "Buffer_ok buf" "Buffer_content buf = []" "wc_parsers w conn = Some HttpParser_new"
    and "finite (wc_connections w)"
    and "list_all wire_ok reqs" "concat (map snd pieces) = concat (map wire reqs)"
  shows "\<exists>w' buf' effects. chat_feed peer conn pieces buf w = Some (w', buf', effects)
    \<and> Buffer_content buf' = [] \<and> wc_parsers w' conn = Some HttpParser_new
    \<and> (\<forall>d. sent_to d effects = concat (map (\<lambda>r. chat_answers peer conn (wc_connections w) d (wire_chat r)) reqs))"
proof -
  have "stream_requests HttpParser_new (Buffer_content buf) [] = (False, [], HttpParser_new, Buffer_content buf)"
    using stream_requests_new_empty assms(2) by simp
  moreover have "stream_requests HttpParser_new (Buffer_content buf @ concat (map snd pieces)) [] =
      (False, map wire_chat reqs, HttpParser_new, [])"
    using stream_requests_pipeline [OF assms(5), of "[]"] assms(2,6) by simp
  ultimately obtain w' buf' effects where "chat_feed peer conn pieces buf w = Some (w', buf', effects)"
    "Buffer_content buf' = []" "wc_parsers w' conn = Some HttpParser_new"
    and f: "filter is_send effects = concat (map (onMessage_respond peer conn w) (map wire_chat reqs))"
    using chat_feed_spec [OF assms(1,3)] by fastforce
  moreover have "sent_to d effects = concat (map (\<lambda>r. chat_answers peer conn (wc_connections w) d (wire_chat r)) reqs)" for d
    using respond_all_answers [OF assms(4), of d peer conn "map wire_chat reqs"] sent_to_sends [of d effects] f
    by (simp add: comp_def)
  ultimately show ?thesis by blast
qed

text \<open>Client 1 asks for the page and posts \<open>hi\<close>, in three reads; client 2 is registered too.\<close>

theorem WebChatServer_answers_pipeline_witness:
  "\<exists>w' buf' effects. chat_feed ''1.2.3.4:5'' 1
       [(6, ''GE''), (7, ''T / HTTP/1.1'' @ kCRLF @ kCRLF @ ''POST /chat HTTP/1.1'' @ kCRLF @ ''Content-''),
        (8, ''Length: 2'' @ kCRLF @ kCRLF @ ''hi'')] (Buffer_new 64)
       (WebChatServer_state\<lparr>wc_connections := {1, 2}, wc_parsers := [1 \<mapsto> HttpParser_new]\<rparr>) = Some (w', buf', effects)
     \<and> sent_to 1 effects = [http_answer ''text/html; charset=utf-8'' g_chat_html,
          broadcast_line ''1.2.3.4:5'' ''hi'', http_answer ''text/plain'' ''OK'']
     \<and> sent_to 2 effects = [broadcast_line ''1.2.3.4:5'' ''hi'']"
proof -
  let ?w = "WebChatServer_state\<lparr>wc_connections := {1, 2}, wc_parsers := [1 \<mapsto> HttpParser_new]\<rparr>"
  let ?pieces = "[(6, ''GE''), (7, ''T / HTTP/1.1'' @ kCRLF @ kCRLF @ ''POST /chat HTTP/1.1'' @ kCRLF @ ''Content-''),
        (8, ''Length: 2'' @ kCRLF @ kCRLF @ ''hi'')] :: (TimerId \<times> bytes) list"
  let ?r = "(''GET'', ''/'', ''HTTP/1.1'', [], []) :: wire_request"
  let ?p = "(''POST'', ''/chat'', ''HTTP/1.1'', [(''Content-Length'', ''2'')], ''hi'') :: wire_request"
  have pcl: "parseContentLength ''2'' = Some 2"
    by (simp add: parseContentLength_def from_chars_def decimal_def isdigit_def ord_def SIZE_MAX_def)
  have low: "toLowerAscii ''Content-Length'' = ''content-length''" by code_simp
  have "token ''GET''" "target ''/''" "token ''POST''" "target ''/chat''" "token ''Content-Length''" "field_value ''2''"
    by code_simp+
  then have ok: "list_all wire_ok [?r, ?p]" by (simp add: wire_ok_def request_ok_def lowered_def low pcl)
  have "concat (map snd ?pieces) = concat (map wire [?r, ?p])" by (simp add: wire_def serialize_request_def header_line_def)
  from WebChatServer_answers_pipeline [OF _ _ _ _ ok this, of "Buffer_new 64" ?w 1 "''1.2.3.4:5''"]
  show ?thesis by (auto simp: chat_answers_def wire_chat_def)
qed

text \<open>C17. Timers follow connections: in every run the registered connections are exactly the ones that are up, a
  connected one has exactly one timer, its idle timer, and one that is not up has none, so a timer never
  outlives its connection; and an idle connection is reaped, since when its timer fires it is shut down with a
  force-close timer as its only timer, which forces the close when it fires.\<close>

theorem WebChatServer_timers:
  assumes "run chat_step chat_init es s"
  shows "(c \<in> wc_connections (cs_chat s) \<longleftrightarrow> cs_state s c = kConnected \<or> cs_state s c = kDisconnecting)
    \<and> (c \<notin> wc_connections (cs_chat s) \<longrightarrow> cs_timers s c = Map.empty)
    \<and> (cs_state s c = kConnected \<longrightarrow>
         (\<exists>i. i \<noteq> 0 \<and> cs_timers s c = [i \<mapsto> IdleTimeout]
            \<and> (\<forall>n. n \<noteq> 0 \<longrightarrow> n \<noteq> i \<longrightarrow>
                 (\<exists>s1. chat_step s (Fire c i n) s1 \<and> cs_state s1 c = kDisconnecting
                    \<and> cs_timers s1 c = [n \<mapsto> ForceCloseTimeout]
                    \<and> snd (run_timer ForceCloseTimeout (cs_state s1 c) 0 c (cs_chat s1)) = [ChatForceClose c]))))"
proof -
  have ok: "chat_ok s" using chat.inv_run [OF assms chat_init_ok] .
  note t = chat_okD(1) [OF ok, of c] and m = chat_okD(2) [OF ok, of c]
  show ?thesis
  proof (cases "wc_idleTimers (cs_chat s) c")
    case None
    with t m show ?thesis by (auto simp: timers_ok_None)
  next
    case (Some ct)
    note d = timers_okD [OF t [unfolded Some]]
    have reap: "\<exists>s1. chat_step s (Fire c (ct_idleTimer ct) n) s1 \<and> cs_state s1 c = kDisconnecting
        \<and> cs_timers s1 c = [n \<mapsto> ForceCloseTimeout]
        \<and> snd (run_timer ForceCloseTimeout (cs_state s1 c) 0 c (cs_chat s1)) = [ChatForceClose c]"
      if con: "cs_state s c = kConnected" and n: "n \<noteq> 0" "n \<noteq> ct_idleTimer ct" for n
    proof -
      have tm: "cs_timers s c = [ct_idleTimer ct \<mapsto> IdleTimeout]" using timers_connected t Some con by simp
      let ?w = "(cs_chat s)\<lparr>wc_idleTimers :=
        (wc_idleTimers (cs_chat s))(c \<mapsto> ct\<lparr>ct_idleTimer := 0, ct_forceCloseTimer := n\<rparr>)\<rparr>"
      have "run_timer IdleTimeout (cs_state s c) n c (cs_chat s) =
          (?w, [ChatShutdown c, ChatRunAfter c n fifteen_seconds ForceCloseTimeout])"
        using con Some by (simp add: run_timer_def WebChatServer_handleIdleTimeout_def)
      note fire = chat_fire [of s c "ct_idleTimer ct" IdleTimeout n, OF _ n(1) _ this]
      let ?s1 = "fold chat_effect_do [ChatShutdown c, ChatRunAfter c n fifteen_seconds ForceCloseTimeout]
            (s\<lparr>cs_chat := ?w, cs_timers := (cs_timers s)(c := (cs_timers s c)(ct_idleTimer ct := None))\<rparr>)"
      have step: "chat_step s (Fire c (ct_idleTimer ct) n) ?s1" by (rule fire) (use tm n(2) in simp_all)
      have s1: "cs_state ?s1 c = kDisconnecting" "cs_timers ?s1 c = [n \<mapsto> ForceCloseTimeout]" "cs_chat ?s1 = ?w"
        by (simp_all add: con tm)
      have "snd (run_timer ForceCloseTimeout kDisconnecting 0 c ?w) = [ChatForceClose c]"
        by (simp add: run_timer_def WebChatServer_handleForceCloseTimeout_def)
      then have reaped: "snd (run_timer ForceCloseTimeout (cs_state ?s1 c) 0 c (cs_chat ?s1)) = [ChatForceClose c]"
        unfolding s1(1,3) .
      show ?thesis by (rule exI [of _ ?s1], intro conjI) (rule step, rule s1(1), rule s1(2), rule reaped)
    qed
    have one: "cs_timers s c = [ct_idleTimer ct \<mapsto> IdleTimeout]" if "cs_state s c = kConnected"
      using timers_connected t Some that by simp
    have mem: "c \<in> wc_connections (cs_chat s)" using m Some by simp
    show ?thesis
    proof (intro conjI impI)
      show "c \<in> wc_connections (cs_chat s) \<longleftrightarrow> cs_state s c = kConnected \<or> cs_state s c = kDisconnecting"
        using mem d(1) by simp
      show "cs_timers s c = Map.empty" if "c \<notin> wc_connections (cs_chat s)" using that mem by simp
      assume con: "cs_state s c = kConnected"
      have "ct_idleTimer ct \<noteq> 0" using d(5) [OF con] by simp
      then show "\<exists>i. i \<noteq> 0 \<and> cs_timers s c = [i \<mapsto> IdleTimeout]
            \<and> (\<forall>n. n \<noteq> 0 \<longrightarrow> n \<noteq> i \<longrightarrow>
                 (\<exists>s1. chat_step s (Fire c i n) s1 \<and> cs_state s1 c = kDisconnecting
                    \<and> cs_timers s1 c = [n \<mapsto> ForceCloseTimeout]
                    \<and> snd (run_timer ForceCloseTimeout (cs_state s1 c) 0 c (cs_chat s1)) = [ChatForceClose c]))"
        using one [OF con] reap [OF con] by blast
    qed
  qed
qed

theorem WebChatServer_timers_witness:
  "\<exists>s. run chat_step chat_init [Up 1 5] s \<and> cs_state s 1 = kConnected \<and> (\<exists>i. cs_timers s 1 = [i \<mapsto> IdleTimeout])"
proof -
  obtain w effects where o: "WebChatServer_onConnection True 5 1 (cs_chat chat_init) = (w, effects)" by fastforce
  have eff: "effects = [ChatRunAfter 1 5 fifteen_seconds IdleTimeout]"
    using o by (auto simp: WebChatServer_onConnection_def WebChatServer_refreshIdleTimer_def ConnectionTimers_new_def Let_def)
  let ?s = "fold chat_effect_do effects (chat_init\<lparr>cs_chat := w, cs_state := (cs_state chat_init)(1 := kConnected)\<rparr>)"
  have "chat_step chat_init (Up 1 5) ?s" by (rule chat_up [OF _ _ _ o]) (simp_all add: chat_init_def)
  then have r: "run chat_step chat_init [Up 1 5] ?s" by (blast intro: run.intros)
  have st: "cs_state ?s 1 = kConnected" by (simp add: eff)
  from WebChatServer_timers [OF r, of 1] st have "\<exists>i. cs_timers ?s 1 = [i \<mapsto> IdleTimeout]" by blast
  with r st show ?thesis by blast
qed

section \<open>Behaviours to know about\<close>

text \<open>A client that sends a malformed request and keeps its side open is never closed: the answer shuts the
  connection down, so the idle timer finds it not connected and starts no force-close timer.\<close>

lemma malformed_line: "stream_requests HttpParser_new (''x'' @ kCRLF) [] = (True, [], HttpParser_new\<lparr>hp_state := Error\<rparr>, ''x'' @ kCRLF)"
proof -
  have "split_line (''x'' @ kCRLF) = Some (''x'', [])" by code_simp
  moreover have "accept_line HttpParser_new ''x'' = None"
    by (simp add: accept_line_def HttpParser_new_def HttpParser_processRequestLine_def Let_def)
  ultimately have "parse_stream HttpParser_new (''x'' @ kCRLF) = (False, HttpParser_new\<lparr>hp_state := Error\<rparr>, ''x'' @ kCRLF)"
    by (subst parse_stream_line [OF awaits_line_new]) (assumption, simp)
  then show ?thesis by (subst stream_requests.simps) simp
qed

lemma malformed_connection_never_reaped:
  assumes ok: "chat_ok s" and con: "cs_state s c = kConnected" and p: "wc_parsers (cs_chat s) c = Some p"
    and buf: "Buffer_ok buf" "stream_requests p (Buffer_content buf) [] = (True, rs, p', rest)"
    and i: "i \<noteq> 0" "cs_timers s c i = None" and n: "n \<noteq> 0" "n \<noteq> i"
  shows "\<exists>s1 s2. chat_step s (Message c peer i buf) s1 \<and> chat_step s1 (Fire c i n) s2
    \<and> cs_state s2 c = kDisconnecting \<and> cs_timers s2 c = Map.empty \<and> c \<in> wc_connections (cs_chat s2)"
proof -
  note t = chat_okD(1) [OF ok, of c]
  obtain ct where ct: "wc_idleTimers (cs_chat s) c = Some ct"
    using t con by (cases "wc_idleTimers (cs_chat s) c") (auto simp: timers_ok_None)
  have t': "timers_ok kConnected (cs_timers s c) (Some ct)" using t ct con by simp
  have nz: "ct_idleTimer ct \<noteq> 0" using timers_okD(5) [OF t'] by simp
  have mem: "c \<in> wc_connections (cs_chat s)" using chat_okD(2) [OF ok, of c] ct by simp
  obtain buf' where l: "onMessage_loop p buf [] = Some (True, rs, p', buf')"
    using onMessage_loop_refines [OF buf(1), of p "[]"] buf(2) by auto
  let ?w = "(cs_chat s)\<lparr>wc_idleTimers := (wc_idleTimers (cs_chat s))(c \<mapsto> ct\<lparr>ct_idleTimer := i\<rparr>),
    wc_parsers := (wc_parsers (cs_chat s))(c \<mapsto> p')\<rparr>"
  let ?es = "[ChatCancel c (ct_idleTimer ct), ChatRunAfter c i fifteen_seconds IdleTimeout,
    ChatSend c bad_request, ChatShutdown c]"
  have "WebChatServer_onMessage peer True i c buf (cs_chat s) = Some (?w, buf', ?es)"
    using ct nz by (simp add: WebChatServer_onMessage_def WebChatServer_refreshIdleTimer_def p l Let_def)
  then have m: "WebChatServer_onMessage peer (cs_state s c = kConnected) i c buf (cs_chat s) = Some (?w, buf', ?es)"
    using con by simp
  define s1 where "s1 = fold chat_effect_do ?es (s\<lparr>cs_chat := ?w\<rparr>)"
  have step1: "chat_step s (Message c peer i buf) s1"
    unfolding s1_def by (rule chat_message [OF _ i m]) (simp add: con)
  have tm1: "cs_timers s1 c = [i \<mapsto> IdleTimeout]"
    unfolding s1_def using con by (simp add: timers_connected [OF t'])
  have s1: "cs_state s1 c = kDisconnecting" "cs_chat s1 = ?w"
    unfolding s1_def using con by simp_all
  have r: "run_timer IdleTimeout (cs_state s1 c) n c (cs_chat s1) = (cs_chat s1, [])"
    by (simp add: s1(1) run_timer_def WebChatServer_handleIdleTimeout_def)
  have "cs_timers s1 c i = Some IdleTimeout" "cs_timers s1 c n = None" using tm1 n(2) by simp_all
  note step2 = chat_fire [OF this(1) n(1) this(2) r, unfolded fold_simps]
  have "c \<in> wc_connections (cs_chat s1)" using mem by (simp add: s1(2))
  then show ?thesis
    by (intro exI conjI) (rule step1, rule step2, simp_all add: s1(1) tm1)
qed

text \<open>Requests completed in the same read before a malformed one are not answered.\<close>

lemma requests_before_malformed_dropped:
  assumes "Buffer_ok buf" "wc_parsers w conn = Some p" "stream_requests p (Buffer_content buf) [] = (True, rs, p', rest)"
  shows "\<exists>w' buf' effects. WebChatServer_onMessage peer isConnected newTimer conn buf w = Some (w', buf', effects)
    \<and> filter is_send effects = [ChatSend conn bad_request]"
  by (rule onMessage_spec [OF assms, of peer isConnected newTimer]) auto

text \<open>A request for any other path gets no answer at all.\<close>

lemma unknown_path_unanswered: "path \<noteq> ''/'' \<Longrightarrow> path \<noteq> ''/chat'' \<Longrightarrow> onMessage_respond peer conn w (path, body) = []"
  by (simp add: onMessage_respond_def)

text \<open>The sender of a chat message reads the raw broadcast line before the status line of its response, outside
  any HTTP message.\<close>

lemma broadcast_precedes_response:
  assumes "finite (wc_connections w)" "conn \<in> wc_connections w"
  shows "\<exists>before after. onMessage_respond peer conn w (''/chat'', msg) =
     before @ ChatSend conn (''Broadcast: ['' @ peer @ '']: '' @ msg @ kCRLF) # after
       @ WebChatServer_sendHttpResponse conn ''text/plain'' ''OK''"
proof -
  have "conn \<in> set (sorted_list_of_set (wc_connections w))" using assms by simp
  then obtain xs ys where "sorted_list_of_set (wc_connections w) = xs @ conn # ys" by (meson split_list)
  then show ?thesis
    by (intro exI [of _ "map (\<lambda>d. ChatSend d (''Broadcast: '' @ (''['' @ peer @ '']: '' @ msg) @ kCRLF)) xs"]
        exI [of _ "map (\<lambda>d. ChatSend d (''Broadcast: '' @ (''['' @ peer @ '']: '' @ msg) @ kCRLF)) ys"])
      (simp add: onMessage_respond_def WebChatServer_broadcast_def)
qed

text \<open>A signal taken on the loop's own thread sets the flag without a wakeup: between the test of \<open>quit_\<close> and
  \<open>epoll_wait\<close> the request is not seen until some event arrives.\<close>

lemma signal_on_loop_thread_does_not_wake:
  "\<exists>l'. signalHandler (el_threadId l) (Some l) = Some l' \<and> el_quit l' \<and> el_eventfd l' = el_eventfd l"
  by (simp add: signalHandler_def EventLoop_quit_def quit_set_def EventLoop_isInLoopThread_def)

end
