(* ===== verification/BaseTypes.thy ===== *)
theory BaseTypes
  imports Float64
begin

text \<open>
  Small value types: \<open>src/src/base/Timestamp.h\<close>, \<open>Any.h\<close> and \<open>Singleton.h\<close>. A time stamp is its count of microseconds,
  ordered by it. An \<open>Any\<close> is empty or owns a holder: a value together with the type it was built from; types are
  numbers (their \<open>type_info\<close>, 0 is \<open>void\<close>) and values of every type are embedded in one type \<open>'v\<close>. A singleton is
  the function-local static of \<open>getInstance\<close>.
\<close>

section \<open>Timestamps\<close>

datatype Timestamp = Timestamp (microSecondsSinceEpoch: int)

definition kMicroSecondsPerSecond :: int where "kMicroSecondsPerSecond = 1000 * 1000"

definition Timestamp_new :: Timestamp where "Timestamp_new = Timestamp 0"

text \<open>\<open>now\<close>, from the seconds and microseconds of \<open>gettimeofday\<close>.\<close>

definition Timestamp_now :: "int \<Rightarrow> int \<Rightarrow> Timestamp" where
  "Timestamp_now tv_sec tv_usec = Timestamp (tv_sec * kMicroSecondsPerSecond + tv_usec)"

text \<open>The comparison operators.\<close>

definition Timestamp_less :: "Timestamp \<Rightarrow> Timestamp \<Rightarrow> bool" where
  "Timestamp_less a b \<longleftrightarrow> microSecondsSinceEpoch a < microSecondsSinceEpoch b"

definition Timestamp_equal :: "Timestamp \<Rightarrow> Timestamp \<Rightarrow> bool" where
  "Timestamp_equal a b \<longleftrightarrow> microSecondsSinceEpoch a = microSecondsSinceEpoch b"

instantiation Timestamp :: linorder
begin

definition less_Timestamp :: "Timestamp \<Rightarrow> Timestamp \<Rightarrow> bool" where
  "less_Timestamp a b \<longleftrightarrow> Timestamp_less a b"

definition less_eq_Timestamp :: "Timestamp \<Rightarrow> Timestamp \<Rightarrow> bool" where
  "less_eq_Timestamp a b \<longleftrightarrow> Timestamp_less a b \<or> Timestamp_equal a b"

instance
  by standard (auto simp: less_Timestamp_def less_eq_Timestamp_def Timestamp_less_def Timestamp_equal_def intro: Timestamp.expand)

end

text \<open>The product of a \<open>double\<close> with the constant, truncated towards zero; the sign does not take part in the
  rounding. Only for results inside the range of \<open>int64_t\<close>, as the cast requires.\<close>

definition f64_micros :: "f64 \<Rightarrow> int" where
  "f64_micros seconds =
     (case seconds of
        Finite m e \<Rightarrow>
          if m < 0 then - f64_trunc (f64_mul_int (Finite (- m) e) 1000000) else f64_trunc (f64_mul_int seconds 1000000)
      | _ \<Rightarrow> 0)"

definition addTime :: "Timestamp \<Rightarrow> f64 \<Rightarrow> Timestamp" where
  "addTime timestamp seconds = Timestamp (microSecondsSinceEpoch timestamp + f64_micros seconds)"

text \<open>Stamps compare as the clock readings they are made from.\<close>

lemma Timestamp_now_less:
  assumes "0 \<le> u" "u < 1000000" "0 \<le> u'" "u' < 1000000"
  shows "Timestamp_now s u < Timestamp_now s' u' \<longleftrightarrow> s < s' \<or> s = s' \<and> u < u'"
  using assms by (auto simp: less_Timestamp_def Timestamp_less_def Timestamp_now_def kMicroSecondsPerSecond_def)

section \<open>Any\<close>

type_synonym type_info = nat

text \<open>The implementation behind \<open>Placeholder\<close>, with its two virtual functions.\<close>

record 'v Holder =
  ho_valueType :: type_info
  ho_held :: 'v

definition Holder_new :: "type_info \<Rightarrow> 'v \<Rightarrow> 'v Holder" where
  "Holder_new valueType held = \<lparr>ho_valueType = valueType, ho_held = held\<rparr>"

definition Holder_type :: "'v Holder \<Rightarrow> type_info" where
  "Holder_type h = ho_valueType h"

definition Holder_clone :: "'v Holder \<Rightarrow> 'v Holder" where
  "Holder_clone h = Holder_new (ho_valueType h) (ho_held h)"

record 'v Any =
  any_content :: "'v Holder option"

definition typeid_void :: type_info where "typeid_void = 0"

definition Any_new :: "'v Any" where "Any_new = \<lparr>any_content = None\<rparr>"

definition Any_of :: "type_info \<Rightarrow> 'v \<Rightarrow> 'v Any" where
  "Any_of ty held = \<lparr>any_content = Some (Holder_new ty held)\<rparr>"

text \<open>The copy constructor clones the held value, the move constructor leaves the source empty, assignment copies
  and swaps.\<close>

definition Any_copy :: "'v Any \<Rightarrow> 'v Any" where
  "Any_copy other = \<lparr>any_content = (case any_content other of Some c \<Rightarrow> Some (Holder_clone c) | None \<Rightarrow> None)\<rparr>"

definition Any_move :: "'v Any \<Rightarrow> 'v Any \<times> 'v Any" where
  "Any_move other = (\<lparr>any_content = any_content other\<rparr>, other\<lparr>any_content := None\<rparr>)"

definition Any_swap :: "'v Any \<Rightarrow> 'v Any \<Rightarrow> 'v Any \<times> 'v Any" where
  "Any_swap self other = (self\<lparr>any_content := any_content other\<rparr>, other\<lparr>any_content := any_content self\<rparr>)"

definition Any_assign :: "'v Any \<Rightarrow> 'v Any \<Rightarrow> 'v Any" where
  "Any_assign self other = snd (Any_swap (Any_copy other) self)"

definition Any_empty :: "'v Any \<Rightarrow> bool" where
  "Any_empty a \<longleftrightarrow> any_content a = None"

definition Any_type :: "'v Any \<Rightarrow> type_info" where
  "Any_type a = (case any_content a of Some c \<Rightarrow> Holder_type c | None \<Rightarrow> typeid_void)"

text \<open>\<open>any_cast\<close> of a pointer that may be null; reading a null content as a holder is not reached for a type
  other than \<open>void\<close>.\<close>

definition any_cast :: "type_info \<Rightarrow> 'v Any option \<Rightarrow> 'v option" where
  "any_cast ty operand =
     (case operand of
        None \<Rightarrow> None
      | Some a \<Rightarrow> if Any_type a = ty then map_option ho_held (any_content a) else None)"

lemma clone_same [simp]: "Holder_clone h = h"
  by (simp add: Holder_clone_def Holder_new_def)

lemma any_cast_of: "any_cast ty (Some (Any_of ty' v)) = (if ty = ty' then Some v else None)"
  by (simp add: any_cast_def Any_of_def Any_type_def Holder_type_def Holder_new_def)

lemma any_assign_cast: "any_cast ty (Some (Any_assign self other)) = any_cast ty (Some other)"
  by (simp add: any_cast_def Any_type_def Any_assign_def Any_swap_def Any_copy_def split: option.splits)

section \<open>Singleton\<close>

text \<open>The static of \<open>getInstance\<close> is constructed by the first call and returned by every call; \<open>built\<close> is what the
  default constructor of the class makes.\<close>

definition Singleton_getInstance :: "'a \<Rightarrow> 'a option \<Rightarrow> 'a \<times> 'a option" where
  "Singleton_getInstance built instance0 =
     (case instance0 of None \<Rightarrow> (built, Some built) | Some x \<Rightarrow> (x, instance0))"

text \<open>A later call finds what the earlier ones left, whatever its constructor would have built.\<close>

lemma Singleton_one_instance:
  assumes "Singleton_getInstance c1 i0 = (x, i1)"
  shows "Singleton_getInstance c2 i1 = (x, i1)" "i1 = Some x"
  using assms by (auto simp: Singleton_getInstance_def split: option.splits)

end
