(* ===== verification/ChatServer.thy ===== *)
theory ChatServer
  imports WebChat ConnectionRuns
begin

text \<open>
  The chat server of \<open>src/main.cpp\<close> running on its connections: the callbacks of \<open>WebChat\<close> are called by the
  operations of \<open>TcpConnection\<close>, and what they send goes back into connections, on the thread
  of the connection's loop or through the task queue of another loop. The state holds the server object, the
  connections, the loop each belongs to, and ghosts: the bytes received on a connection, the calls of \<open>send\<close> in order
  with their origin, and for each connection the messages it took and those queued for it. A step is one event of a
  connection's loop with the callbacks it runs; the loops interleave between steps.
\<close>

section \<open>State\<close>

type_synonym message = "conn_ptr \<times> bytes"

record chat_world =
  cw_chat :: WebChatServer
  cw_conn :: "conn_ptr \<rightharpoonup> conn_sys"
  cw_loop :: "conn_ptr \<Rightarrow> loop_ptr"
  cw_received :: "conn_ptr \<Rightarrow> bytes"
  cw_sends :: "(conn_ptr \<times> message) list"
  cw_log :: "conn_ptr \<Rightarrow> message list"
  cw_queue :: "conn_ptr \<Rightarrow> message list"

definition world_init :: chat_world where
  "world_init = \<lparr>cw_chat = WebChatServer_state, cw_conn = Map.empty, cw_loop = (\<lambda>_. 0), cw_received = (\<lambda>_. []),
     cw_sends = [], cw_log = (\<lambda>_. []), cw_queue = (\<lambda>_. [])\<rparr>"

text \<open>A member function called on a connection, as a function.\<close>

definition conn_do :: "conn_event \<Rightarrow> conn_sys \<Rightarrow> conn_sys option" where
  "conn_do e s = map_option (\<lambda>(c', acts).
     \<lparr>cs_conn = c', cs_tasks = cs_tasks s @ queued_tasks acts,
      cs_trace = cs_trace s @ acts, cs_accepted = cs_accepted s @ event_bytes e (cs_conn s),
      cs_handed = cs_handed s @ event_fds e (cs_conn s)\<rparr>) (event_do e (cs_conn s))"

lemma conn_do_step: "conn_do e s = Some s' \<Longrightarrow> event_ok e (cs_conn s) \<Longrightarrow> conn_step s e s'"
  by (auto simp: conn_do_def intro: conn_event)

definition world_call :: "conn_ptr \<Rightarrow> conn_event \<Rightarrow> chat_world \<Rightarrow> chat_world option" where
  "world_call d e s = Option.bind (cw_conn s d) (\<lambda>cs.
     map_option (\<lambda>cs'. s\<lparr>cw_conn := (cw_conn s)(d \<mapsto> cs')\<rparr>) (conn_do e cs))"

definition conn_state :: "chat_world \<Rightarrow> conn_ptr \<Rightarrow> StateE" where
  "conn_state s d = (case cw_conn s d of Some cs \<Rightarrow> tc_state (cs_conn cs) | None \<Rightarrow> kConnecting)"

section \<open>Effects of the callbacks\<close>

text \<open>The bookkeeping of one \<open>send\<close>: called on the thread of the connection's loop it is taken at once, on another
  thread it waits in the queue.\<close>

definition note_send :: "(bytes \<Rightarrow> errno + nat) \<Rightarrow> conn_ptr \<Rightarrow> conn_ptr \<Rightarrow> bytes \<Rightarrow> conn_sys \<Rightarrow> chat_world \<Rightarrow> chat_world" where
  "note_send write c d m cs s =
     (let inLoop = (cw_loop s c = cw_loop s d); s1 = s\<lparr>cw_sends := cw_sends s @ [(c, d, m)]\<rparr>
      in if tc_state (cs_conn cs) \<noteq> kConnected then s1
         else if \<not> inLoop then s1\<lparr>cw_queue := (cw_queue s)(d := cw_queue s d @ [(c, m)])\<rparr>
         else if takes_message write m (cs_conn cs) then s1\<lparr>cw_log := (cw_log s)(d := cw_log s d @ [(c, m)])\<rparr>
         else s1)"

text \<open>An effect of a callback that runs on the loop of connection \<open>c\<close>; timers are started and cancelled outside
  this model, and may fire at any time.\<close>

fun world_effect :: "(bytes \<Rightarrow> errno + nat) \<Rightarrow> conn_ptr \<Rightarrow> chat_effect \<Rightarrow> chat_world \<Rightarrow> chat_world option" where
  "world_effect write c (ChatSend d m) s =
     Option.bind (cw_conn s d) (\<lambda>cs.
       world_call d (CallSend (cw_loop s c = cw_loop s d) write m) (note_send write c d m cs s))"
| "world_effect write c (ChatShutdown d) s = world_call d (CallShutdown (cw_loop s c = cw_loop s d)) s"
| "world_effect write c (ChatForceClose d) s = world_call d CallForceClose s"
| "world_effect write c _ s = Some s"

fun world_effects ::
    "(nat \<Rightarrow> bytes \<Rightarrow> errno + nat) \<Rightarrow> conn_ptr \<Rightarrow> chat_effect list \<Rightarrow> chat_world \<Rightarrow> chat_world option" where
  "world_effects writes c [] s = Some s"
| "world_effects writes c (e # es) s =
     Option.bind (world_effect (writes 0) c e s) (world_effects (\<lambda>i. writes (Suc i)) c es)"

section \<open>Callbacks\<close>

definition connection_callback ::
    "TimerId \<Rightarrow> (nat \<Rightarrow> bytes \<Rightarrow> errno + nat) \<Rightarrow> conn_ptr \<Rightarrow> chat_world \<Rightarrow> chat_world option" where
  "connection_callback newTimer writes d s =
     (let (w, effects) = WebChatServer_onConnection (conn_state s d = kConnected) newTimer d (cw_chat s)
      in world_effects writes d effects (s\<lparr>cw_chat := w\<rparr>))"

definition message_callback ::
    "(32 word \<Rightarrow> bytes) \<Rightarrow> TimerId \<Rightarrow> (nat \<Rightarrow> bytes \<Rightarrow> errno + nat) \<Rightarrow> conn_ptr \<Rightarrow> chat_world \<Rightarrow> chat_world option" where
  "message_callback inet_ntop newTimer writes d s =
     Option.bind (cw_conn s d) (\<lambda>cs.
       Option.bind (WebChatServer_onMessage (InetAddress_toIpPort inet_ntop (tc_peerAddr (cs_conn cs)))
                     (conn_state s d = kConnected) newTimer d (tc_inputBuffer (cs_conn cs)) (cw_chat s))
         (\<lambda>(w, buf, effects).
            Option.bind (world_call d (TakeInput buf) (s\<lparr>cw_chat := w\<rparr>)) (world_effects writes d effects)))"

definition new_actions :: "conn_sys \<Rightarrow> conn_sys \<Rightarrow> conn_action list" where
  "new_actions cs cs' = drop (length (cs_trace cs)) (cs_trace cs')"

definition run_callbacks ::
    "(32 word \<Rightarrow> bytes) \<Rightarrow> TimerId \<Rightarrow> (nat \<Rightarrow> bytes \<Rightarrow> errno + nat) \<Rightarrow> conn_ptr \<Rightarrow> conn_action list \<Rightarrow>
     chat_world \<Rightarrow> chat_world option" where
  "run_callbacks inet_ntop newTimer writes d acts s =
     (if CallConnection \<in> set acts then connection_callback newTimer writes d s
      else if CallMessage \<in> set acts then message_callback inet_ntop newTimer writes d s
      else Some s)"

section \<open>Steps\<close>

text \<open>What the loop of a connection does to it: everything but the calls and settings of its users.\<close>

fun loop_event :: "conn_event \<Rightarrow> bool" where
  "loop_event (TakeInput _) \<longleftrightarrow> False"
| "loop_event (CallSend _ _ _) \<longleftrightarrow> False"
| "loop_event (CallSendFile _ _ _) \<longleftrightarrow> False"
| "loop_event (CallShutdown _) \<longleftrightarrow> False"
| "loop_event CallForceClose \<longleftrightarrow> False"
| "loop_event StoreDisconnecting \<longleftrightarrow> False"
| "loop_event (QueueLate _) \<longleftrightarrow> False"
| "loop_event (SetWatermarks _ _ _ _) \<longleftrightarrow> False"
| "loop_event (SetCallbacks _ _ _ _) \<longleftrightarrow> False"
| "loop_event _ \<longleftrightarrow> True"

text \<open>The bytes an event delivers, and the bookkeeping of a queued message that is run.\<close>

fun event_input :: "conn_event \<Rightarrow> TcpConnection \<Rightarrow> bytes" where
  "event_input (OnRead readv) c = (case readv (readFd_capacity (tc_inputBuffer c)) of Inr data \<Rightarrow> data | Inl _ \<Rightarrow> [])"
| "event_input _ c = []"

fun note_task :: "conn_event \<Rightarrow> conn_ptr \<Rightarrow> conn_sys \<Rightarrow> chat_world \<Rightarrow> chat_world" where
  "note_task (RunTask write) d cs s =
     (case cs_tasks cs of
        SendTask m # _ \<Rightarrow>
          s\<lparr>cw_queue := (cw_queue s)(d := tl (cw_queue s d)),
            cw_log := (cw_log s)(d := cw_log s d @ (if takes_message write m (cs_conn cs) then take 1 (cw_queue s d) else []))\<rparr>
      | _ \<Rightarrow> s)"
| "note_task _ d cs s = s"

definition note_event :: "conn_event \<Rightarrow> conn_ptr \<Rightarrow> conn_sys \<Rightarrow> chat_world \<Rightarrow> chat_world" where
  "note_event e d cs s =
     note_task e d cs (s\<lparr>cw_received := (cw_received s)(d := cw_received s d @ event_input e (cs_conn cs))\<rparr>)"

text \<open>A connection as \<open>TcpServer::newConnection\<close> hands it to its loop.\<close>

definition accepted_conn :: "bytes \<Rightarrow> fd \<Rightarrow> InetAddress \<Rightarrow> conn_sys option" where
  "accepted_conn nm sockfd peerAddr = conn_do (SetCallbacks True True False True) (conn_init nm sockfd peerAddr peerAddr)"

datatype world_event =
    WNew conn_ptr loop_ptr bytes fd InetAddress
  | WConn conn_ptr conn_event TimerId "nat \<Rightarrow> bytes \<Rightarrow> errno + nat"
  | WTimer conn_ptr chat_timer TimerId "nat \<Rightarrow> bytes \<Rightarrow> errno + nat"

inductive world_step :: "(32 word \<Rightarrow> bytes) \<Rightarrow> chat_world \<Rightarrow> world_event \<Rightarrow> chat_world \<Rightarrow> bool"
  for inet_ntop where
  world_new: "cw_conn s d = None \<Longrightarrow> accepted_conn nm sockfd peerAddr = Some cs \<Longrightarrow>
    world_step inet_ntop s (WNew d loop nm sockfd peerAddr)
      (s\<lparr>cw_conn := (cw_conn s)(d \<mapsto> cs), cw_loop := (cw_loop s)(d := loop)\<rparr>)"
| world_conn: "cw_conn s d = Some cs \<Longrightarrow> loop_event e \<Longrightarrow> conn_step cs e cs' \<Longrightarrow> (\<And>i. write_ok (writes i)) \<Longrightarrow>
    run_callbacks inet_ntop newTimer writes d (new_actions cs cs')
      (note_event e d cs (s\<lparr>cw_conn := (cw_conn s)(d \<mapsto> cs')\<rparr>)) = Some s' \<Longrightarrow>
    world_step inet_ntop s (WConn d e newTimer writes) s'"
| world_timer: "cw_conn s d = Some cs \<Longrightarrow> (\<And>i. write_ok (writes i)) \<Longrightarrow>
    run_timer k (conn_state s d) newTimer d (cw_chat s) = (w, effects) \<Longrightarrow>
    world_effects writes d effects (s\<lparr>cw_chat := w\<rparr>) = Some s' \<Longrightarrow>
    world_step inet_ntop s (WTimer d k newTimer writes) s'"

section \<open>What a loop event does\<close>

definition send_msgs :: "conn_task list \<Rightarrow> bytes list" where
  "send_msgs ts = concat (map (\<lambda>t. case t of SendTask m \<Rightarrow> [m] | _ \<Rightarrow> []) ts)"

lemma send_msgs_simps [simp]:
  "send_msgs [] = []" "send_msgs (ts @ us) = send_msgs ts @ send_msgs us"
  "send_msgs (t # ts) = (case t of SendTask m \<Rightarrow> [m] | _ \<Rightarrow> []) @ send_msgs ts"
  by (simp_all add: send_msgs_def)

text \<open>What stays the same under everything but a setter.\<close>

definition settled :: "TcpConnection \<Rightarrow> TcpConnection \<Rightarrow> bool" where
  "settled c c' \<longleftrightarrow> tc_connectionCallback c' = tc_connectionCallback c \<and> tc_messageCallback c' = tc_messageCallback c
     \<and> tc_peerAddr c' = tc_peerAddr c"

text \<open>An operation that calls nobody back and leaves the state and the input alone.\<close>

definition quiet :: "TcpConnection \<Rightarrow> conn_action list \<Rightarrow> TcpConnection \<Rightarrow> bool" where
  "quiet c acts c' \<longleftrightarrow> settled c c' \<and> tc_state c' = tc_state c
     \<and> (tc_state c \<noteq> kDisconnected \<longrightarrow> tc_inputBuffer c' = tc_inputBuffer c)
     \<and> CallConnection \<notin> set acts \<and> CallMessage \<notin> set acts \<and> send_msgs (queued_tasks acts) = []"

text \<open>An operation that changes the state and calls the connection callback.\<close>

definition moves :: "TcpConnection \<Rightarrow> conn_action list \<Rightarrow> TcpConnection \<Rightarrow> bool" where
  "moves c acts c' \<longleftrightarrow> settled c c'
     \<and> (tc_state c = kConnecting \<and> tc_state c' = kConnected \<and> tc_inputBuffer c' = tc_inputBuffer c
        \<or> (tc_state c = kConnected \<or> tc_state c = kDisconnecting) \<and> tc_state c' = kDisconnected)
     \<and> CallConnection \<in> set acts \<and> send_msgs (queued_tasks acts) = []"

lemma ctl_of_no_message [simp]: "ctl_of m c \<noteq> CallMessage" "CallMessage \<noteq> ctl_of m c"
  by (simp_all add: ctl_of_def)

lemma quiet_refl: "quiet c [] c"
  by (simp add: quiet_def settled_def)

lemma quiet_trans: "quiet c as c1 \<Longrightarrow> quiet c1 bs c2 \<Longrightarrow> quiet c (as @ bs) c2"
  by (simp add: quiet_def settled_def)

lemma sendInLoop_quiet:
  assumes "TcpConnection_sendInLoop True w m c = Some (c', acts)"
  shows "quiet c acts c'"
proof -
  obtain n k fault a1 where wr: "sendInLoop_write w m c = (n, k, fault, a1)" by (metis prod_cases4)
  have a1: "quiet c a1 c"
    using wr by (auto simp: sendInLoop_write_def quiet_def settled_def Let_def split: if_splits sum.splits)
  obtain c1 a2 where q: "sendInLoop_queue (drop n m) c = (c1, a2)" by fastforce
  have a2: "quiet c a2 c1"
    using q by (auto simp: sendInLoop_queue_def quiet_def settled_def Let_def split: if_splits)
  from assms wr q consider "c' = c" "acts = []" | "c' = c" "acts = a1" | "c' = c1" "acts = a1 @ a2"
    by (auto simp: TcpConnection_sendInLoop_def split: if_splits)
  then show ?thesis using a1 quiet_trans [OF a1 a2] by cases (simp_all add: quiet_refl)
qed

lemma handleWrite_parts_quiet:
  "handleWrite_output w c = (g, c', acts) \<Longrightarrow> quiet c acts c'"
  "handleWrite_lowMark c = (c', acts) \<Longrightarrow> quiet c acts c'"
  "handleWrite_done True c = Some (c', acts) \<Longrightarrow> quiet c acts c'"
  by (auto simp: handleWrite_output_def handleWrite_lowMark_def handleWrite_done_def TcpConnection_shutdownInLoop_def
      quiet_def settled_def Let_def split: if_splits sum.splits)

lemma handleWrite_file_quiet:
  assumes "handleWrite_file sf c = (g, c', acts)"
  shows "quiet c acts c'"
proof -
  let ?sf = "sf (tc_fileFd c) (tc_fileOffset c) (tc_fileSize c - tc_fileOffset c)"
  show ?thesis using assms
    by (cases ?sf) (auto simp: handleWrite_file_def quiet_def settled_def split: if_splits)
qed

lemma handleWrite_quiet: "TcpConnection_handleWrite True w sf c = Some (c', acts) \<Longrightarrow> quiet c acts c'"
  by (rule handleWrite_closed [where R = quiet])
    (auto intro: quiet_refl quiet_trans handleWrite_parts_quiet handleWrite_file_quiet)

lemma handleClose_moves:
  assumes "TcpConnection_handleClose True c = Some (c', acts)" "tc_connectionCallback c" "tc_state c \<noteq> kConnecting"
  shows "quiet c acts c' \<or> moves c acts c'"
proof (cases "tc_state c = kDisconnected")
  case True
  with assms(1) show ?thesis by (simp add: TcpConnection_handleClose_def quiet_refl)
next
  case False
  with assms(3) have st: "tc_state c = kConnected \<or> tc_state c = kDisconnecting" by (cases "tc_state c") auto
  have "moves c acts c'" unfolding moves_def
    using assms(1,2) handleClose_eq [OF False] st by (auto simp: settled_def)
  then show ?thesis ..
qed

lemma connectDestroyed_moves:
  assumes "TcpConnection_connectDestroyed True c = Some (c', acts)"
  shows "quiet c acts c' \<or> moves c acts c'"
  using assms by (auto simp: TcpConnection_connectDestroyed_def quiet_def moves_def settled_def Let_def split: if_splits)

lemma connectEstablished_moves:
  assumes "TcpConnection_connectEstablished True c = Some (c', acts)" "tc_connectionCallback c"
  shows "moves c acts c'"
  using assms by (auto simp: TcpConnection_connectEstablished_def moves_def settled_def Let_def split: if_splits)

lemma task_moves:
  assumes "run_task w t c = Some (c', acts)" "tc_connectionCallback c" "tc_state c \<noteq> kConnecting"
  shows "quiet c acts c' \<or> moves c acts c'"
proof (cases t)
  case (SendTask m)
  with assms sendInLoop_quiet show ?thesis by simp
next
  case ForceCloseTask
  with assms handleClose_moves [of c c' acts] show ?thesis
    by (auto simp: TcpConnection_forceCloseInLoop_def quiet_refl split: if_splits)
qed (use assms in \<open>auto simp: quiet_def settled_def TcpConnection_sendFileInLoop_def TcpConnection_shutdownInLoop_def
    Let_def split: if_splits\<close>)

text \<open>The three outcomes of a loop event: nothing a user notices, a change of state, or input.\<close>

definition delivers :: "bytes \<Rightarrow> TcpConnection \<Rightarrow> conn_action list \<Rightarrow> TcpConnection \<Rightarrow> bool" where
  "delivers data c acts c' \<longleftrightarrow> settled c c' \<and> tc_state c' = tc_state c \<and> tc_state c \<noteq> kConnecting \<and> data \<noteq> [] \<and> acts = [CallMessage]
     \<and> Buffer_content (tc_inputBuffer c') = Buffer_content (tc_inputBuffer c) @ data"

definition outcome :: "bytes \<Rightarrow> TcpConnection \<Rightarrow> conn_action list \<Rightarrow> TcpConnection \<Rightarrow> bool" where
  "outcome data c acts c' \<longleftrightarrow>
     quiet c acts c' \<and> data = [] \<or> moves c acts c' \<and> data = [] \<or> delivers data c acts c'"

lemma handleRead_outcome:
  assumes r: "TcpConnection_handleRead True rd c = Some (c', acts)" and rd: "readv_ok rd"
    and b: "Buffer_ok (tc_inputBuffer c)"
    and cb: "tc_connectionCallback c" "tc_messageCallback c" and st: "tc_state c \<noteq> kConnecting"
  shows "outcome (event_input (OnRead rd) c) c acts c'"
proof (cases "rd (readFd_capacity (tc_inputBuffer c))")
  case (Inl err)
  then have "c' = c\<lparr>tc_inputBuffer := tc_inputBuffer c\<rparr>" "acts = []"
    using r by (simp_all add: TcpConnection_handleRead_def Buffer_readFd_def TcpConnection_handleError_def Let_def)
  with Inl show ?thesis by (simp add: outcome_def quiet_refl)
next
  case (Inr data)
  moreover have "length data \<le> readFd_capacity (tc_inputBuffer c)" using rd Inr by (simp add: readv_ok_def)
  ultimately obtain buf where buf: "Buffer_readFd rd (tc_inputBuffer c) = (Inr (length data), buf)"
    "Buffer_content buf = Buffer_content (tc_inputBuffer c) @ data"
    by (metis readFd_correct [OF b])
  let ?c1 = "c\<lparr>tc_inputBuffer := buf\<rparr>"
  show ?thesis
  proof (cases "data = []")
    case True
    then have "TcpConnection_handleClose True ?c1 = Some (c', acts)"
      using r buf(1) by (simp add: TcpConnection_handleRead_def)
    then have "quiet ?c1 acts c' \<or> moves ?c1 acts c'" by (rule handleClose_moves) (simp_all add: cb st)
    moreover have "quiet c acts c'" if "quiet ?c1 acts c'" "tc_state c = kDisconnected"
      using that by (simp add: quiet_def settled_def)
    moreover have "moves c acts c'" if "moves ?c1 acts c'"
      using that st by (simp add: moves_def settled_def)
    moreover have "moves ?c1 acts c'" if "tc_state c \<noteq> kDisconnected"
    proof -
      have "tc_state ?c1 \<noteq> kDisconnected" using that by simp
      from handleClose_eq [OF this] \<open>TcpConnection_handleClose True ?c1 = Some (c', acts)\<close> st that cb
      show ?thesis by (cases "tc_state c") (auto simp: moves_def settled_def)
    qed
    ultimately have "quiet c acts c' \<or> moves c acts c'" by blast
    with True Inr show ?thesis by (auto simp: outcome_def)
  next
    case False
    then have "c' = ?c1" "acts = [CallMessage]"
      using r buf(1) cb by (simp_all add: TcpConnection_handleRead_def)
    with False Inr buf(2) st show ?thesis by (simp add: outcome_def delivers_def settled_def)
  qed
qed

lemma event_outcome:
  assumes "sys_ok cs" "event_ok e (cs_conn cs)" "event_do e (cs_conn cs) = Some (c', acts)" "loop_event e"
    and cb: "tc_connectionCallback (cs_conn cs)" "tc_messageCallback (cs_conn cs)"
  shows "outcome (event_input e (cs_conn cs)) (cs_conn cs) acts c'"
proof -
  let ?c = "cs_conn cs"
  have ok: "conn_ok ?c" using assms(1) by (simp add: sys_ok_def)
  note reg = registered_open [OF ok]
  show ?thesis
  proof (cases e)
    case Establish
    with assms(3) connectEstablished_moves [OF _ cb(1)] show ?thesis by (simp add: outcome_def)
  next
    case Destroy
    with assms(3) connectDestroyed_moves show ?thesis by (auto simp: outcome_def)
  next
    case (OnRead rd)
    with assms(2) have "readv_ok rd" "tc_state ?c \<noteq> kConnecting" using reg by simp_all
    moreover have "Buffer_ok (tc_inputBuffer ?c)" using ok by (simp add: conn_ok_def)
    ultimately show ?thesis unfolding OnRead using assms(3) OnRead cb by (intro handleRead_outcome) simp_all
  next
    case (OnWrite w sf)
    with assms(3) handleWrite_quiet show ?thesis by (simp add: outcome_def)
  next
    case OnClose
    with assms(2,3) reg handleClose_moves [OF _ cb(1)] show ?thesis by (auto simp: outcome_def)
  next
    case OnError
    with assms(3) show ?thesis by (simp add: outcome_def TcpConnection_handleError_def quiet_refl)
  qed (use assms(3,4) in simp_all)
qed

text \<open>The messages taken from the queue by a step.\<close>

definition ran_msgs :: "conn_event \<Rightarrow> conn_sys \<Rightarrow> bytes list" where
  "ran_msgs e cs = (case e of RunTask _ \<Rightarrow> send_msgs (take 1 (cs_tasks cs)) | _ \<Rightarrow> [])"

definition write_alive :: "(bytes \<Rightarrow> errno + nat) \<Rightarrow> bool" where
  "write_alive w \<longleftrightarrow> (\<forall>m. w m \<noteq> Inl EPIPE \<and> w m \<noteq> Inl ECONNRESET)"

lemma outcome_sends: "outcome data c acts c' \<Longrightarrow> send_msgs (queued_tasks acts) = []"
  by (auto simp: outcome_def quiet_def moves_def delivers_def)

lemma loop_step:
  assumes ok: "sys_ok cs" and st: "conn_step cs e cs'" and e: "loop_event e"
    and cb: "tc_connectionCallback (cs_conn cs)" "tc_messageCallback (cs_conn cs)"
  shows "outcome (event_input e (cs_conn cs)) (cs_conn cs) (new_actions cs cs') (cs_conn cs')"
    and "send_msgs (cs_tasks cs) = ran_msgs e cs @ send_msgs (cs_tasks cs')"
    and "tc_state (cs_conn cs) \<noteq> kDisconnected \<Longrightarrow> (\<And>w. e = RunTask w \<Longrightarrow> write_alive w) \<Longrightarrow>
      cs_accepted cs' = cs_accepted cs @ concat (ran_msgs e cs)"
proof -
  have "outcome (event_input e (cs_conn cs)) (cs_conn cs) (new_actions cs cs') (cs_conn cs')
    \<and> send_msgs (cs_tasks cs) = ran_msgs e cs @ send_msgs (cs_tasks cs')
    \<and> (tc_state (cs_conn cs) \<noteq> kDisconnected \<longrightarrow> (\<forall>w. e = RunTask w \<longrightarrow> write_alive w) \<longrightarrow>
      cs_accepted cs' = cs_accepted cs @ concat (ran_msgs e cs))"
    using st
  proof cases
    case (conn_event c' acts)
    note o = event_outcome [OF ok conn_event(2,3) e cb]
    have "event_bytes e (cs_conn cs) = []" "ran_msgs e cs = []"
      using e conn_event(3) by (cases e; simp add: ran_msgs_def)+
    with o outcome_sends [OF o] show ?thesis unfolding conn_event(1) by (simp add: new_actions_def)
  next
    case (conn_task t ts w c' acts)
    have nc: "tc_state (cs_conn cs) \<noteq> kConnecting" using ok conn_task(3) by (auto simp: sys_ok_def)
    from task_moves [OF conn_task(5) cb(1) nc] have o: "outcome [] (cs_conn cs) acts c'" by (auto simp: outcome_def)
    have "task_bytes w t (cs_conn cs) = concat (ran_msgs e cs)"
      if "tc_state (cs_conn cs) \<noteq> kDisconnected" "write_alive w"
      using that by (cases t) (auto simp: ran_msgs_def conn_task(1,3) takes_message_def write_alive_def)
    with o outcome_sends [OF o] show ?thesis unfolding conn_task(2)
      by (simp add: new_actions_def conn_task(1,3) ran_msgs_def)
  qed
  then show "outcome (event_input e (cs_conn cs)) (cs_conn cs) (new_actions cs cs') (cs_conn cs')"
    and "send_msgs (cs_tasks cs) = ran_msgs e cs @ send_msgs (cs_tasks cs')"
    and "tc_state (cs_conn cs) \<noteq> kDisconnected \<Longrightarrow> (\<And>w. e = RunTask w \<Longrightarrow> write_alive w) \<Longrightarrow>
      cs_accepted cs' = cs_accepted cs @ concat (ran_msgs e cs)" by blast+
qed

section \<open>Bookkeeping invariant\<close>

definition msgs_from :: "conn_ptr \<Rightarrow> message list \<Rightarrow> bytes list" where
  "msgs_from c ms = map snd (filter (\<lambda>x. fst x = c) ms)"

definition sends_to :: "conn_ptr \<Rightarrow> conn_ptr \<Rightarrow> (conn_ptr \<times> message) list \<Rightarrow> bytes list" where
  "sends_to c d xs = map (\<lambda>x. snd (snd x)) (filter (\<lambda>x. fst x = c \<and> fst (snd x) = d) xs)"

lemma msgs_from_simps [simp]:
  "msgs_from c [] = []" "msgs_from c (xs @ ys) = msgs_from c xs @ msgs_from c ys"
  "msgs_from c ((b, m) # xs) = (if b = c then m # msgs_from c xs else msgs_from c xs)"
  by (simp_all add: msgs_from_def)

lemma sends_to_simps [simp]:
  "sends_to c d [] = []" "sends_to c d (xs @ ys) = sends_to c d xs @ sends_to c d ys"
  "sends_to c d ((a, b, m) # xs) = (if a = c \<and> b = d then m # sends_to c d xs else sends_to c d xs)"
  by (simp_all add: sends_to_def)

lemma in_msgs_from: "m \<in> set (msgs_from c ms) \<longleftrightarrow> (c, m) \<in> set ms"
  by (auto simp: msgs_from_def image_iff)

lemma in_sends_to: "m \<in> set (sends_to c d xs) \<longleftrightarrow> (c, d, m) \<in> set xs"
  by (auto simp: sends_to_def image_iff)

text \<open>Nothing has happened to the address yet.\<close>

definition blank :: "chat_world \<Rightarrow> conn_ptr \<Rightarrow> bool" where
  "blank s d \<longleftrightarrow> cw_received s d = [] \<and> cw_log s d = [] \<and> cw_queue s d = []
     \<and> wc_parsers (cw_chat s) d = None \<and> (\<forall>c m. (c, d, m) \<notin> set (cw_sends s) \<and> (d, c, m) \<notin> set (cw_sends s))"

text \<open>The ghosts of a connected connection agree with what it took and with its task queue, and per sender with
  the calls of \<open>send\<close>.\<close>

definition books_ok :: "chat_world \<Rightarrow> conn_ptr \<Rightarrow> conn_sys \<Rightarrow> bool" where
  "books_ok s d cs \<longleftrightarrow> cs_accepted cs = concat (map snd (cw_log s d))
     \<and> map snd (cw_queue s d) = send_msgs (cs_tasks cs)
     \<and> (\<forall>c. msgs_from c (cw_log s d) @ msgs_from c (cw_queue s d) = sends_to c d (cw_sends s))
     \<and> (\<forall>x\<in>set (cw_queue s d). cw_loop s (fst x) \<noteq> cw_loop s d)"

definition entry_ok :: "chat_world \<Rightarrow> conn_ptr \<Rightarrow> conn_sys \<Rightarrow> bool" where
  "entry_ok s d cs \<longleftrightarrow> sys_ok cs \<and> tc_connectionCallback (cs_conn cs) \<and> tc_messageCallback (cs_conn cs)
     \<and> (d \<in> wc_connections (cw_chat s) \<longleftrightarrow> tc_state (cs_conn cs) = kConnected \<or> tc_state (cs_conn cs) = kDisconnecting)
     \<and> (tc_state (cs_conn cs) = kConnecting \<longrightarrow>
          blank s d \<and> cs_accepted cs = [] \<and> Buffer_content (tc_inputBuffer (cs_conn cs)) = [])
     \<and> (tc_state (cs_conn cs) = kConnected \<longrightarrow> books_ok s d cs)"

definition books :: "chat_world \<Rightarrow> bool" where
  "books s \<longleftrightarrow> finite (wc_connections (cw_chat s))
     \<and> (\<forall>d. case cw_conn s d of
           None \<Rightarrow> blank s d \<and> d \<notin> wc_connections (cw_chat s)
         | Some cs \<Rightarrow> entry_ok s d cs)"

lemma booksD:
  "books s \<Longrightarrow> finite (wc_connections (cw_chat s))"
  "books s \<Longrightarrow> cw_conn s d = Some cs \<Longrightarrow> entry_ok s d cs"
  "books s \<Longrightarrow> cw_conn s d = None \<Longrightarrow> blank s d \<and> d \<notin> wc_connections (cw_chat s)"
  unfolding books_def by (auto dest!: spec [of _ d])

lemma booksI:
  assumes "finite (wc_connections (cw_chat s))" "\<And>d cs. cw_conn s d = Some cs \<Longrightarrow> entry_ok s d cs"
    "\<And>d. cw_conn s d = None \<Longrightarrow> blank s d \<and> d \<notin> wc_connections (cw_chat s)"
  shows "books s"
  unfolding books_def using assms by (auto split: option.split)

lemma conn_state_Some [simp]: "cw_conn s d = Some cs \<Longrightarrow> conn_state s d = tc_state (cs_conn cs)"
  by (simp add: conn_state_def)

lemma conn_state_open: "conn_state s d \<noteq> kConnecting \<Longrightarrow> \<exists>cs. cw_conn s d = Some cs"
  by (auto simp: conn_state_def split: option.splits)

text \<open>A registered connection is open.\<close>

lemma registered_conn:
  assumes "books s" "d \<in> wc_connections (cw_chat s)"
  shows "conn_state s d = kConnected \<or> conn_state s d = kDisconnecting"
  using assms booksD(2,3) [OF assms(1), of d] by (cases "cw_conn s d") (auto simp: entry_ok_def)

section \<open>Sending\<close>

text \<open>Two states with the same server object, the same input everywhere and the same settings.\<close>

definition same_conn :: "conn_sys \<Rightarrow> conn_sys \<Rightarrow> bool" where
  "same_conn cs cs' \<longleftrightarrow> settled (cs_conn cs) (cs_conn cs') \<and> tc_inputBuffer (cs_conn cs') = tc_inputBuffer (cs_conn cs)"

definition same_view :: "chat_world \<Rightarrow> chat_world \<Rightarrow> bool" where
  "same_view s s' \<longleftrightarrow> cw_chat s' = cw_chat s \<and> cw_received s' = cw_received s \<and> cw_loop s' = cw_loop s
     \<and> (\<forall>x. rel_option same_conn (cw_conn s x) (cw_conn s' x))"

lemma same_conn_refl [simp]: "same_conn cs cs"
  by (simp add: same_conn_def settled_def)

lemma same_view_refl [simp]: "same_view s s"
  by (auto simp: same_view_def intro!: option.rel_refl)

lemma same_view_trans: "same_view s s1 \<Longrightarrow> same_view s1 s2 \<Longrightarrow> same_view s s2"
proof -
  assume a: "same_view s s1" "same_view s1 s2"
  have "rel_option same_conn (cw_conn s x) (cw_conn s2 x)" for x
  proof -
    have "rel_option same_conn (cw_conn s x) (cw_conn s1 x)" "rel_option same_conn (cw_conn s1 x) (cw_conn s2 x)"
      using a by (simp_all add: same_view_def)
    then show ?thesis
      by (cases "cw_conn s x"; cases "cw_conn s1 x"; cases "cw_conn s2 x") (auto simp: same_conn_def settled_def)
  qed
  with a show ?thesis by (simp add: same_view_def)
qed

lemma same_viewD:
  assumes "same_view s s'" "cw_conn s' d = Some cs'"
  obtains cs where "cw_conn s d = Some cs" "same_conn cs cs'"
  using assms unfolding same_view_def by (metis option_rel_Some2)

lemma send_do:
  assumes "sys_ok cs" "conn_do (CallSend i w m) cs = Some cs'" "write_ok w" "write_alive w"
  shows "sys_ok cs' \<and> same_conn cs cs' \<and> tc_state (cs_conn cs') = tc_state (cs_conn cs)
    \<and> (tc_state (cs_conn cs) = kConnected \<longrightarrow>
         cs_accepted cs' = cs_accepted cs @ (if i then m else [])
         \<and> send_msgs (cs_tasks cs') = send_msgs (cs_tasks cs) @ (if i then [] else [m]))"
proof -
  obtain c' acts where r: "TcpConnection_send i w m (cs_conn cs) = Some (c', acts)"
    and cs': "cs' = \<lparr>cs_conn = c', cs_tasks = cs_tasks cs @ queued_tasks acts, cs_trace = cs_trace cs @ acts,
      cs_accepted = cs_accepted cs @ event_bytes (CallSend i w m) (cs_conn cs), cs_handed = cs_handed cs\<rparr>"
    using assms(2) by (auto simp: conn_do_def)
  have ok: "sys_ok cs'" using conn_step_ok [OF assms(1) conn_do_step [OF assms(2)]] assms(3) by simp
  show ?thesis
  proof (cases "tc_state (cs_conn cs) = kConnected")
    case False
    with r have "c' = cs_conn cs" by (simp add: TcpConnection_send_def)
    with ok False show ?thesis by (simp add: cs' same_conn_def settled_def)
  next
    case con: True
    show ?thesis
    proof (cases i)
      case True
      with r con have "quiet (cs_conn cs) acts c'" by (auto simp: TcpConnection_send_def intro: sendInLoop_quiet)
      moreover have "takes_message w m (cs_conn cs)" using con assms(4) by (simp add: takes_message_def write_alive_def)
      ultimately show ?thesis using ok con True by (simp add: cs' same_conn_def quiet_def)
    next
      case False
      with r con have "c' = cs_conn cs" "acts = [QueueInLoop (SendTask m)]" by (simp_all add: TcpConnection_send_def)
      with ok con False show ?thesis by (simp add: cs' same_conn_def settled_def)
    qed
  qed
qed

lemma note_send_sel [simp]:
  "cw_chat (note_send w c d m cs s) = cw_chat s" "cw_conn (note_send w c d m cs s) = cw_conn s"
  "cw_received (note_send w c d m cs s) = cw_received s" "cw_loop (note_send w c d m cs s) = cw_loop s"
  "cw_sends (note_send w c d m cs s) = cw_sends s @ [(c, d, m)]"
  "x \<noteq> d \<Longrightarrow> cw_log (note_send w c d m cs s) x = cw_log s x"
  "x \<noteq> d \<Longrightarrow> cw_queue (note_send w c d m cs s) x = cw_queue s x"
  by (simp_all add: note_send_def Let_def)

lemma note_send_books:
  assumes "write_alive w" "tc_state (cs_conn cs) = kConnected"
  shows "cw_log (note_send w c d m cs s) d = cw_log s d @ (if cw_loop s c = cw_loop s d then [(c, m)] else [])"
    and "cw_queue (note_send w c d m cs s) d = cw_queue s d @ (if cw_loop s c = cw_loop s d then [] else [(c, m)])"
  using assms by (simp_all add: note_send_def takes_message_def write_alive_def)

text \<open>Entries other than the one touched keep their invariant when the history grows by a call between open
  connections.\<close>

lemma blank_other:
  assumes "blank s x" "x \<noteq> c" "x \<noteq> d" "cw_sends s' = cw_sends s @ [(c, d, m)]"
    "cw_received s' x = cw_received s x" "cw_log s' x = cw_log s x" "cw_queue s' x = cw_queue s x"
    "wc_parsers (cw_chat s') x = wc_parsers (cw_chat s) x"
  shows "blank s' x"
  using assms by (auto simp: blank_def)

lemma msgs_from_none: "(\<And>m. (c, m) \<notin> set ms) \<Longrightarrow> msgs_from c ms = []"
  by (metis in_msgs_from list.set_intros(1) neq_Nil_conv)

text \<open>The books of the receiving connection after a \<open>send\<close>.\<close>

lemma send_books_ok:
  assumes bk: "books_ok s d cs" and con: "tc_state (cs_conn cs) = kConnected" and ok: "sys_ok cs"
    and do: "conn_do (CallSend (cw_loop s c = cw_loop s d) w m) cs = Some cs'" and w: "write_ok w" "write_alive w"
    and s': "s' = (note_send w c d m cs s)\<lparr>cw_conn := (cw_conn s)(d \<mapsto> cs')\<rparr>"
  shows "books_ok s' d cs'"
proof -
  note f = send_do [OF ok do w]
  have log: "cw_log s' d = cw_log s d @ (if cw_loop s c = cw_loop s d then [(c, m)] else [])"
    and queue: "cw_queue s' d = cw_queue s d @ (if cw_loop s c = cw_loop s d then [] else [(c, m)])"
    by (simp_all add: s' note_send_books [OF w(2) con])
  have sel: "cw_loop s' = cw_loop s" "cw_sends s' = cw_sends s @ [(c, d, m)]" by (simp_all add: s')
  have noc: "msgs_from c (cw_queue s d) = []" if "cw_loop s c = cw_loop s d"
    using bk that by (intro msgs_from_none) (auto simp: books_ok_def)
  show ?thesis unfolding books_ok_def
  proof (intro conjI allI)
    show "cs_accepted cs' = concat (map snd (cw_log s' d))" "map snd (cw_queue s' d) = send_msgs (cs_tasks cs')"
      using bk f con by (simp_all add: log queue books_ok_def)
    show "\<forall>x\<in>set (cw_queue s' d). cw_loop s' (fst x) \<noteq> cw_loop s' d"
      using bk by (auto simp: queue sel books_ok_def)
    show "msgs_from a (cw_log s' d) @ msgs_from a (cw_queue s' d) = sends_to a d (cw_sends s')" for a
    proof -
      have "msgs_from a (cw_log s d) @ msgs_from a (cw_queue s d) = sends_to a d (cw_sends s)"
        using bk by (simp add: books_ok_def)
      with noc show ?thesis by (cases "a = c") (auto simp: log queue sel(2))
    qed
  qed
qed

lemma world_send:
  assumes b: "books s" and r: "world_effect w c (ChatSend d m) s = Some s'" and w: "write_ok w" "write_alive w"
    and c: "conn_state s c \<noteq> kConnecting" and d: "conn_state s d \<noteq> kConnecting"
  shows "books s' \<and> same_view s s' \<and> conn_state s' = conn_state s \<and> cw_sends s' = cw_sends s @ [(c, d, m)]"
proof -
  obtain cs where cs: "cw_conn s d = Some cs" using conn_state_open [OF d] by blast
  note e = booksD(2) [OF b cs]
  obtain cs' where do: "conn_do (CallSend (cw_loop s c = cw_loop s d) w m) cs = Some cs'"
    and s': "s' = (note_send w c d m cs s)\<lparr>cw_conn := (cw_conn s)(d \<mapsto> cs')\<rparr>"
    using r cs by (auto simp: world_call_def)
  have ok: "sys_ok cs" using e by (simp add: entry_ok_def)
  note f = send_do [OF ok do w]
  have sel: "cw_chat s' = cw_chat s" "cw_received s' = cw_received s" "cw_loop s' = cw_loop s"
    "cw_sends s' = cw_sends s @ [(c, d, m)]" "cw_conn s' = (cw_conn s)(d \<mapsto> cs')"
    "\<And>x. x \<noteq> d \<Longrightarrow> cw_log s' x = cw_log s x" "\<And>x. x \<noteq> d \<Longrightarrow> cw_queue s' x = cw_queue s x"
    by (simp_all add: s')
  have st: "conn_state s' = conn_state s" using f cs by (auto simp: conn_state_def sel(5) fun_eq_iff)
  have view: "same_view s s'" unfolding same_view_def using sel f cs by (auto intro: option.rel_refl)
  have other: "entry_ok s' x cx" if x: "x \<noteq> d" and cx: "cw_conn s x = Some cx" for x cx
  proof -
    note ex = booksD(2) [OF b cx]
    have "x \<noteq> c" if "tc_state (cs_conn cx) = kConnecting" using c cx that by auto
    then have "tc_state (cs_conn cx) = kConnecting \<Longrightarrow> blank s' x"
      using ex blank_other [of s x c d s' m] x sel by (simp add: entry_ok_def)
    with ex x sel show ?thesis by (simp add: entry_ok_def books_ok_def)
  qed
  have own: "entry_ok s' d cs'"
  proof -
    have "books_ok s' d cs'" if "tc_state (cs_conn cs') = kConnected"
      by (rule send_books_ok [OF _ _ ok do w s']) (use that f e in \<open>simp_all add: entry_ok_def\<close>)
    moreover have "tc_state (cs_conn cs') \<noteq> kConnecting" using f d cs by simp
    ultimately show ?thesis using e f by (simp add: entry_ok_def sel(1) same_conn_def settled_def)
  qed
  have "books s'"
  proof (rule booksI)
    show "finite (wc_connections (cw_chat s'))" using booksD(1) [OF b] sel by simp
    show "entry_ok s' x cx" if "cw_conn s' x = Some cx" for x cx
      using that other own by (cases "x = d") (simp_all add: sel(5))
    show "blank s' x \<and> x \<notin> wc_connections (cw_chat s')" if "cw_conn s' x = None" for x
    proof -
      have x: "cw_conn s x = None" "x \<noteq> d" using that by (auto simp: sel(5) split: if_splits)
      have "x \<noteq> c" using c x(1) by (auto simp: conn_state_def)
      with booksD(3) [OF b x(1)] show ?thesis using blank_other [of s x c d s' m] x(2) sel by simp
    qed
  qed
  with st view sel(4) show ?thesis by simp
qed

section \<open>Sequences of effects\<close>

definition effect_sends :: "conn_ptr \<Rightarrow> chat_effect list \<Rightarrow> (conn_ptr \<times> message) list" where
  "effect_sends c es = concat (map (\<lambda>e. case e of ChatSend d m \<Rightarrow> [(c, d, m)] | _ \<Rightarrow> []) es)"

lemma effect_sends_simps [simp]:
  "effect_sends c [] = []" "effect_sends c (es @ fs) = effect_sends c es @ effect_sends c fs"
  "effect_sends c (e # es) = (case e of ChatSend d m \<Rightarrow> [(c, d, m)] | _ \<Rightarrow> []) @ effect_sends c es"
  by (simp_all add: effect_sends_def)

text \<open>Effects that leave the states of connections alone, the messages going to open connections.\<close>

definition soft :: "chat_world \<Rightarrow> chat_effect \<Rightarrow> bool" where
  "soft s e \<longleftrightarrow> (case e of ChatShutdown _ \<Rightarrow> False | ChatForceClose _ \<Rightarrow> False
     | ChatSend d _ \<Rightarrow> conn_state s d \<noteq> kConnecting | _ \<Rightarrow> True)"

lemma world_soft:
  assumes "books s" "world_effects ws c es s = Some s'" "\<And>i. write_ok (ws i)" "\<And>i. write_alive (ws i)"
    "conn_state s c \<noteq> kConnecting" "list_all (soft s) es"
  shows "books s' \<and> same_view s s' \<and> conn_state s' = conn_state s \<and> cw_sends s' = cw_sends s @ effect_sends c es"
  using assms
proof (induction es arbitrary: s ws)
  case Nil
  then show ?case by simp
next
  case (Cons e es)
  obtain s1 where s1: "world_effect (ws 0) c e s = Some s1" "world_effects (\<lambda>i. ws (Suc i)) c es s1 = Some s'"
    using Cons.prems(2) by (cases "world_effect (ws 0) c e s") auto
  have f: "books s1 \<and> same_view s s1 \<and> conn_state s1 = conn_state s \<and> cw_sends s1 = cw_sends s @ effect_sends c [e]"
  proof (cases e)
    case (ChatSend d m)
    then have "conn_state s d \<noteq> kConnecting" using Cons.prems(6) by (simp add: soft_def)
    from world_send [OF Cons.prems(1) s1(1) [unfolded ChatSend] Cons.prems(3,4,5) this] ChatSend show ?thesis by simp
  qed (use Cons.prems(1,6) s1(1) in \<open>simp_all add: soft_def\<close>)
  have "list_all (soft s1) es" using Cons.prems(6) f by (simp add: soft_def [abs_def] list_all_iff)
  with Cons.IH [OF _ s1(2)] Cons.prems(3-5) f show ?case by (auto intro: same_view_trans)
qed

lemma world_effects_append:
  "world_effects ws c (es @ fs) s =
     Option.bind (world_effects ws c es s) (world_effects (\<lambda>i. ws (i + length es)) c fs)"
proof (induction es arbitrary: ws s)
  case (Cons e es)
  then show ?case by (cases "world_effect (ws 0) c e s") simp_all
qed simp

text \<open>The half-close and the forced close: the connection leaves the connected state.\<close>

lemma leave_do:
  assumes "sys_ok cs" "conn_do e cs = Some cs'" "e = CallShutdown i \<or> e = CallForceClose"
  shows "sys_ok cs' \<and> same_conn cs cs' \<and> cs_accepted cs' = cs_accepted cs
    \<and> tc_state (cs_conn cs') = (if tc_state (cs_conn cs) = kConnected then kDisconnecting else tc_state (cs_conn cs))"
proof -
  have "event_ok e (cs_conn cs)" using assms(3) by auto
  then have "sys_ok cs'" by (rule conn_step_ok [OF assms(1) conn_do_step [OF assms(2)]])
  with assms(2,3) show ?thesis
    by (auto simp: conn_do_def TcpConnection_shutdown_def TcpConnection_shutdownInLoop_def TcpConnection_forceClose_def
        same_conn_def settled_def Let_def split: if_splits)
qed

lemma world_leave:
  assumes b: "books s" and r: "world_call d e s = Some s'" and e: "e = CallShutdown i \<or> e = CallForceClose"
  shows "books s' \<and> same_view s s' \<and> cw_sends s' = cw_sends s
    \<and> conn_state s' = (conn_state s)(d := if conn_state s d = kConnected then kDisconnecting else conn_state s d)"
proof -
  obtain cs cs' where cs: "cw_conn s d = Some cs" "conn_do e cs = Some cs'"
    and s': "s' = s\<lparr>cw_conn := (cw_conn s)(d \<mapsto> cs')\<rparr>"
    using r by (auto simp: world_call_def bind_eq_Some_conv)
  note en = booksD(2) [OF b cs(1)]
  have "sys_ok cs" using en by (simp add: entry_ok_def)
  note f = leave_do [OF this cs(2) e]
  have "books s'"
  proof (rule booksI)
    show "finite (wc_connections (cw_chat s'))" using booksD(1) [OF b] by (simp add: s')
    show "blank s' x \<and> x \<notin> wc_connections (cw_chat s')" if "cw_conn s' x = None" for x
      using that booksD(3) [OF b, of x] by (auto simp: s' blank_def split: if_splits)
    show "entry_ok s' x cx" if cx: "cw_conn s' x = Some cx" for x cx
    proof (cases "x = d")
      case True
      with cx have "cx = cs'" by (simp add: s')
      with True en f show ?thesis
        by (auto simp: entry_ok_def s' blank_def same_conn_def settled_def split: if_splits)
    next
      case False
      with cx booksD(2) [OF b, of x cx] show ?thesis
        by (simp add: entry_ok_def s' blank_def books_ok_def)
    qed
  qed
  moreover have "same_view s s'" unfolding same_view_def using f cs by (auto simp: s' intro: option.rel_refl)
  ultimately show ?thesis using f cs by (auto simp: s' conn_state_def fun_eq_iff)
qed

section \<open>Answers\<close>

text \<open>What the sender of a request reads back.\<close>

definition own_answers :: "bytes \<Rightarrow> chat_request \<Rightarrow> bytes list" where
  "own_answers peer request =
     (if fst request = ''/'' then [http_answer ''text/html; charset=utf-8'' g_chat_html]
      else if fst request = ''/chat'' then [broadcast_line peer (snd request), http_answer ''text/plain'' ''OK'']
      else [])"

lemma sends_to_broadcast:
  "finite C \<Longrightarrow> sends_to c d (effect_sends c (map (\<lambda>x. ChatSend x m) (sorted_list_of_set C))) = (if d \<in> C then [m] else [])"
proof -
  have *: "sends_to c d (effect_sends c (map (\<lambda>x. ChatSend x m) xs)) = map (\<lambda>_. m) (filter (\<lambda>x. x = d) xs)" for xs
    by (induction xs) auto
  have "distinct xs \<Longrightarrow> filter (\<lambda>x. x = d) xs = (if d \<in> set xs then [d] else [])" for xs
    by (induction xs) (auto simp: filter_empty_conv)
  from this [of "sorted_list_of_set C"] show "finite C \<Longrightarrow> ?thesis" by (simp add: *)
qed

lemma respond_own:
  assumes "finite (wc_connections w)" "c \<in> wc_connections w"
  shows "sends_to c c (effect_sends c (onMessage_respond peer c w r)) = own_answers peer r"
  using assms
  by (auto simp: onMessage_respond_def WebChatServer_broadcast_def WebChatServer_sendHttpResponse_def own_answers_def
      sends_to_broadcast http_answer_def broadcast_line_def Let_def)

lemma respond_all_own:
  assumes "finite (wc_connections w)" "c \<in> wc_connections w"
  shows "sends_to c c (effect_sends c (concat (map (onMessage_respond peer c w) rs))) = concat (map (own_answers peer) rs)"
  by (induction rs) (simp_all add: respond_own [OF assms])

text \<open>Whatever a callback sends goes to its own connection or is a broadcast to a registered one.\<close>

lemma respond_targets:
  assumes "ChatSend d m \<in> set (onMessage_respond peer c w r)" "finite (wc_connections w)"
  shows "d = c \<or> d \<in> wc_connections w \<and> (\<exists>body. m = broadcast_line peer body)"
  using assms
  by (auto simp: onMessage_respond_def WebChatServer_broadcast_def WebChatServer_sendHttpResponse_def
      broadcast_line_def Let_def split: if_splits)

definition is_timer :: "chat_effect \<Rightarrow> bool" where
  "is_timer e \<longleftrightarrow> (case e of ChatCancel _ _ \<Rightarrow> True | ChatRunAfter _ _ _ _ \<Rightarrow> True | _ \<Rightarrow> False)"

lemma timer_effects:
  assumes "list_all is_timer es"
  shows "world_effects ws c es s = Some s" "effect_sends c es = []" "list_all (soft s) es"
  using assms
proof (induction es arbitrary: ws)
  case (Cons e es)
  { case 1 with Cons show ?case by (cases e) (simp_all add: is_timer_def) }
  { case 2 with Cons show ?case by (cases e) (simp_all add: is_timer_def) }
  { case 3 with Cons show ?case by (cases e) (simp_all add: is_timer_def soft_def) }
qed simp_all

lemma refresh_timers:
  assumes "WebChatServer_refreshIdleTimer isConnected newTimer conn w = (w', effects)"
  shows "list_all is_timer effects"
  using assms by (auto simp: WebChatServer_refreshIdleTimer_def is_timer_def split: if_splits option.splits)

text \<open>The callback for new input, with all its effects.\<close>

lemma onMessage_full:
  assumes "Buffer_ok buf" "p = (case wc_parsers w conn of Some q \<Rightarrow> q | None \<Rightarrow> HttpParser_new)"
    and s: "stream_requests p (Buffer_content buf) [] = (m, rs, p', rest)"
  obtains w' buf' refreshed where
    "WebChatServer_onMessage peer isConnected newTimer conn buf w = Some (w', buf',
       refreshed @ (if m then [ChatSend conn bad_request, ChatShutdown conn]
                    else concat (map (onMessage_respond peer conn w) rs)))"
    "list_all is_timer refreshed" "Buffer_ok buf'" "Buffer_content buf' = rest"
    "wc_parsers w' = (wc_parsers w)(conn \<mapsto> p')" "wc_connections w' = wc_connections w"
proof -
  obtain w1 refreshed where w1: "(if isConnected then WebChatServer_refreshIdleTimer isConnected newTimer conn w else (w, [])) = (w1, refreshed)"
    by fastforce
  have same: "wc_connections w1 = wc_connections w" "wc_parsers w1 = wc_parsers w" "list_all is_timer refreshed"
    using w1 refresh_same refresh_timers by (auto split: if_splits)
  obtain buf' where l: "onMessage_loop p buf [] = Some (m, rs, p', buf')" "Buffer_ok buf'" "Buffer_content buf' = rest"
    using onMessage_loop_refines [OF assms(1), of p "[]"] s by auto
  let ?w2 = "w1\<lparr>wc_parsers := (wc_parsers w1)(conn \<mapsto> p')\<rparr>"
  have resp: "onMessage_respond peer conn ?w2 = onMessage_respond peer conn w"
    by (rule respond_cong) (simp add: same(1))
  have "WebChatServer_onMessage peer isConnected newTimer conn buf w =
      Some (?w2, buf', refreshed @ (if m then [ChatSend conn bad_request, ChatShutdown conn]
        else concat (map (onMessage_respond peer conn ?w2) rs)))"
    unfolding WebChatServer_onMessage_def w1 by (simp add: same(2) l(1) Let_def flip: assms(2))
  then show ?thesis by (rule that [unfolded resp [symmetric]]) (use l same in simp_all)
qed

section \<open>The invariant of the server\<close>

definition peer_text :: "(32 word \<Rightarrow> bytes) \<Rightarrow> conn_sys \<Rightarrow> bytes" where
  "peer_text inet_ntop cs = InetAddress_toIpPort inet_ntop (tc_peerAddr (cs_conn cs))"

text \<open>The input received so far is parsed up to the unread bytes in the buffer, and answered.\<close>

definition answers_ok :: "(32 word \<Rightarrow> bytes) \<Rightarrow> chat_world \<Rightarrow> conn_ptr \<Rightarrow> conn_sys \<Rightarrow> bool" where
  "answers_ok inet_ntop s d cs \<longleftrightarrow>
     (\<exists>rs p. stream_requests HttpParser_new (cw_received s d) [] =
           (False, rs, p, Buffer_content (tc_inputBuffer (cs_conn cs)))
        \<and> wc_parsers (cw_chat s) d = Some p
        \<and> sends_to d d (cw_sends s) = concat (map (own_answers (peer_text inet_ntop cs)) rs))"

definition answered :: "(32 word \<Rightarrow> bytes) \<Rightarrow> chat_world \<Rightarrow> bool" where
  "answered inet_ntop s \<longleftrightarrow>
     (\<forall>d cs. cw_conn s d = Some cs \<longrightarrow> tc_state (cs_conn cs) = kConnected \<longrightarrow> answers_ok inet_ntop s d cs)"

definition relayed :: "(32 word \<Rightarrow> bytes) \<Rightarrow> chat_world \<Rightarrow> bool" where
  "relayed inet_ntop s \<longleftrightarrow> (\<forall>c d m. (c, d, m) \<in> set (cw_sends s) \<longrightarrow> c \<noteq> d \<longrightarrow>
     (\<exists>cs body. cw_conn s c = Some cs \<and> m = broadcast_line (peer_text inet_ntop cs) body))"

definition world_ok :: "(32 word \<Rightarrow> bytes) \<Rightarrow> chat_world \<Rightarrow> bool" where
  "world_ok inet_ntop s \<longleftrightarrow> books s \<and> answered inet_ntop s \<and> relayed inet_ntop s"

lemma same_conn_peer: "same_conn cs cs' \<Longrightarrow> peer_text n cs' = peer_text n cs"
  by (simp add: same_conn_def settled_def peer_text_def)

text \<open>Callbacks of \<open>c\<close> keep the answers of the other connections and, as long as they send nothing to themselves, its own.\<close>

lemma answered_view:
  assumes v: "same_view s s'" and sends: "cw_sends s' = cw_sends s @ effect_sends c es"
    and a: "\<And>cs. cw_conn s d = Some cs \<Longrightarrow> tc_state (cs_conn cs) = kConnected \<Longrightarrow> answers_ok n s d cs"
    and d: "d \<noteq> c \<or> sends_to c c (effect_sends c es) = []"
    and cs': "cw_conn s' d = Some cs'" "tc_state (cs_conn cs') = kConnected"
    and st: "conn_state s' d = kConnected \<Longrightarrow> conn_state s d = kConnected"
  shows "answers_ok n s' d cs'"
proof -
  obtain cs where cs: "cw_conn s d = Some cs" "same_conn cs cs'" by (rule same_viewD [OF v cs'(1)])
  have "conn_state s d = kConnected" by (rule st) (use cs' in simp)
  with cs(1) have ok: "answers_ok n s d cs" by (intro a) simp_all
  have "sends_to d d (effect_sends c es) = []"
  proof (cases "d = c")
    case False
    then show ?thesis by (induction es) (auto split: chat_effect.splits)
  qed (use d in simp)
  with ok cs v show ?thesis
    by (simp add: answers_ok_def sends same_view_def same_conn_peer [OF cs(2)]) (simp add: same_conn_def)
qed

lemma relayed_view:
  assumes "relayed n s" "same_view s s'" "cw_sends s' = cw_sends s @ effect_sends c es" "cw_conn s c = Some cs"
    and "\<And>d m. ChatSend d m \<in> set es \<Longrightarrow> d \<noteq> c \<Longrightarrow> \<exists>body. m = broadcast_line (peer_text n cs) body"
  shows "relayed n s'"
  unfolding relayed_def
proof (intro allI impI)
  fix a d m assume m: "(a, d, m) \<in> set (cw_sends s')" and ne: "a \<noteq> d"
  have "(a, d, m) \<in> set (effect_sends c es) \<Longrightarrow> a = c \<and> ChatSend d m \<in> set es"
    by (auto simp: effect_sends_def split: chat_effect.splits)
  with m consider "(a, d, m) \<in> set (cw_sends s)" | "a = c" "ChatSend d m \<in> set es" using assms(3) by auto
  then obtain cs0 body where cs0: "cw_conn s a = Some cs0" "m = broadcast_line (peer_text n cs0) body"
  proof cases
    case 1
    with assms(1) ne that show thesis unfolding relayed_def by blast
  next
    case 2
    with assms(4,5) ne that show thesis by blast
  qed
  have "rel_option same_conn (cw_conn s a) (cw_conn s' a)" using assms(2) by (simp add: same_view_def)
  with cs0(1) obtain cs1 where "cw_conn s' a = Some cs1" "same_conn cs0 cs1" by (auto simp: option_rel_Some1)
  with cs0(2) show "\<exists>cs body. cw_conn s' a = Some cs \<and> m = broadcast_line (peer_text n cs) body"
    using same_conn_peer [of cs0 cs1 n] by auto
qed

section \<open>Input\<close>

lemma books_chat:
  assumes "books s" "wc_connections w = wc_connections (cw_chat s)" "conn_state s d \<noteq> kConnecting"
    and "\<And>x. x \<noteq> d \<Longrightarrow> wc_parsers w x = wc_parsers (cw_chat s) x"
  shows "books (s\<lparr>cw_chat := w\<rparr>)"
proof (rule booksI)
  show "finite (wc_connections (cw_chat (s\<lparr>cw_chat := w\<rparr>)))" using booksD(1) [OF assms(1)] assms(2) by simp
  have blank: "blank (s\<lparr>cw_chat := w\<rparr>) x" if "blank s x" "conn_state s x = kConnecting" for x
    using that assms(3,4) by (cases "x = d") (simp_all add: blank_def)
  show "blank (s\<lparr>cw_chat := w\<rparr>) x \<and> x \<notin> wc_connections (cw_chat (s\<lparr>cw_chat := w\<rparr>))"
    if "cw_conn (s\<lparr>cw_chat := w\<rparr>) x = None" for x
    using booksD(3) [OF assms(1), of x] blank [of x] that assms(2) by (simp add: conn_state_def)
  show "entry_ok (s\<lparr>cw_chat := w\<rparr>) x cx" if "cw_conn (s\<lparr>cw_chat := w\<rparr>) x = Some cx" for x cx
    using booksD(2) [OF assms(1), of x cx] blank [of x] that assms(2) by (simp add: entry_ok_def books_ok_def)
qed

lemma books_take:
  assumes "books s" "cw_conn s d = Some cs" "tc_state (cs_conn cs) \<noteq> kConnecting" "Buffer_ok buf"
  defines "cs' \<equiv> cs\<lparr>cs_conn := (cs_conn cs)\<lparr>tc_inputBuffer := buf\<rparr>\<rparr>"
  shows "world_call d (TakeInput buf) s = Some (s\<lparr>cw_conn := (cw_conn s)(d \<mapsto> cs')\<rparr>)"
    and "books (s\<lparr>cw_conn := (cw_conn s)(d \<mapsto> cs')\<rparr>)"
proof -
  have do: "conn_do (TakeInput buf) cs = Some cs'" by (simp add: conn_do_def cs'_def)
  then show "world_call d (TakeInput buf) s = Some (s\<lparr>cw_conn := (cw_conn s)(d \<mapsto> cs')\<rparr>)"
    by (simp add: world_call_def assms(2))
  note e = booksD(2) [OF assms(1,2)]
  have ok: "sys_ok cs'" using conn_step_ok [OF _ conn_do_step [OF do]] e assms(4) by (simp add: entry_ok_def)
  show "books (s\<lparr>cw_conn := (cw_conn s)(d \<mapsto> cs')\<rparr>)"
  proof (rule booksI)
    show "finite (wc_connections (cw_chat (s\<lparr>cw_conn := (cw_conn s)(d \<mapsto> cs')\<rparr>)))" using booksD(1) [OF assms(1)] by simp
    show "blank (s\<lparr>cw_conn := (cw_conn s)(d \<mapsto> cs')\<rparr>) x \<and> x \<notin> wc_connections (cw_chat (s\<lparr>cw_conn := (cw_conn s)(d \<mapsto> cs')\<rparr>))"
      if "cw_conn (s\<lparr>cw_conn := (cw_conn s)(d \<mapsto> cs')\<rparr>) x = None" for x
      using booksD(3) [OF assms(1), of x] that by (simp add: blank_def split: if_splits)
    show "entry_ok (s\<lparr>cw_conn := (cw_conn s)(d \<mapsto> cs')\<rparr>) x cx"
      if cx: "cw_conn (s\<lparr>cw_conn := (cw_conn s)(d \<mapsto> cs')\<rparr>) x = Some cx" for x cx
    proof (cases "x = d")
      case True
      with cx have "cx = cs'" by simp
      with True e ok assms(3) show ?thesis by (simp add: entry_ok_def books_ok_def cs'_def)
    next
      case False
      with cx booksD(2) [OF assms(1), of x cx] show ?thesis by (simp add: entry_ok_def books_ok_def blank_def)
    qed
  qed
qed

text \<open>\<open>awaiting\<close>: the answers of a connection whose input has not been looked at yet.\<close>

definition awaiting :: "(32 word \<Rightarrow> bytes) \<Rightarrow> chat_world \<Rightarrow> conn_ptr \<Rightarrow> conn_sys \<Rightarrow> bool" where
  "awaiting inet_ntop s d cs \<longleftrightarrow>
     (\<exists>rs p. stream_requests HttpParser_new (cw_received s d) [] =
           stream_requests p (Buffer_content (tc_inputBuffer (cs_conn cs))) rs
        \<and> wc_parsers (cw_chat s) d = Some p
        \<and> sends_to d d (cw_sends s) = concat (map (own_answers (peer_text inet_ntop cs)) rs))"

lemma stream_requests_result:
  assumes "stream_requests p cs [] = (m, rs2, p', rest)"
  shows "stream_requests p cs rs = (m, rs @ rs2, p', rest)"
  using stream_requests_acc [of p cs rs "[]"] assms by simp

lemma world_effects_one: "world_effects ws c [e] s = world_effect (ws 0) c e s"
  by (cases "world_effect (ws 0) c e s") simp_all

text \<open>The sends of a parsed batch of requests.\<close>

lemma batch_soft:
  assumes "books s" "conn_state s d \<noteq> kConnecting" "list_all is_timer refreshed"
    "wc_connections w = wc_connections (cw_chat s)"
  shows "list_all (soft s) (refreshed @ concat (map (onMessage_respond peer d w) rs))"
proof -
  have "soft s x" if "x \<in> set (concat (map (onMessage_respond peer d w) rs))" for x
  proof -
    have "is_send x" using that respond_all_sends [of peer d w rs] unfolding list_all_iff by blast
    then obtain e m where x: "x = ChatSend e m" by (cases x) (simp_all add: is_send_def)
    with that obtain r where "ChatSend e m \<in> set (onMessage_respond peer d w r)" by auto
    from respond_targets [OF this] booksD(1) [OF assms(1)] assms(4) have "e = d \<or> e \<in> wc_connections (cw_chat s)" by auto
    with registered_conn [OF assms(1), of e] assms(2) x show ?thesis by (auto simp: soft_def)
  qed
  with timer_effects(3) [OF assms(3), of s] show ?thesis by (auto simp: list_all_iff)
qed

lemma batch_ok:
  assumes b: "books s" and rl: "relayed n s" and cs: "cw_conn s d = Some cs" and st: "tc_state (cs_conn cs) \<noteq> kConnecting"
    and others: "\<And>x cx. x \<noteq> d \<Longrightarrow> cw_conn s x = Some cx \<Longrightarrow> tc_state (cs_conn cx) = kConnected \<Longrightarrow> answers_ok n s x cx"
    and own: "tc_state (cs_conn cs) = kConnected \<Longrightarrow>
      \<exists>rs. stream_requests HttpParser_new (cw_received s d) [] = (False, rs @ rs2, p', Buffer_content (tc_inputBuffer (cs_conn cs)))
        \<and> sends_to d d (cw_sends s) = concat (map (own_answers (peer_text n cs)) rs)"
    and p': "wc_parsers (cw_chat s) d = Some p'" and w: "wc_connections w = wc_connections (cw_chat s)"
    and tm: "list_all is_timer refreshed" and ws: "\<And>i. write_ok (ws i)" "\<And>i. write_alive (ws i)"
    and eff: "world_effects ws d (refreshed @ concat (map (onMessage_respond (peer_text n cs) d w) rs2)) s = Some s'"
  shows "world_ok n s' \<and> cw_received s' = cw_received s \<and> conn_state s' = conn_state s"
proof -
  let ?peer = "peer_text n cs" let ?es = "refreshed @ concat (map (onMessage_respond (peer_text n cs) d w) rs2)"
  have d: "conn_state s d \<noteq> kConnecting" using st cs by simp
  note f = world_soft [OF b eff ws d batch_soft [OF b d tm w]]
  have fin: "finite (wc_connections w)" using booksD(1) [OF b] w by simp
  have "answered n s'" unfolding answered_def
  proof (intro allI impI)
    fix x cx assume cx: "cw_conn s' x = Some cx" "tc_state (cs_conn cx) = kConnected"
    show "answers_ok n s' x cx"
    proof (cases "x = d")
      case False
      with f others [OF False] show ?thesis by (intro answered_view [of s s' d ?es x]) (simp_all add: cx)
    next
      case True
      obtain c where "cw_conn s d = Some c" "same_conn c cx" using same_viewD [of s s' d cx] f cx True by blast
      with cs have same: "same_conn cs cx" by simp
      have "conn_state s d = conn_state s' d" using f by simp
      then have con: "tc_state (cs_conn cs) = kConnected" using cs cx True by simp
      then have mem: "d \<in> wc_connections w" using booksD(2) [OF b cs] w by (simp add: entry_ok_def)
      from own [OF con] obtain rs where
        "stream_requests HttpParser_new (cw_received s d) [] = (False, rs @ rs2, p', Buffer_content (tc_inputBuffer (cs_conn cs)))"
        "sends_to d d (cw_sends s) = concat (map (own_answers ?peer) rs)" by blast
      with f respond_all_own [OF fin mem, of ?peer rs2] p' True same same_conn_peer [OF same, of n] show ?thesis
        by (auto simp: answers_ok_def same_view_def same_conn_def timer_effects(2) [OF tm])
    qed
  qed
  moreover have "relayed n s'"
  proof (rule relayed_view [OF rl _ _ cs, of s' ?es])
    fix e m assume "ChatSend e m \<in> set ?es" "e \<noteq> d"
    with tm respond_targets [OF _ fin] show "\<exists>body. m = broadcast_line ?peer body"
      by (fastforce simp: list_all_iff is_timer_def)
  qed (use f in simp_all)
  ultimately show ?thesis using f by (simp add: world_ok_def same_view_def)
qed

lemma malformed_ok:
  assumes b: "books s" and rl: "relayed n s" and cs: "cw_conn s d = Some cs" and st: "tc_state (cs_conn cs) \<noteq> kConnecting"
    and others: "\<And>x cx. x \<noteq> d \<Longrightarrow> cw_conn s x = Some cx \<Longrightarrow> tc_state (cs_conn cx) = kConnected \<Longrightarrow> answers_ok n s x cx"
    and tm: "list_all is_timer refreshed" and ws: "\<And>i. write_ok (ws i)" "\<And>i. write_alive (ws i)"
    and eff: "world_effects ws d (refreshed @ [ChatSend d bad_request, ChatShutdown d]) s = Some s'"
  shows "world_ok n s' \<and> cw_received s' = cw_received s"
proof -
  let ?es = "refreshed @ [ChatSend d bad_request]"
  have d: "conn_state s d \<noteq> kConnecting" using st cs by simp
  have "Option.bind (world_effects ws d ?es s) (world_effects (\<lambda>i. ws (i + length ?es)) d [ChatShutdown d]) = Some s'"
    using eff world_effects_append [of ws d ?es "[ChatShutdown d]" s] by (simp del: world_effects.simps)
  then obtain s1 where s1: "world_effects ws d ?es s = Some s1" "world_call d (CallShutdown True) s1 = Some s'"
    by (auto simp only: bind_eq_Some_conv world_effects_one world_effect.simps simp_thms)
  have soft: "list_all (soft s) ?es" using timer_effects(3) [OF tm, of s] d by (simp add: soft_def)
  note f = world_soft [OF b s1(1) ws d soft]
  note g = world_leave [OF conjunct1 [OF f] s1(2) disjI1 [OF refl]]
  have v: "same_view s s'" using f g same_view_trans by blast
  have sn: "cw_sends s' = cw_sends s @ effect_sends d ?es" using f g by simp
  have "answered n s'" unfolding answered_def
  proof (intro allI impI)
    fix x cx assume cx: "cw_conn s' x = Some cx" "tc_state (cs_conn cx) = kConnected"
    have "conn_state s' d \<noteq> kConnected" using g by simp
    with cx have "x \<noteq> d" by auto
    with f g others [of x] show "answers_ok n s' x cx" by (intro answered_view [OF v sn, of x n cx]) (simp_all add: cx)
  qed
  moreover have "relayed n s'"
    by (rule relayed_view [OF rl v sn cs]) (use tm in \<open>auto simp: list_all_iff is_timer_def\<close>)
  ultimately show ?thesis using g v by (simp add: world_ok_def same_view_def)
qed

text \<open>Replacing the input and the parser of one connection touches nobody else.\<close>

lemma relayed_cong:
  assumes "relayed n s" "cw_sends s' = cw_sends s"
    and "\<And>x cx. cw_conn s x = Some cx \<Longrightarrow> \<exists>cx'. cw_conn s' x = Some cx' \<and> peer_text n cx' = peer_text n cx"
  shows "relayed n s'"
  unfolding relayed_def
proof (intro allI impI)
  fix a e m assume "(a, e, m) \<in> set (cw_sends s')" "a \<noteq> e"
  then obtain ca body where "cw_conn s a = Some ca" "m = broadcast_line (peer_text n ca) body"
    using assms(1) unfolding relayed_def assms(2) by blast
  then show "\<exists>cs body. cw_conn s' a = Some cs \<and> m = broadcast_line (peer_text n cs) body"
    using assms(3) [of a ca] by metis
qed

text \<open>Whether the unread input of a connection, fed to its parser, is a malformed request.\<close>

definition malformed :: "WebChatServer \<Rightarrow> conn_ptr \<Rightarrow> TcpConnection \<Rightarrow> bool" where
  "malformed w d c \<longleftrightarrow>
     fst (stream_requests (case wc_parsers w d of Some q \<Rightarrow> q | None \<Rightarrow> HttpParser_new) (Buffer_content (tc_inputBuffer c)) [])"

text \<open>The message callback is the effects of \<open>onMessage\<close> in a state where it has taken its input.\<close>

lemma message_callback_eq:
  assumes b: "books s" and cs: "cw_conn s d = Some cs"
    and sr: "stream_requests (case wc_parsers (cw_chat s) d of Some q \<Rightarrow> q | None \<Rightarrow> HttpParser_new)
      (Buffer_content (tc_inputBuffer (cs_conn cs))) [] = (m, rs, p', rest)"
  obtains w' buf' refreshed where
    "message_callback n newTimer ws d s =
       world_effects ws d (refreshed @ (if m then [ChatSend d bad_request, ChatShutdown d]
           else concat (map (onMessage_respond (peer_text n cs) d (cw_chat s)) rs)))
         (s\<lparr>cw_chat := w', cw_conn := (cw_conn s)(d \<mapsto> cs\<lparr>cs_conn := (cs_conn cs)\<lparr>tc_inputBuffer := buf'\<rparr>\<rparr>)\<rparr>)"
    "list_all is_timer refreshed" "Buffer_ok buf'" "Buffer_content buf' = rest"
    "wc_parsers w' = (wc_parsers (cw_chat s))(d \<mapsto> p')" "wc_connections w' = wc_connections (cw_chat s)"
proof -
  let ?c = "cs_conn cs"
  have bok: "Buffer_ok (tc_inputBuffer ?c)" using booksD(2) [OF b cs] by (simp add: entry_ok_def sys_ok_def conn_ok_def)
  obtain w' buf' refreshed where om: "WebChatServer_onMessage (peer_text n cs) (tc_state ?c = kConnected) newTimer d (tc_inputBuffer ?c) (cw_chat s) =
      Some (w', buf', refreshed @ (if m then [ChatSend d bad_request, ChatShutdown d]
        else concat (map (onMessage_respond (peer_text n cs) d (cw_chat s)) rs)))"
    and props: "list_all is_timer refreshed" "Buffer_ok buf'" "Buffer_content buf' = rest"
      "wc_parsers w' = (wc_parsers (cw_chat s))(d \<mapsto> p')" "wc_connections w' = wc_connections (cw_chat s)"
    using onMessage_full [OF bok refl sr] by metis
  have "conn_do (TakeInput buf') cs = Some (cs\<lparr>cs_conn := ?c\<lparr>tc_inputBuffer := buf'\<rparr>\<rparr>)" by (simp add: conn_do_def)
  with om cs show thesis by (intro that [OF _ props]) (simp add: message_callback_def world_call_def peer_text_def)
qed

lemma message_ok:
  assumes b: "books s" and rl: "relayed n s" and cs: "cw_conn s d = Some cs" and st: "tc_state (cs_conn cs) \<noteq> kConnecting"
    and others: "\<And>x cx. x \<noteq> d \<Longrightarrow> cw_conn s x = Some cx \<Longrightarrow> tc_state (cs_conn cx) = kConnected \<Longrightarrow> answers_ok n s x cx"
    and own: "tc_state (cs_conn cs) = kConnected \<Longrightarrow> awaiting n s d cs"
    and ws: "\<And>i. write_ok (ws i)" "\<And>i. write_alive (ws i)"
    and r: "message_callback n newTimer ws d s = Some s'"
  shows "world_ok n s' \<and> cw_received s' = cw_received s \<and> (\<not> malformed (cw_chat s) d (cs_conn cs) \<longrightarrow> conn_state s' = conn_state s)"
proof -
  let ?c = "cs_conn cs" let ?w = "cw_chat s" let ?peer = "peer_text n cs"
  define p0 where "p0 = (case wc_parsers ?w d of Some q \<Rightarrow> q | None \<Rightarrow> HttpParser_new)"
  obtain m rs2 p' rest where sr: "stream_requests p0 (Buffer_content (tc_inputBuffer ?c)) [] = (m, rs2, p', rest)"
    by (metis prod_cases4)
  obtain w' buf' refreshed where eq: "message_callback n newTimer ws d s =
      world_effects ws d (refreshed @ (if m then [ChatSend d bad_request, ChatShutdown d]
          else concat (map (onMessage_respond ?peer d ?w) rs2)))
        (s\<lparr>cw_chat := w', cw_conn := (cw_conn s)(d \<mapsto> cs\<lparr>cs_conn := ?c\<lparr>tc_inputBuffer := buf'\<rparr>\<rparr>)\<rparr>)"
    and tm: "list_all is_timer refreshed" and buf': "Buffer_ok buf'" "Buffer_content buf' = rest"
    and w': "wc_parsers w' = (wc_parsers ?w)(d \<mapsto> p')" "wc_connections w' = wc_connections ?w"
    by (rule message_callback_eq [OF b cs sr [unfolded p0_def]])
  let ?s1 = "s\<lparr>cw_chat := w'\<rparr>" let ?cs2 = "cs\<lparr>cs_conn := ?c\<lparr>tc_inputBuffer := buf'\<rparr>\<rparr>"
  have "conn_state s d \<noteq> kConnecting" using st cs by simp
  then have b1: "books ?s1" by (rule books_chat [OF b w'(2)]) (simp add: w'(1))
  define s2 where "s2 = ?s1\<lparr>cw_conn := (cw_conn ?s1)(d \<mapsto> ?cs2)\<rparr>"
  have b2: "books s2" using books_take [OF b1 _ st buf'(1), of d] cs by (simp add: s2_def)
  have eff: "world_effects ws d (refreshed @ (if m then [ChatSend d bad_request, ChatShutdown d]
      else concat (map (onMessage_respond ?peer d ?w) rs2))) s2 = Some s'"
    using r eq by (simp add: s2_def)
  have sel: "cw_conn s2 = (cw_conn s)(d \<mapsto> ?cs2)" "cw_chat s2 = w'" "cw_received s2 = cw_received s" "cw_sends s2 = cw_sends s"
    by (simp_all add: s2_def)
  have o2: "answers_ok n s2 x cx" if "x \<noteq> d" "cw_conn s2 x = Some cx" "tc_state (cs_conn cx) = kConnected" for x cx
    using others [of x cx] that by (simp add: answers_ok_def sel w')
  have rl2: "relayed n s2" by (rule relayed_cong [OF rl sel(4)]) (use cs in \<open>auto simp: sel peer_text_def\<close>)
  have cs2: "cw_conn s2 d = Some ?cs2" "tc_state (cs_conn ?cs2) \<noteq> kConnecting" using st by (simp_all add: sel)
  have peer: "peer_text n ?cs2 = ?peer" by (simp add: peer_text_def)
  show ?thesis
  proof (cases m)
    case True
    with eff have "world_effects ws d (refreshed @ [ChatSend d bad_request, ChatShutdown d]) s2 = Some s'" by simp
    with o2 have "world_ok n s' \<and> cw_received s' = cw_received s2" by (intro malformed_ok [OF b2 rl2 cs2 _ tm ws]) simp_all
    with True sr show ?thesis by (simp add: sel malformed_def flip: p0_def)
  next
    case False
    have eff: "world_effects ws d (refreshed @ concat (map (onMessage_respond (peer_text n ?cs2) d ?w) rs2)) s2 = Some s'"
      using eff False by (simp add: peer)
    have "wc_connections ?w = wc_connections (cw_chat s2)" "wc_parsers (cw_chat s2) d = Some p'" by (simp_all add: sel w')
    moreover have "\<exists>rs. stream_requests HttpParser_new (cw_received s2 d) [] =
          (False, rs @ rs2, p', Buffer_content (tc_inputBuffer (cs_conn ?cs2)))
        \<and> sends_to d d (cw_sends s2) = concat (map (own_answers (peer_text n ?cs2)) rs)"
      if "tc_state (cs_conn ?cs2) = kConnected"
    proof -
      have "tc_state ?c = kConnected" using that by simp
      from own [OF this] obtain rs p where a: "stream_requests HttpParser_new (cw_received s d) [] =
          stream_requests p (Buffer_content (tc_inputBuffer ?c)) rs"
        "wc_parsers ?w d = Some p" "sends_to d d (cw_sends s) = concat (map (own_answers ?peer) rs)"
        unfolding awaiting_def by blast
      with sr False stream_requests_result [of p _ m rs2 p' rest rs] show ?thesis
        by (intro exI [of _ rs]) (simp add: sel peer buf'(2) p0_def)
    qed
    ultimately have "world_ok n s' \<and> cw_received s' = cw_received s2 \<and> conn_state s' = conn_state s2"
      using o2 by (intro batch_ok [OF b2 rl2 cs2 _ _ _ _ tm ws eff]) simp_all
    moreover have "conn_state s2 = conn_state s" using cs by (auto simp: conn_state_def sel fun_eq_iff)
    ultimately show ?thesis by (simp add: sel)
  qed
qed

section \<open>Loop events\<close>

lemma note_event_sel [simp]:
  "cw_chat (note_event e d cs s) = cw_chat s" "cw_conn (note_event e d cs s) = cw_conn s"
  "cw_loop (note_event e d cs s) = cw_loop s" "cw_sends (note_event e d cs s) = cw_sends s"
  "cw_received (note_event e d cs s) = (cw_received s)(d := cw_received s d @ event_input e (cs_conn cs))"
  "x \<noteq> d \<Longrightarrow> cw_log (note_event e d cs s) x = cw_log s x" "x \<noteq> d \<Longrightarrow> cw_queue (note_event e d cs s) x = cw_queue s x"
  by (cases e; simp add: note_event_def split: list.split conn_task.split)+

lemma note_event_books:
  assumes "map snd (cw_queue s d) = send_msgs (cs_tasks cs)" "tc_state (cs_conn cs) \<noteq> kDisconnected"
    "\<And>w. e = RunTask w \<Longrightarrow> write_alive w"
  shows "cw_queue (note_event e d cs s) d = drop (length (ran_msgs e cs)) (cw_queue s d)"
    and "cw_log (note_event e d cs s) d = cw_log s d @ take (length (ran_msgs e cs)) (cw_queue s d)"
proof -
  have "cw_queue (note_event e d cs s) d = drop (length (ran_msgs e cs)) (cw_queue s d)
    \<and> cw_log (note_event e d cs s) d = cw_log s d @ take (length (ran_msgs e cs)) (cw_queue s d)"
  proof (cases e)
    case (RunTask w)
    with assms(3) have "write_alive w" by simp
    with assms(2) have "takes_message w m (cs_conn cs)" for m by (simp add: takes_message_def write_alive_def)
    then show ?thesis
      by (cases "cs_tasks cs")
        (auto simp: RunTask note_event_def ran_msgs_def drop_Suc split: conn_task.split)
  qed (simp_all add: note_event_def ran_msgs_def)
  then show "cw_queue (note_event e d cs s) d = drop (length (ran_msgs e cs)) (cw_queue s d)"
    and "cw_log (note_event e d cs s) d = cw_log s d @ take (length (ran_msgs e cs)) (cw_queue s d)" by simp_all
qed

lemma blank_note_event:
  assumes "blank s d" "cs_tasks cs = []" "event_input e (cs_conn cs) = []"
  shows "blank (note_event e d cs s) d"
  using assms by (cases e) (simp_all add: blank_def note_event_def)

text \<open>The entries of the other connections.\<close>

lemma event_others:
  assumes "books s" "cw_conn s d = Some cs" "x \<noteq> d"
    and "wc_parsers w x = wc_parsers (cw_chat s) x" "x \<in> wc_connections w \<longleftrightarrow> x \<in> wc_connections (cw_chat s)"
    and s1: "s1 = (note_event e d cs (s\<lparr>cw_conn := (cw_conn s)(d \<mapsto> cs')\<rparr>))\<lparr>cw_chat := w\<rparr>"
  shows "cw_conn s1 x = Some cx \<Longrightarrow> entry_ok s1 x cx"
    and "cw_conn s1 x = None \<Longrightarrow> blank s1 x \<and> x \<notin> wc_connections (cw_chat s1)"
    and "cw_conn s x = Some cx \<Longrightarrow> answers_ok n s x cx \<Longrightarrow> answers_ok n s1 x cx"
  using booksD(2,3) [OF assms(1), of x] assms(3,4,5)
  by (auto simp: s1 entry_ok_def books_ok_def blank_def answers_ok_def)

text \<open>The queue and the log of a connection whose loop ran an event.\<close>

lemma event_books_ok:
  assumes bk: "books_ok s d cs" and "map snd (cw_queue s d) = ran_msgs e cs @ send_msgs (cs_tasks cs')"
    and "cs_accepted cs' = cs_accepted cs @ concat (ran_msgs e cs)"
    and "cw_loop s' = cw_loop s" "cw_sends s' = cw_sends s"
    and q: "cw_queue s' d = drop (length (ran_msgs e cs)) (cw_queue s d)"
    and l: "cw_log s' d = cw_log s d @ take (length (ran_msgs e cs)) (cw_queue s d)"
  shows "books_ok s' d cs'"
  unfolding books_ok_def
proof (intro conjI allI)
  let ?k = "length (ran_msgs e cs)"
  have "map snd (take ?k (cw_queue s d)) = ran_msgs e cs" using assms(2) by (metis append_eq_conv_conj take_map)
  with bk assms(3) show "cs_accepted cs' = concat (map snd (cw_log s' d))" by (simp add: l books_ok_def)
  have "map snd (drop ?k (cw_queue s d)) = send_msgs (cs_tasks cs')" using assms(2) by (metis append_eq_conv_conj drop_map)
  then show "map snd (cw_queue s' d) = send_msgs (cs_tasks cs')" by (simp add: q)
  have "msgs_from a (take ?k (cw_queue s d)) @ msgs_from a (drop ?k (cw_queue s d)) = msgs_from a (cw_queue s d)" for a
    by (metis append_take_drop_id msgs_from_simps(2))
  then show "msgs_from a (cw_log s' d) @ msgs_from a (cw_queue s' d) = sends_to a d (cw_sends s')" for a
    using bk by (simp add: l q assms(5) books_ok_def)
  show "\<forall>x\<in>set (cw_queue s' d). cw_loop s' (fst x) \<noteq> cw_loop s' d"
    using bk set_drop_subset [of ?k "cw_queue s d"] by (auto simp: q assms(4) books_ok_def)
qed

lemma event_books:
  assumes b: "books s" and cs: "cw_conn s d = Some cs" and st: "conn_step cs e cs'" and e: "loop_event e"
    and alive: "\<And>w. e = RunTask w \<Longrightarrow> write_alive w"
    and o: "quiet (cs_conn cs) acts (cs_conn cs') \<and> event_input e (cs_conn cs) = []
      \<or> delivers (event_input e (cs_conn cs)) (cs_conn cs) acts (cs_conn cs')"
  defines "s1 \<equiv> note_event e d cs (s\<lparr>cw_conn := (cw_conn s)(d \<mapsto> cs')\<rparr>)"
  shows "books s1"
proof -
  note en = booksD(2) [OF b cs]
  have ok: "sys_ok cs" and cb: "tc_connectionCallback (cs_conn cs)" "tc_messageCallback (cs_conn cs)"
    using en by (simp_all add: entry_ok_def)
  note ls = loop_step(2,3) [OF ok st e cb]
  have s1: "s1 = (note_event e d cs (s\<lparr>cw_conn := (cw_conn s)(d \<mapsto> cs')\<rparr>))\<lparr>cw_chat := cw_chat s\<rparr>" by (simp add: s1_def)
  note others = event_others [OF b cs _ refl refl s1]
  have same: "settled (cs_conn cs) (cs_conn cs')" "tc_state (cs_conn cs') = tc_state (cs_conn cs)"
    using o by (auto simp: quiet_def delivers_def)
  have acc: "cs_accepted cs' = cs_accepted cs @ concat (ran_msgs e cs)" if "tc_state (cs_conn cs) \<noteq> kDisconnected"
    by (rule ls(2) [OF that alive])
  have "entry_ok s1 d cs'"
  proof -
    have "blank s1 d \<and> cs_accepted cs' = [] \<and> Buffer_content (tc_inputBuffer (cs_conn cs')) = []"
      if con: "tc_state (cs_conn cs) = kConnecting"
    proof -
      have t: "cs_tasks cs = []" using ok con by (simp add: sys_ok_def)
      then have ran: "ran_msgs e cs = []" by (simp add: ran_msgs_def split: conn_event.split)
      have q: "quiet (cs_conn cs) acts (cs_conn cs')" "event_input e (cs_conn cs) = []"
        using o con by (auto simp: delivers_def)
      have "blank (s\<lparr>cw_conn := (cw_conn s)(d \<mapsto> cs')\<rparr>) d" using en con by (simp add: entry_ok_def blank_def)
      from blank_note_event [OF this t q(2)] acc ran q(1) en con show ?thesis
        by (simp add: s1_def quiet_def entry_ok_def)
    qed
    moreover have "books_ok s1 d cs'" if con: "tc_state (cs_conn cs) = kConnected"
    proof -
      have bk: "books_ok s d cs" using en con by (simp add: entry_ok_def)
      have m: "map snd (cw_queue (s\<lparr>cw_conn := (cw_conn s)(d \<mapsto> cs')\<rparr>) d) = send_msgs (cs_tasks cs)"
        using bk by (simp add: books_ok_def)
      note nb = note_event_books [OF m _ alive, folded s1_def]
      have "map snd (cw_queue s d) = ran_msgs e cs @ send_msgs (cs_tasks cs')" using bk ls(1) by (simp add: books_ok_def)
      from event_books_ok [OF bk this acc, of s1] nb con show ?thesis by (simp add: s1_def)
    qed
    ultimately show ?thesis
      using en same conn_step_ok [OF ok st] by (simp add: entry_ok_def settled_def s1_def)
  qed
  show ?thesis
  proof (rule booksI)
    show "finite (wc_connections (cw_chat s1))" using booksD(1) [OF b] by (simp add: s1_def)
    show "entry_ok s1 x cx" if "cw_conn s1 x = Some cx" for x cx
      using others(1) [OF _ that] \<open>entry_ok s1 d cs'\<close> that by (cases "x = d") (simp_all add: s1_def)
    show "blank s1 x \<and> x \<notin> wc_connections (cw_chat s1)" if "cw_conn s1 x = None" for x
      using others(2) [OF _ that] that by (cases "x = d") (simp_all add: s1_def)
  qed
qed

text \<open>The connection callback registers or removes the connection; its effects are timers.\<close>

lemma onConnection_registers:
  assumes "WebChatServer_onConnection up newTimer d w = (w', effects)"
  shows "list_all is_timer effects"
    and "wc_connections w' = (if up then insert d (wc_connections w) else wc_connections w - {d})"
    and "x \<noteq> d \<Longrightarrow> wc_parsers w' x = wc_parsers w x"
    and "up \<Longrightarrow> wc_parsers w d = None \<Longrightarrow> wc_parsers w' d = Some HttpParser_new"
  using assms
  by (auto simp: WebChatServer_onConnection_def WebChatServer_refreshIdleTimer_def ConnectionTimers_new_def
      is_timer_def Let_def split: if_splits option.splits)

text \<open>The connection callback only starts and cancels timers.\<close>

lemma connection_callback_eq:
  "connection_callback newTimer ws d s =
     Some (s\<lparr>cw_chat := fst (WebChatServer_onConnection (conn_state s d = kConnected) newTimer d (cw_chat s))\<rparr>)"
proof -
  obtain w effects where w: "WebChatServer_onConnection (conn_state s d = kConnected) newTimer d (cw_chat s) = (w, effects)"
    by fastforce
  with timer_effects(1) [OF onConnection_registers(1) [OF w]] show ?thesis by (simp add: connection_callback_def)
qed

text \<open>A connection that comes up has received, sent and queued nothing yet.\<close>

lemma up_blank:
  assumes en: "entry_ok s d cs" and st: "conn_step cs e cs'" and e: "loop_event e"
    and alive: "\<And>w. e = RunTask w \<Longrightarrow> write_alive w"
    and mv: "moves (cs_conn cs) acts (cs_conn cs')" "event_input e (cs_conn cs) = []"
    and up: "tc_state (cs_conn cs') = kConnected"
    and s': "s' = (note_event e d cs (s\<lparr>cw_conn := (cw_conn s)(d \<mapsto> cs')\<rparr>))\<lparr>cw_chat := w\<rparr>"
  shows "blank s d" "Buffer_content (tc_inputBuffer (cs_conn cs')) = []" "cw_received s' d = []"
    "sends_to c d (cw_sends s) = []" "books_ok s' d cs'"
proof -
  have ok: "sys_ok cs" and cb: "tc_connectionCallback (cs_conn cs)" "tc_messageCallback (cs_conn cs)"
    using en by (simp_all add: entry_ok_def)
  have b: "blank s d" "cs_tasks cs = []" "cs_accepted cs = []" "Buffer_content (tc_inputBuffer (cs_conn cs')) = []"
    using mv(1) up en ok by (auto simp: moves_def entry_ok_def sys_ok_def)
  then show "blank s d" "Buffer_content (tc_inputBuffer (cs_conn cs')) = []" by simp_all
  have n: "cw_received s' d = []" "cw_log s' d = []" "cw_queue s' d = []"
    using blank_note_event [of "s\<lparr>cw_conn := (cw_conn s)(d \<mapsto> cs')\<rparr>" d cs e] b(1,2) mv(2)
    by (simp_all add: s' blank_def)
  then show "cw_received s' d = []" by simp
  have none: "sends_to c d (cw_sends s) = []" for c
  proof -
    have "m \<notin> set (sends_to c d (cw_sends s))" for m using b(1) by (simp add: in_sends_to blank_def)
    then show ?thesis by (metis list.set_intros(1) neq_Nil_conv)
  qed
  then show "sends_to c d (cw_sends s) = []" .
  have "tc_state (cs_conn cs) \<noteq> kDisconnected" using mv(1) up by (auto simp: moves_def)
  note a = loop_step(3) [OF ok st e cb this alive]
  have "ran_msgs e cs = []" using b(2) by (simp add: ran_msgs_def split: conn_event.split)
  with a loop_step(2) [OF ok st e cb] b n none show "books_ok s' d cs'" by (simp add: books_ok_def s')
qed

lemma move_ok:
  assumes wok: "world_ok n s" and cs: "cw_conn s d = Some cs" and st: "conn_step cs e cs'" and e: "loop_event e"
    and alive: "\<And>w. e = RunTask w \<Longrightarrow> write_alive w"
    and mv: "moves (cs_conn cs) acts (cs_conn cs')" "event_input e (cs_conn cs) = []"
  defines "s1 \<equiv> note_event e d cs (s\<lparr>cw_conn := (cw_conn s)(d \<mapsto> cs')\<rparr>)"
  assumes r: "connection_callback newTimer ws d s1 = Some s'"
  shows "world_ok n s'"
proof -
  have b: "books s" and an: "answered n s" and rl: "relayed n s" using wok by (simp_all add: world_ok_def)
  note en = booksD(2) [OF b cs]
  have ok: "sys_ok cs" and cb: "tc_connectionCallback (cs_conn cs)" "tc_messageCallback (cs_conn cs)"
    using en by (simp_all add: entry_ok_def)
  let ?up = "tc_state (cs_conn cs') = kConnected"
  have c1: "cw_conn s1 d = Some cs'" and chat1: "cw_chat s1 = cw_chat s" by (simp_all add: s1_def)
  obtain w effects where w: "WebChatServer_onConnection ?up newTimer d (cw_chat s) = (w, effects)" by fastforce
  note reg = onConnection_registers [OF w]
  have s': "s' = (note_event e d cs (s\<lparr>cw_conn := (cw_conn s)(d \<mapsto> cs')\<rparr>))\<lparr>cw_chat := w\<rparr>"
    using r w c1 chat1 by (simp add: connection_callback_eq s1_def)
  have mem: "x \<in> wc_connections w \<longleftrightarrow> x \<in> wc_connections (cw_chat s)" if "x \<noteq> d" for x using that reg(2) by auto
  note others = event_others [OF b cs _ reg(3) mem s']
  have sel: "cw_conn s' = (cw_conn s)(d \<mapsto> cs')" "cw_chat s' = w" "cw_sends s' = cw_sends s" by (simp_all add: s')
  note up = up_blank [OF en st e alive mv _ s']
  have en': "entry_ok s' d cs'"
    using up(5) mv(1) conn_step_ok [OF ok st] cb reg(2) by (auto simp: entry_ok_def moves_def settled_def sel)
  have "books s'"
  proof (rule booksI)
    show "finite (wc_connections (cw_chat s'))" using booksD(1) [OF b] reg(2) by (simp add: sel)
    show "entry_ok s' x cx" if "cw_conn s' x = Some cx" for x cx
      using others(1) [OF _ _ _ that] en' that by (cases "x = d") (simp_all add: sel)
    show "blank s' x \<and> x \<notin> wc_connections (cw_chat s')" if "cw_conn s' x = None" for x
      using others(2) [OF _ _ _ that] that by (cases "x = d") (simp_all add: sel)
  qed
  moreover have "answers_ok n s' d cs'" if ?up
  proof -
    have "wc_parsers w d = Some HttpParser_new" by (rule reg(4)) (use that up(1) in \<open>simp_all add: blank_def\<close>)
    with up [OF _ that] show ?thesis by (simp add: answers_ok_def sel stream_requests_new_empty)
  qed
  then have "answered n s'" unfolding answered_def using an others(3) by (auto simp: sel answered_def)
  moreover have "relayed n s'"
    by (rule relayed_cong [OF rl sel(3)]) (use cs mv(1) in \<open>auto simp: sel peer_text_def moves_def settled_def\<close>)
  ultimately show ?thesis by (simp add: world_ok_def)
qed

lemma quiet_ok:
  assumes wok: "world_ok n s" and cs: "cw_conn s d = Some cs" and st: "conn_step cs e cs'" and e: "loop_event e"
    and alive: "\<And>w. e = RunTask w \<Longrightarrow> write_alive w"
    and q: "quiet (cs_conn cs) acts (cs_conn cs')" "event_input e (cs_conn cs) = []"
  defines "s1 \<equiv> note_event e d cs (s\<lparr>cw_conn := (cw_conn s)(d \<mapsto> cs')\<rparr>)"
  shows "world_ok n s1"
proof -
  have b: "books s" and an: "answered n s" and rl: "relayed n s" using wok by (simp_all add: world_ok_def)
  have "books s1" unfolding s1_def using alive q by (intro event_books [OF b cs st e, of acts]) blast+
  moreover have "answered n s1" unfolding answered_def
  proof (intro allI impI)
    fix x cx assume cx: "cw_conn s1 x = Some cx" "tc_state (cs_conn cx) = kConnected"
    show "answers_ok n s1 x cx"
    proof (cases "x = d")
      case False
      with cx an have "answers_ok n s x cx" by (simp add: s1_def answered_def)
      with False show ?thesis by (simp add: s1_def answers_ok_def)
    next
      case True
      with cx have "cx = cs'" by (simp add: s1_def)
      with cx(2) q(1) have con: "tc_state (cs_conn cs) = kConnected" "tc_inputBuffer (cs_conn cx) = tc_inputBuffer (cs_conn cs)"
        "peer_text n cx = peer_text n cs" by (auto simp: quiet_def settled_def peer_text_def)
      with an cs have "answers_ok n s d cs" by (simp add: answered_def)
      with con True q(2) show ?thesis by (simp add: s1_def answers_ok_def)
    qed
  qed
  moreover have "relayed n s1"
    by (rule relayed_cong [OF rl]) (use cs q(1) in \<open>auto simp: s1_def peer_text_def quiet_def settled_def\<close>)
  ultimately show ?thesis by (simp add: world_ok_def)
qed

lemma deliver_ok:
  assumes wok: "world_ok n s" and cs: "cw_conn s d = Some cs" and st: "conn_step cs e cs'" and e: "loop_event e"
    and alive: "\<And>w. e = RunTask w \<Longrightarrow> write_alive w"
    and dl: "delivers (event_input e (cs_conn cs)) (cs_conn cs) acts (cs_conn cs')"
    and ws: "\<And>i. write_ok (ws i)" "\<And>i. write_alive (ws i)"
  defines "s1 \<equiv> note_event e d cs (s\<lparr>cw_conn := (cw_conn s)(d \<mapsto> cs')\<rparr>)"
  assumes r: "message_callback n newTimer ws d s1 = Some s'"
  shows "world_ok n s' \<and> cw_received s' = cw_received s1
    \<and> (\<not> malformed (cw_chat s) d (cs_conn cs') \<longrightarrow> conn_state s' d = tc_state (cs_conn cs))"
proof -
  have b: "books s" and an: "answered n s" and rl: "relayed n s" using wok by (simp_all add: world_ok_def)
  have b1: "books s1" unfolding s1_def using alive dl by (intro event_books [OF b cs st e, of acts]) blast+
  have rl1: "relayed n s1"
    by (rule relayed_cong [OF rl]) (use cs dl in \<open>auto simp: s1_def peer_text_def delivers_def settled_def\<close>)
  have cs1: "cw_conn s1 d = Some cs'" "tc_state (cs_conn cs') \<noteq> kConnecting" using dl by (auto simp: s1_def delivers_def)
  have others: "answers_ok n s1 x cx" if "x \<noteq> d" "cw_conn s1 x = Some cx" "tc_state (cs_conn cx) = kConnected" for x cx
  proof -
    have "answers_ok n s x cx" using an that by (simp add: s1_def answered_def)
    with that show ?thesis by (simp add: s1_def answers_ok_def)
  qed
  have own: "awaiting n s1 d cs'" if "tc_state (cs_conn cs') = kConnected"
  proof -
    have "answers_ok n s d cs" using an cs dl that by (simp add: answered_def delivers_def)
    then obtain rs p where a: "stream_requests HttpParser_new (cw_received s d) [] =
        (False, rs, p, Buffer_content (tc_inputBuffer (cs_conn cs)))" "wc_parsers (cw_chat s) d = Some p"
      "sends_to d d (cw_sends s) = concat (map (own_answers (peer_text n cs)) rs)"
      unfolding answers_ok_def by blast
    have "peer_text n cs' = peer_text n cs" using dl by (simp add: delivers_def settled_def peer_text_def)
    with stream_requests_append [OF a(1), of "event_input e (cs_conn cs)"] a(2,3) dl show ?thesis
      unfolding awaiting_def by (intro exI [of _ rs] exI [of _ p]) (simp add: s1_def delivers_def)
  qed
  have "world_ok n s' \<and> cw_received s' = cw_received s1
      \<and> (\<not> malformed (cw_chat s1) d (cs_conn cs') \<longrightarrow> conn_state s' = conn_state s1)"
    using others own by (intro message_ok [OF b1 rl1 cs1 _ _ ws r]) simp_all
  moreover have "conn_state s1 d = tc_state (cs_conn cs)" using cs1(1) dl by (simp add: delivers_def)
  ultimately show ?thesis by (simp add: s1_def)
qed

section \<open>Steps keep the invariant\<close>

lemma world_init_ok: "world_ok n world_init"
  by (simp add: world_ok_def books_def answered_def relayed_def world_init_def blank_def WebChatServer_state_def)

lemma accepted_conn_ok:
  assumes "accepted_conn nm sockfd peerAddr = Some cs"
  shows "sys_ok cs" "tc_connectionCallback (cs_conn cs)" "tc_messageCallback (cs_conn cs)"
    "tc_state (cs_conn cs) = kConnecting" "cs_accepted cs = []" "Buffer_content (tc_inputBuffer (cs_conn cs)) = []"
proof -
  have "event_ok (SetCallbacks True True False True) (cs_conn (conn_init nm sockfd peerAddr peerAddr))" by simp
  from conn_step_ok [OF sys_ok_init conn_do_step [OF assms [unfolded accepted_conn_def] this]] show "sys_ok cs" .
  show "tc_connectionCallback (cs_conn cs)" "tc_messageCallback (cs_conn cs)"
    "tc_state (cs_conn cs) = kConnecting" "cs_accepted cs = []" "Buffer_content (tc_inputBuffer (cs_conn cs)) = []"
    using assms by (auto simp: accepted_conn_def conn_do_def conn_init_def TcpConnection_new_def
        TcpConnection_setConnectionCallback_def TcpConnection_setMessageCallback_def
        TcpConnection_setWriteCompleteCallback_def TcpConnection_setCloseCallback_def)
qed

lemma new_ok:
  assumes wok: "world_ok n s" and d: "cw_conn s d = None" and a: "accepted_conn nm sockfd peerAddr = Some cs"
  shows "world_ok n (s\<lparr>cw_conn := (cw_conn s)(d \<mapsto> cs), cw_loop := (cw_loop s)(d := loop)\<rparr>)" (is "world_ok n ?s")
proof -
  have b: "books s" and an: "answered n s" and rl: "relayed n s" using wok by (simp_all add: world_ok_def)
  note bd = booksD(3) [OF b d]
  have "books ?s"
  proof (rule booksI)
    show "finite (wc_connections (cw_chat ?s))" using booksD(1) [OF b] by simp
    show "blank ?s x \<and> x \<notin> wc_connections (cw_chat ?s)" if "cw_conn ?s x = None" for x
      using booksD(3) [OF b, of x] that by (simp add: blank_def split: if_splits)
    show "entry_ok ?s x cx" if cx: "cw_conn ?s x = Some cx" for x cx
    proof (cases "x = d")
      case True
      with cx bd accepted_conn_ok [OF a] show ?thesis by (simp add: entry_ok_def blank_def)
    next
      case False
      with cx have "entry_ok s x cx" using booksD(2) [OF b, of x cx] by simp
      moreover have "books_ok ?s x cx" if bk: "books_ok s x cx"
      proof -
        have "(d, m) \<notin> set (cw_queue s x)" for m
        proof
          assume "(d, m) \<in> set (cw_queue s x)"
          then have "m \<in> set (msgs_from d (cw_log s x) @ msgs_from d (cw_queue s x))" by (simp add: in_msgs_from)
          then have "m \<in> set (sends_to d x (cw_sends s))" using bk unfolding books_ok_def by metis
          with bd show False by (simp add: in_sends_to blank_def)
        qed
        with bk False show ?thesis by (auto simp: books_ok_def)
      qed
      ultimately show ?thesis by (simp add: entry_ok_def blank_def)
    qed
  qed
  moreover have "answered n ?s"
    using an accepted_conn_ok(4) [OF a] by (auto simp: answered_def answers_ok_def split: if_splits)
  moreover have "relayed n ?s" by (rule relayed_cong [OF rl]) (use d in auto)
  ultimately show ?thesis by (simp add: world_ok_def)
qed

lemma leave_ok:
  assumes wok: "world_ok n s" and r: "world_call d e s = Some s'" and e: "e = CallShutdown i \<or> e = CallForceClose"
  shows "world_ok n s'"
proof -
  have b: "books s" and an: "answered n s" and rl: "relayed n s" using wok by (simp_all add: world_ok_def)
  note g = world_leave [OF b r e]
  obtain cs where cs: "cw_conn s d = Some cs" using r by (auto simp: world_call_def bind_eq_Some_conv)
  have sn: "cw_sends s' = cw_sends s @ effect_sends d []" using g by simp
  have "answered n s'" unfolding answered_def
  proof (intro allI impI)
    fix x cx assume cx: "cw_conn s' x = Some cx" "tc_state (cs_conn cx) = kConnected"
    show "answers_ok n s' x cx"
      by (rule answered_view [OF conjunct1 [OF conjunct2 [OF g]] sn _ _ cx])
        (use an g in \<open>auto simp: answered_def split: if_splits\<close>)
  qed
  moreover have "relayed n s'" by (rule relayed_view [OF rl _ sn cs]) (use g in simp_all)
  ultimately show ?thesis using g by (simp add: world_ok_def)
qed

text \<open>A timer of a connection shuts it down, forces it closed, or finds nothing to do.\<close>

lemma run_timer_cases:
  assumes "run_timer k st newTimer d w = (w', effects)"
  shows "wc_connections w' = wc_connections w \<and> wc_parsers w' = wc_parsers w
    \<and> effects \<in> {filter is_timer effects, ChatShutdown d # filter is_timer effects, ChatForceClose d # filter is_timer effects}"
  using assms
  by (cases k) (auto simp: run_timer_def WebChatServer_handleIdleTimeout_def WebChatServer_handleForceCloseTimeout_def
      is_timer_def split: option.splits if_splits)

lemma timer_ok:
  assumes wok: "world_ok n s" and t: "run_timer k st newTimer d (cw_chat s) = (w, effects)"
    and r: "world_effects ws d effects (s\<lparr>cw_chat := w\<rparr>) = Some s'"
  shows "world_ok n s'"
proof -
  obtain rest where w: "wc_connections w = wc_connections (cw_chat s)" "wc_parsers w = wc_parsers (cw_chat s)"
    and rest: "list_all is_timer rest" "effects \<in> {rest, ChatShutdown d # rest, ChatForceClose d # rest}"
    using run_timer_cases [OF t] that [of "filter is_timer effects"] by (simp add: list_all_iff)
  let ?s1 = "s\<lparr>cw_chat := w\<rparr>"
  have "entry_ok ?s1 = entry_ok s" "blank ?s1 = blank s"
    by (simp_all add: fun_eq_iff w entry_ok_def books_ok_def blank_def)
  then have "books ?s1 \<longleftrightarrow> books s" by (simp add: books_def w cong del: option.case_cong_weak)
  then have ok: "world_ok n ?s1"
    using wok by (simp add: world_ok_def answered_def answers_ok_def relayed_def w)
  note te = timer_effects(1) [OF rest(1)]
  from rest(2) consider "effects = rest" | "effects = ChatShutdown d # rest" | "effects = ChatForceClose d # rest" by blast
  then show ?thesis
  proof cases
    case 1
    with ok r te show ?thesis by simp
  next
    case 2
    with r te obtain i where "world_call d (CallShutdown i) ?s1 = Some s'" by (auto simp: bind_eq_Some_conv)
    from leave_ok [OF ok this] show ?thesis by blast
  next
    case 3
    with r te have "world_call d CallForceClose ?s1 = Some s'" by (auto simp: bind_eq_Some_conv)
    from leave_ok [OF ok this] show ?thesis by blast
  qed
qed

fun event_alive :: "world_event \<Rightarrow> bool" where
  "event_alive (WConn d e newTimer writes) \<longleftrightarrow>
     (\<forall>i. write_alive (writes i)) \<and> (case e of RunTask w \<Rightarrow> write_alive w | _ \<Rightarrow> True)"
| "event_alive _ \<longleftrightarrow> True"

lemma world_step_ok:
  assumes wok: "world_ok n s" and step: "world_step n s ev s'" and alive: "event_alive ev"
  shows "world_ok n s'"
  using step
proof cases
  case (world_new d nm sockfd peerAddr cs loop)
  with new_ok [OF wok] show ?thesis by simp
next
  case (world_timer d cs ws k newTimer w effects)
  with timer_ok [OF wok] show ?thesis by simp
next
  case (world_conn d cs e cs' ws newTimer)
  let ?s1 = "note_event e d cs (s\<lparr>cw_conn := (cw_conn s)(d \<mapsto> cs')\<rparr>)"
  have en: "entry_ok s d cs" using wok world_conn(2) booksD(2) by (simp add: world_ok_def)
  then have ok: "sys_ok cs" and cb: "tc_connectionCallback (cs_conn cs)" "tc_messageCallback (cs_conn cs)"
    by (simp_all add: entry_ok_def)
  have ws: "write_alive (ws i)" for i using alive world_conn(1) by simp
  have task: "write_alive w" if "e = RunTask w" for w using alive world_conn(1) that by simp
  let ?acts = "new_actions cs cs'" let ?data = "event_input e (cs_conn cs)"
  from loop_step(1) [OF ok world_conn(4,3) cb] consider
      "quiet (cs_conn cs) ?acts (cs_conn cs')" "?data = []"
    | "moves (cs_conn cs) ?acts (cs_conn cs')" "?data = []"
    | "delivers ?data (cs_conn cs) ?acts (cs_conn cs')" unfolding outcome_def by blast
  then show ?thesis
  proof cases
    case 1
    then have "s' = ?s1" using world_conn(6) by (simp add: run_callbacks_def quiet_def)
    with quiet_ok [OF wok world_conn(2,4,3) task 1] show ?thesis by simp
  next
    case 2
    then have "connection_callback newTimer ws d ?s1 = Some s'" using world_conn(6) by (simp add: run_callbacks_def moves_def)
    with task show ?thesis by (intro move_ok [OF wok world_conn(2,4,3) _ 2]) simp_all
  next
    case 3
    then have "message_callback n newTimer ws d ?s1 = Some s'" using world_conn(6) by (simp add: run_callbacks_def delivers_def)
    from deliver_ok [OF wok world_conn(2,4,3) _ 3 world_conn(5) ws this] task show ?thesis by blast
  qed
qed

definition alive_step :: "(32 word \<Rightarrow> bytes) \<Rightarrow> chat_world \<Rightarrow> world_event \<Rightarrow> chat_world \<Rightarrow> bool" where
  "alive_step inet_ntop s ev s' \<longleftrightarrow> world_step inet_ntop s ev s' \<and> event_alive ev"

interpretation world: step_invariant "alive_step inet_ntop" "world_ok inet_ntop" for inet_ntop
  by unfold_locales (auto simp: alive_step_def intro: world_step_ok)

lemma run_alive:
  "run (world_step n) s es s' \<Longrightarrow> list_all event_alive es \<Longrightarrow> run (alive_step n) s es s'"
  by (induction rule: run.induct) (auto simp: alive_step_def intro: run.intros)

section \<open>Callbacks return\<close>

fun effect_target :: "chat_effect \<Rightarrow> conn_ptr option" where
  "effect_target (ChatSend d m) = Some d"
| "effect_target (ChatShutdown d) = Some d"
| "effect_target (ChatForceClose d) = Some d"
| "effect_target _ = None"

lemma send_returns: "\<exists>cs'. conn_do (CallSend i w m) cs = Some cs'"
  using sendInLoop_returns [of w m "cs_conn cs"] by (cases i) (auto simp: conn_do_def TcpConnection_send_def)

lemma leave_returns: "\<exists>cs'. conn_do (CallShutdown i) cs = Some cs'" "\<exists>cs'. conn_do CallForceClose cs = Some cs'"
  by (auto simp: conn_do_def TcpConnection_shutdown_def TcpConnection_shutdownInLoop_def TcpConnection_forceClose_def Let_def)

lemma world_call_returns:
  assumes "d \<in> dom (cw_conn s)" "\<And>cs. \<exists>cs'. conn_do e cs = Some cs'"
  shows "\<exists>s'. world_call d e s = Some s' \<and> dom (cw_conn s') = dom (cw_conn s)"
proof -
  obtain cs where cs: "cw_conn s d = Some cs" using assms(1) by blast
  obtain cs' where "conn_do e cs = Some cs'" using assms(2) by blast
  with cs show ?thesis by (auto simp: world_call_def)
qed

lemma world_effect_returns:
  assumes "\<And>d. effect_target e = Some d \<Longrightarrow> d \<in> dom (cw_conn s)"
  shows "\<exists>s'. world_effect w c e s = Some s' \<and> dom (cw_conn s') = dom (cw_conn s)"
proof (cases e)
  case (ChatSend d m)
  with assms obtain cs where "cw_conn s d = Some cs" by auto
  then have "d \<in> dom (cw_conn (note_send w c d m cs s))" by (simp add: domI)
  from world_call_returns [OF this send_returns [of "cw_loop s c = cw_loop s d" w m]] ChatSend \<open>cw_conn s d = Some cs\<close>
  show ?thesis by simp
qed (use assms world_call_returns leave_returns in \<open>auto simp: dom_def\<close>)

lemma world_effects_return:
  assumes "\<And>e d. e \<in> set es \<Longrightarrow> effect_target e = Some d \<Longrightarrow> d \<in> dom (cw_conn s)"
  shows "\<exists>s'. world_effects ws c es s = Some s'"
  using assms
proof (induction es arbitrary: s ws)
  case (Cons e es)
  obtain s1 where s1: "world_effect (ws 0) c e s = Some s1" "dom (cw_conn s1) = dom (cw_conn s)"
    using world_effect_returns [of e s "ws 0" c] Cons.prems [of e] by (metis list.set_intros(1))
  have "\<exists>s'. world_effects (\<lambda>i. ws (Suc i)) c es s1 = Some s'" by (rule Cons.IH) (use Cons.prems s1(2) in auto)
  with s1(1) show ?case by simp
qed simp

lemma timer_target: "list_all is_timer es \<Longrightarrow> e \<in> set es \<Longrightarrow> effect_target e = None"
  by (cases e) (auto simp: list_all_iff is_timer_def)

text \<open>In every reachable state the callbacks a loop event leads to run to their end.\<close>

lemma callbacks_return:
  assumes b: "books s" and cs: "cw_conn s d = Some cs"
  shows "\<exists>s'. run_callbacks n newTimer ws d acts s = Some s'"
proof -
  let ?c = "cs_conn cs" let ?peer = "peer_text n cs"
  obtain m rs p' rest where sr: "stream_requests (case wc_parsers (cw_chat s) d of Some q \<Rightarrow> q | None \<Rightarrow> HttpParser_new)
      (Buffer_content (tc_inputBuffer ?c)) [] = (m, rs, p', rest)" by (metis prod_cases4)
  let ?es = "\<lambda>refreshed. refreshed @ (if m then [ChatSend d bad_request, ChatShutdown d]
        else concat (map (onMessage_respond ?peer d (cw_chat s)) rs))"
  obtain s2 refreshed where eq: "message_callback n newTimer ws d s = world_effects ws d (?es refreshed) s2"
    and tm: "list_all is_timer refreshed" and dom2: "dom (cw_conn s2) = dom (cw_conn s)"
  proof (rule message_callback_eq [OF b cs sr, of n newTimer ws])
    fix w' buf' refreshed
    let ?s2 = "s\<lparr>cw_chat := w', cw_conn := (cw_conn s)(d \<mapsto> cs\<lparr>cs_conn := ?c\<lparr>tc_inputBuffer := buf'\<rparr>\<rparr>)\<rparr>"
    assume "message_callback n newTimer ws d s = world_effects ws d (?es refreshed) ?s2" "list_all is_timer refreshed"
    with that [of refreshed ?s2] cs show thesis by (simp add: insert_absorb domI)
  qed
  have "x \<in> dom (cw_conn s2)" if "e \<in> set (concat (map (onMessage_respond ?peer d (cw_chat s)) rs))" "effect_target e = Some x" for e x
  proof -
    have "is_send e" using that(1) respond_all_sends [of ?peer d "cw_chat s" rs] unfolding list_all_iff by blast
    with that(2) obtain m0 where "e = ChatSend x m0" by (cases e) (simp_all add: is_send_def)
    with that(1) respond_targets booksD(1) [OF b] have "x = d \<or> x \<in> wc_connections (cw_chat s)" by fastforce
    with booksD(3) [OF b, of x] cs show ?thesis by (auto simp: dom2)
  qed
  then have "x \<in> dom (cw_conn s2)" if "e \<in> set (?es refreshed)" "effect_target e = Some x" for e x
    using that timer_target [OF tm, of e] cs by (cases m) (auto simp: dom2)
  then have "\<exists>s'. world_effects ws d (?es refreshed) s2 = Some s'" by (rule world_effects_return)
  with eq connection_callback_eq show ?thesis by (auto simp: run_callbacks_def)
qed

text \<open>A new connection can be established, and a connected one can read any well-formed input and stays connected.\<close>

lemma establish_step:
  assumes wok: "world_ok n s" and cs: "cw_conn s d = Some cs" and st: "tc_state (cs_conn cs) = kConnecting"
    and ws: "\<And>i. write_ok (ws i)"
  shows "\<exists>s' cs'. world_step n s (WConn d Establish newTimer ws) s' \<and> cw_conn s' d = Some cs'
    \<and> tc_state (cs_conn cs') = kConnected \<and> ch_inEpoll (tc_channel (cs_conn cs'))
    \<and> cw_received s' = cw_received s \<and> (\<forall>x. x \<noteq> d \<longrightarrow> cw_conn s' x = cw_conn s x)"
proof -
  have cb: "tc_connectionCallback (cs_conn cs)" using wok cs booksD(2) by (auto simp: world_ok_def entry_ok_def)
  obtain c' acts where ev: "event_do Establish (cs_conn cs) = Some (c', acts)"
    "tc_state c' = kConnected" "ch_inEpoll (tc_channel c')" "CallConnection \<in> set acts"
    using st cb by (simp add: TcpConnection_connectEstablished_def Let_def)
  obtain cs' where cs': "conn_step cs Establish cs'" "cs_conn cs' = c'" "cs_trace cs' = cs_trace cs @ acts"
    by (rule conn_step_eventI [OF _ ev(1)]) simp_all
  let ?s1 = "note_event Establish d cs (s\<lparr>cw_conn := (cw_conn s)(d \<mapsto> cs')\<rparr>)"
  obtain w where "run_callbacks n newTimer ws d (new_actions cs cs') ?s1 = Some (?s1\<lparr>cw_chat := w\<rparr>)"
    using ev(4) cs'(3) by (simp add: run_callbacks_def new_actions_def connection_callback_eq)
  from world_conn [OF cs _ cs'(1) ws this] ev cs'(2) show ?thesis
    by (intro exI [of _ "?s1\<lparr>cw_chat := w\<rparr>"] exI [of _ cs']) simp
qed

lemma read_step:
  assumes wok: "world_ok n s" and cs: "cw_conn s d = Some cs" and con: "tc_state (cs_conn cs) = kConnected"
    and reg: "ch_inEpoll (tc_channel (cs_conn cs))" and ws: "\<And>i. write_ok (ws i)" "\<And>i. write_alive (ws i)"
    and rd: "readv_ok rd" "rd (readFd_capacity (tc_inputBuffer (cs_conn cs))) = Inr data" "data \<noteq> []"
    and good: "\<not> fst (stream_requests HttpParser_new (cw_received s d @ data) [])"
  shows "\<exists>s'. world_step n s (WConn d (OnRead rd) newTimer ws) s' \<and> conn_state s' d = kConnected
    \<and> cw_received s' d = cw_received s d @ data"
proof -
  let ?c = "cs_conn cs" let ?e = "OnRead rd"
  have b: "books s" and an: "answers_ok n s d cs" using wok cs con by (auto simp: world_ok_def answered_def)
  note en = booksD(2) [OF b cs]
  have bok: "Buffer_ok (tc_inputBuffer ?c)" and cb: "tc_messageCallback ?c"
    using en by (simp_all add: entry_ok_def sys_ok_def conn_ok_def)
  obtain buf where buf: "Buffer_readFd rd (tc_inputBuffer ?c) = (Inr (length data), buf)"
    "Buffer_content buf = Buffer_content (tc_inputBuffer ?c) @ data"
    using readFd_correct [OF bok, of rd data] rd(1,2) by (metis readv_ok_def)
  have ev: "event_do ?e ?c = Some (?c\<lparr>tc_inputBuffer := buf\<rparr>, [CallMessage])"
    using buf(1) rd(3) cb by (simp add: TcpConnection_handleRead_def)
  obtain cs' where cs': "conn_step cs ?e cs'" "cs_conn cs' = ?c\<lparr>tc_inputBuffer := buf\<rparr>" "cs_trace cs' = cs_trace cs @ [CallMessage]"
    by (rule conn_step_eventI [OF _ ev]) (use rd(1) reg in simp_all)
  have input: "event_input ?e ?c = data" using rd(2) by simp
  have dl: "delivers (event_input ?e ?c) ?c [CallMessage] (cs_conn cs')"
    using rd(3) con buf(2) unfolding input by (simp add: delivers_def settled_def cs'(2))
  let ?s1 = "note_event ?e d cs (s\<lparr>cw_conn := (cw_conn s)(d \<mapsto> cs')\<rparr>)"
  have "books ?s1" using dl by (intro event_books [OF b cs cs'(1)]) auto
  then obtain s' where s': "run_callbacks n newTimer ws d (new_actions cs cs') ?s1 = Some s'"
    using callbacks_return [of ?s1 d cs' n newTimer ws "new_actions cs cs'"] by auto
  then have mc: "message_callback n newTimer ws d ?s1 = Some s'" by (simp add: run_callbacks_def new_actions_def cs'(3))
  from an obtain rs p where a: "stream_requests HttpParser_new (cw_received s d) [] =
      (False, rs, p, Buffer_content (tc_inputBuffer ?c))" "wc_parsers (cw_chat s) d = Some p"
    unfolding answers_ok_def by blast
  have "\<not> malformed (cw_chat s) d (cs_conn cs')"
    using good stream_requests_append [OF a(1), of data] stream_requests_acc [of p _ rs "[]"] a(2)
    by (simp add: malformed_def cs'(2) buf(2) split: prod.splits)
  moreover note deliver_ok [OF wok cs cs'(1) _ _ dl ws mc]
  ultimately have "conn_state s' d = kConnected" "cw_received s' = cw_received ?s1" using con by auto
  moreover have "world_step n s (WConn d ?e newTimer ws) s'" by (rule world_conn [OF cs _ cs'(1) ws(1) s']) simp
  ultimately show ?thesis using input by auto
qed

section \<open>The property\<close>

text \<open>C1. The chat server end to end. In every run of the server with any number of connections on any loops, as long as
  no write finds its peer gone, the stream of a connected client is exactly what it should be: the bytes
  written to its socket followed by those still queued are whole messages in the order the connection took
  them; its own messages among them are the answers to the requests in the bytes it sent so far,
  in order, however these bytes were cut into reads, and the unread rest waits in its input buffer; for every
  sender the messages taken and still queued are all it sent, in the order it sent them; and
  what comes from other connections are their broadcasts.\<close>

theorem chat_server_end_to_end:
  assumes "run (world_step inet_ntop) world_init es s" "list_all event_alive es"
    and "cw_conn s d = Some cs" "tc_state (cs_conn cs) = kConnected"
  shows "sent_bytes (cs_trace cs) @ pending (cs_conn cs) = concat (map snd (cw_log s d))
    \<and> (\<exists>rs p. stream_requests HttpParser_new (cw_received s d) [] =
            (False, rs, p, Buffer_content (tc_inputBuffer (cs_conn cs)))
         \<and> msgs_from d (cw_log s d) = concat (map (own_answers (peer_text inet_ntop cs)) rs))
    \<and> (\<forall>c. msgs_from c (cw_log s d) @ msgs_from c (cw_queue s d) = sends_to c d (cw_sends s))
    \<and> (\<forall>c m. (c, m) \<in> set (cw_log s d) \<longrightarrow> c \<noteq> d \<longrightarrow>
         (\<exists>cs' body. cw_conn s c = Some cs' \<and> m = broadcast_line (peer_text inet_ntop cs') body))"
proof -
  have "world_ok inet_ntop s" by (rule world.inv_run [OF run_alive [OF assms(1,2)] world_init_ok])
  then have b: "books s" and an: "answers_ok inet_ntop s d cs" and rl: "relayed inet_ntop s"
    using assms(3,4) by (auto simp: world_ok_def answered_def)
  have en: "sys_ok cs" "books_ok s d cs" using booksD(2) [OF b assms(3)] assms(4) by (simp_all add: entry_ok_def)
  have own: "msgs_from d (cw_queue s d) = []"
  proof -
    have "(d, m) \<notin> set (cw_queue s d)" for m using en(2) by (auto simp: books_ok_def)
    then show ?thesis by (metis in_msgs_from list.set_intros(1) neq_Nil_conv)
  qed
  have eq: "msgs_from c (cw_log s d) @ msgs_from c (cw_queue s d) = sends_to c d (cw_sends s)" for c
    using en(2) by (simp add: books_ok_def)
  show ?thesis
  proof (intro conjI allI impI)
    show "sent_bytes (cs_trace cs) @ pending (cs_conn cs) = concat (map snd (cw_log s d))"
      using en by (simp add: sys_ok_def books_ok_def)
    show "\<exists>rs p. stream_requests HttpParser_new (cw_received s d) [] = (False, rs, p, Buffer_content (tc_inputBuffer (cs_conn cs)))
         \<and> msgs_from d (cw_log s d) = concat (map (own_answers (peer_text inet_ntop cs)) rs)"
      using an eq [of d] own by (auto simp: answers_ok_def)
    show "msgs_from c (cw_log s d) @ msgs_from c (cw_queue s d) = sends_to c d (cw_sends s)" for c by (rule eq)
    fix c m assume m: "(c, m) \<in> set (cw_log s d)" and ne: "c \<noteq> d"
    from m have "m \<in> set (sends_to c d (cw_sends s))" using eq [of c] by (metis Un_iff in_msgs_from set_append)
    then have "(c, d, m) \<in> set (cw_sends s)" by (simp add: in_sends_to)
    with rl ne show "\<exists>cs' body. cw_conn s c = Some cs' \<and> m = broadcast_line (peer_text inet_ntop cs') body"
      unfolding relayed_def by blast
  qed
qed

theorem chat_server_end_to_end_witness:
  "\<exists>s cs. run (world_step (\<lambda>_. ''1.2.3.4'')) world_init
        [WNew 1 0 ''c'' 7 InetAddress_zero, WConn 1 Establish 5 (\<lambda>_ xs. Inr (length xs)),
         WConn 1 (OnRead (\<lambda>cap. Inr (take cap (''GET / HTTP/1.1'' @ kCRLF @ kCRLF)))) 6 (\<lambda>_ xs. Inr (length xs))] s
     \<and> cw_conn s 1 = Some cs \<and> msgs_from 1 (cw_log s 1) = [http_answer ''text/html; charset=utf-8'' g_chat_html]"
proof -
  let ?n = "\<lambda>_. ''1.2.3.4''" and ?ws = "\<lambda>(_::nat) xs. Inr (length xs) :: errno + nat"
  let ?req = "''GET / HTTP/1.1'' @ kCRLF @ kCRLF" and ?rd = "\<lambda>cap. Inr (take cap (''GET / HTTP/1.1'' @ kCRLF @ kCRLF)) :: errno + bytes"
  let ?r = "(''GET'', ''/'', ''HTTP/1.1'', [], []) :: wire_request"
  have ws: "write_ok (?ws i)" "write_alive (?ws i)" for i by (simp_all add: write_ok_def write_alive_def)
  obtain cs0 where cs0: "accepted_conn ''c'' 7 InetAddress_zero = Some cs0" by (simp add: accepted_conn_def conn_do_def)
  define s1 where "s1 = world_init\<lparr>cw_conn := (cw_conn world_init)(1 \<mapsto> cs0), cw_loop := (cw_loop world_init)(1 := 0)\<rparr>"
  have 1: "world_step ?n world_init (WNew 1 0 ''c'' 7 InetAddress_zero) s1"
    unfolding s1_def by (rule world_new [OF _ cs0]) (simp add: world_init_def)
  have c1: "cw_conn s1 1 = Some cs0" by (simp add: s1_def)
  have ok1: "world_ok ?n s1" by (rule world_step_ok [OF world_init_ok 1]) simp
  obtain s2 cs2 where 2: "world_step ?n s1 (WConn 1 Establish 5 ?ws) s2" "cw_conn s2 1 = Some cs2"
    "tc_state (cs_conn cs2) = kConnected" "ch_inEpoll (tc_channel (cs_conn cs2))" "cw_received s2 = cw_received s1"
    using establish_step [OF ok1 c1 accepted_conn_ok(4) [OF cs0] ws(1), of 5] by blast
  have ok2: "world_ok ?n s2" by (rule world_step_ok [OF ok1 2(1)]) (simp add: ws)
  have "token ''GET''" "target ''/''" by code_simp+
  then have "list_all wire_ok [?r]" by (simp add: wire_ok_def request_ok_def lowered_def)
  from stream_requests_pipeline [OF this, of "[]"]
  have sr: "stream_requests HttpParser_new ?req [] = (False, [(''/'', [])], HttpParser_new, [])"
    by (simp add: wire_def serialize_request_def wire_chat_def)
  have rec: "cw_received s2 1 = []" unfolding 2(5) by (simp add: s1_def world_init_def)
  have "65536 \<le> readFd_capacity b" for b by (simp add: readFd_capacity_def extrabuf_size_def Let_def)
  moreover have "length ?req \<le> 65536" by (simp add: kCRLF_def)
  ultimately have "length ?req \<le> readFd_capacity b" for b by (meson order_trans)
  then have rd: "?rd (readFd_capacity b) = Inr ?req" for b by (simp only: take_all)
  have ro: "readv_ok ?rd" and ne: "?req \<noteq> []" by (simp_all add: readv_ok_def)
  have good: "\<not> fst (stream_requests HttpParser_new (cw_received s2 1 @ ?req) [])"
    unfolding rec append_Nil sr by simp
  obtain s3 where 3: "world_step ?n s2 (WConn 1 (OnRead ?rd) 6 ?ws) s3" "conn_state s3 1 = kConnected" "cw_received s3 1 = ?req"
    using read_step [where ws = ?ws and rd = ?rd and data = ?req and newTimer = 6, OF ok2 2(2,3,4) ws ro rd ne good]
    unfolding rec append_Nil by blast
  have ru: "run (world_step ?n) world_init [WNew 1 0 ''c'' 7 InetAddress_zero, WConn 1 Establish 5 ?ws, WConn 1 (OnRead ?rd) 6 ?ws] s3"
    by (rule run_cons, rule 1, rule run_cons, rule 2(1), rule run_cons, rule 3(1), rule run_nil)
  obtain cs3 where cs3: "cw_conn s3 1 = Some cs3" using conn_state_open [of s3 1] 3(2) by auto
  have con: "tc_state (cs_conn cs3) = kConnected" using cs3 3(2) by simp
  have al: "list_all event_alive [WNew 1 0 ''c'' 7 InetAddress_zero, WConn 1 Establish 5 ?ws, WConn 1 (OnRead ?rd) 6 ?ws]"
    by (simp add: ws)
  obtain rs p where "stream_requests HttpParser_new ?req [] = (False, rs, p, Buffer_content (tc_inputBuffer (cs_conn cs3)))"
    "msgs_from 1 (cw_log s3 1) = concat (map (own_answers (peer_text ?n cs3)) rs)"
    using chat_server_end_to_end [OF ru al cs3 con] 3(3) by auto
  then have "msgs_from 1 (cw_log s3 1) = [http_answer ''text/html; charset=utf-8'' g_chat_html]"
    using sr by (simp add: own_answers_def)
  with ru cs3 show ?thesis by blast
qed

end
