(* ===== verification/Delivery.thy ===== *)
theory Delivery
  imports ChatServer
begin

text \<open>
  Delivery of chat messages: what a client posts reaches every connected client. Theory \<open>ChatServer\<close> shows that
  nothing is lost or reordered on the way; here the loop of the receiving connection runs the sends queued for it and then
  handles writable events, and after finitely many of them every byte is on the socket.
\<close>

section \<open>Invariants of single connections\<close>

text \<open>A property of connections that is kept by what their loops do to them and by what the callbacks of the server
  call on them holds of every connection of the server.\<close>

fun chat_call :: "conn_event \<Rightarrow> bool" where
  "chat_call (TakeInput _) \<longleftrightarrow> True"
| "chat_call (CallSend _ _ _) \<longleftrightarrow> True"
| "chat_call (CallShutdown _) \<longleftrightarrow> True"
| "chat_call CallForceClose \<longleftrightarrow> True"
| "chat_call _ \<longleftrightarrow> False"

definition all_conns :: "(conn_sys \<Rightarrow> bool) \<Rightarrow> chat_world \<Rightarrow> bool" where
  "all_conns Q s \<longleftrightarrow> (\<forall>d cs. cw_conn s d = Some cs \<longrightarrow> Q cs)"

locale each_conn =
  fixes Q :: "conn_sys \<Rightarrow> bool"
  assumes new: "accepted_conn nm sockfd peerAddr = Some cs \<Longrightarrow> Q cs"
    and loop: "Q cs \<Longrightarrow> conn_step cs e cs' \<Longrightarrow> loop_event e \<Longrightarrow> Q cs'"
    and call: "Q cs \<Longrightarrow> conn_do e cs = Some cs' \<Longrightarrow> chat_call e \<Longrightarrow> Q cs'"
begin

lemma all_call:
  assumes "all_conns Q s" "world_call d e s = Some s'" "chat_call e"
  shows "all_conns Q s'"
proof -
  obtain cs cs' where "cw_conn s d = Some cs" "conn_do e cs = Some cs'" "s' = s\<lparr>cw_conn := (cw_conn s)(d \<mapsto> cs')\<rparr>"
    using assms(2) by (auto simp: world_call_def bind_eq_Some_conv)
  with call [of cs e cs'] assms(1,3) show ?thesis by (simp add: all_conns_def)
qed

lemma all_effect:
  assumes "all_conns Q s" "world_effect w c e s = Some s'"
  shows "all_conns Q s'"
proof (cases e)
  case (ChatSend d m)
  with assms(2) obtain cs where
    "world_call d (CallSend (cw_loop s c = cw_loop s d) w m) (note_send w c d m cs s) = Some s'"
    by (auto simp: bind_eq_Some_conv)
  moreover have "all_conns Q (note_send w c d m cs s)" using assms(1) by (simp add: all_conns_def)
  ultimately show ?thesis using all_call by simp
qed (use assms all_call in simp_all)

lemma all_effects: "all_conns Q s \<Longrightarrow> world_effects ws c es s = Some s' \<Longrightarrow> all_conns Q s'"
proof (induction es arbitrary: ws s)
  case (Cons e es)
  then obtain s1 where "world_effect (ws 0) c e s = Some s1" "world_effects (\<lambda>i. ws (Suc i)) c es s1 = Some s'"
    by (auto simp: bind_eq_Some_conv)
  with all_effect [OF Cons.prems(1)] Cons.IH show ?case by blast
qed simp

lemma all_chat [simp]: "all_conns Q (s\<lparr>cw_chat := w\<rparr>) = all_conns Q s"
  by (simp add: all_conns_def)

lemma all_callbacks:
  assumes "all_conns Q s" "run_callbacks n newTimer ws d acts s = Some s'"
  shows "all_conns Q s'"
proof -
  have m: "all_conns Q s'" if r: "message_callback n newTimer ws d s = Some s'"
  proof -
    obtain w buf effects s1 where "world_call d (TakeInput buf) (s\<lparr>cw_chat := w\<rparr>) = Some s1"
      "world_effects ws d effects s1 = Some s'"
      using r by (auto simp: message_callback_def bind_eq_Some_conv)
    with all_call [of "s\<lparr>cw_chat := w\<rparr>"] all_effects [of s1] assms(1) show ?thesis by simp
  qed
  have c: "all_conns Q s'" if "connection_callback newTimer ws d s = Some s'"
  proof -
    obtain w effects where "WebChatServer_onConnection (conn_state s d = kConnected) newTimer d (cw_chat s) = (w, effects)"
      by fastforce
    with that all_effects [of "s\<lparr>cw_chat := w\<rparr>"] assms(1) show ?thesis by (simp add: connection_callback_def)
  qed
  from m c assms show ?thesis by (simp add: run_callbacks_def split: if_splits)
qed

lemma all_step: "all_conns Q s \<Longrightarrow> world_step n s ev s' \<Longrightarrow> all_conns Q s'"
proof (erule world_step.cases)
  fix s0 d cs nm sockfd peerAddr loop
  assume "all_conns Q s" "s = s0" "s' = s0\<lparr>cw_conn := (cw_conn s0)(d \<mapsto> cs), cw_loop := (cw_loop s0)(d := loop)\<rparr>"
    "accepted_conn nm sockfd peerAddr = Some cs"
  then show ?thesis by (simp add: all_conns_def new)
next
  fix s0 d cs e cs' ws newTimer s1
  assume a: "all_conns Q s" "s = s0" "s' = s1" "cw_conn s0 d = Some cs" "loop_event e" "conn_step cs e cs'"
    "run_callbacks n newTimer ws d (new_actions cs cs') (note_event e d cs (s0\<lparr>cw_conn := (cw_conn s0)(d \<mapsto> cs')\<rparr>)) = Some s1"
  then have "Q cs'" using loop [of cs e cs'] by (simp add: all_conns_def)
  with a have "all_conns Q (note_event e d cs (s0\<lparr>cw_conn := (cw_conn s0)(d \<mapsto> cs')\<rparr>))" by (simp add: all_conns_def)
  with a all_callbacks show ?thesis by blast
next
  fix s0 d cs ws k newTimer w effects s1
  assume "all_conns Q s" "s = s0" "s' = s1" "world_effects ws d effects (s0\<lparr>cw_chat := w\<rparr>) = Some s1"
  with all_effects [of "s0\<lparr>cw_chat := w\<rparr>"] show ?thesis by simp
qed

lemma all_run: "run (world_step n) world_init es s \<Longrightarrow> cw_conn s d = Some cs \<Longrightarrow> Q cs"
proof -
  have "run (world_step n) s0 es s \<Longrightarrow> all_conns Q s0 \<Longrightarrow> all_conns Q s" for s0
    by (induction rule: run.induct) (auto intro: all_step)
  moreover have "all_conns Q world_init" by (simp add: all_conns_def world_init_def)
  ultimately show "run (world_step n) world_init es s \<Longrightarrow> cw_conn s d = Some cs \<Longrightarrow> Q cs"
    by (auto simp: all_conns_def)
qed

end

section \<open>Connections of the chat server\<close>

text \<open>While a connection is up only sends wait in its queue: the chat server sets no write-complete or watermark callbacks,
  sends no files, and a shutdown or forced close leaves the connected state before its task is queued.\<close>

definition send_task :: "conn_task \<Rightarrow> bool" where
  "send_task t \<longleftrightarrow> (case t of SendTask _ \<Rightarrow> True | _ \<Rightarrow> False)"

definition young :: "TcpConnection \<Rightarrow> bool" where
  "young c \<longleftrightarrow> tc_state c = kConnecting \<or> tc_state c = kConnected"

definition bare :: "TcpConnection \<Rightarrow> bool" where
  "bare c \<longleftrightarrow> (young c \<longrightarrow> \<not> tc_writeCompleteCallback c \<and> \<not> tc_highWaterMarkCallback c \<and> \<not> tc_lowWaterMarkCallback c
     \<and> tc_fileFd c < 0 \<and> (tc_state c = kConnected \<longrightarrow> ch_inEpoll (tc_channel c)))"

definition plain :: "TcpConnection \<Rightarrow> conn_action list \<Rightarrow> TcpConnection \<Rightarrow> bool" where
  "plain c acts c' \<longleftrightarrow> (bare c \<longrightarrow> bare c' \<and> (young c' \<longrightarrow> young c \<and> list_all send_task (queued_tasks acts)))"

definition chat_conn :: "conn_sys \<Rightarrow> bool" where
  "chat_conn cs \<longleftrightarrow> bare (cs_conn cs) \<and> (young (cs_conn cs) \<longrightarrow> list_all send_task (cs_tasks cs))"

lemmas plain_defs = plain_def bare_def young_def send_task_def

lemma plain_refl: "plain c [] c"
  by (simp add: plain_def)

lemma plain_trans: "plain c as c1 \<Longrightarrow> plain c1 bs c2 \<Longrightarrow> plain c (as @ bs) c2"
  by (auto simp: plain_def)

lemma sendInLoop_plain:
  assumes "TcpConnection_sendInLoop True w m c = Some (c', acts)"
  shows "plain c acts c'"
proof -
  obtain n k fault a1 where wr: "sendInLoop_write w m c = (n, k, fault, a1)" by (metis prod_cases4)
  have a1: "plain c a1 c"
    using wr by (auto simp: sendInLoop_write_def plain_defs Let_def split: if_splits sum.splits)
  obtain c1 a2 where q: "sendInLoop_queue (drop n m) c = (c1, a2)" by fastforce
  have a2: "plain c a2 c1"
    using q by (auto simp: sendInLoop_queue_def plain_defs ctl_of_def Let_def split: if_splits)
  from assms wr q consider "c' = c" "acts = []" | "c' = c" "acts = a1" | "c' = c1" "acts = a1 @ a2"
    by (auto simp: TcpConnection_sendInLoop_def split: if_splits)
  then show ?thesis using a1 plain_trans [OF a1 a2] by cases (simp_all add: plain_refl)
qed

lemma handleWrite_plain: "TcpConnection_handleWrite True w sf c = Some (c', acts) \<Longrightarrow> plain c acts c'"
proof (erule handleWrite_closed [where R = plain])
  fix c g c' acts assume "handleWrite_output w c = (g, c', acts)"
  then show "plain c acts c'" by (auto simp: handleWrite_output_def plain_defs Let_def split: if_splits sum.splits)
next
  fix c c' acts assume "handleWrite_lowMark c = (c', acts)"
  then show "plain c acts c'" by (auto simp: handleWrite_lowMark_def plain_defs Let_def split: if_splits)
next
  fix c g c' acts assume "handleWrite_file sf c = (g, c', acts)"
  then show "plain c acts c'"
    by (cases "sf (tc_fileFd c) (tc_fileOffset c) (tc_fileSize c - tc_fileOffset c)")
      (auto simp: handleWrite_file_def plain_defs split: if_splits)
next
  fix c c' acts assume "handleWrite_done True c = Some (c', acts)"
  then show "plain c acts c'"
    by (auto simp: handleWrite_done_def TcpConnection_shutdownInLoop_def plain_defs ctl_of_def Let_def split: if_splits)
qed (auto intro: plain_refl plain_trans)

lemma handleClose_plain: "TcpConnection_handleClose True c = Some (c', acts) \<Longrightarrow> plain c acts c'"
  by (auto simp: TcpConnection_handleClose_def plain_defs Let_def split: if_splits)

lemma event_plain:
  assumes "event_do e c = Some (c', acts)" "loop_event e \<or> chat_call e"
  shows "plain c acts c'"
proof (cases e)
  case (OnRead rd)
  obtain n buf where n: "Buffer_readFd rd (tc_inputBuffer c) = (n, buf)" by fastforce
  have "plain c acts c'" if "plain (c\<lparr>tc_inputBuffer := buf\<rparr>) acts c'" using that by (simp add: plain_defs)
  with assms(1) OnRead n show ?thesis
    by (auto simp: TcpConnection_handleRead_def TcpConnection_handleError_def Let_def plain_defs
        split: sum.splits if_splits dest: handleClose_plain)
next
  case (CallSend i w m)
  with assms(1) sendInLoop_plain show ?thesis
    by (auto simp: TcpConnection_send_def plain_refl split: if_splits) (auto simp: plain_defs)
next
  case OnClose
  with assms(1) handleClose_plain show ?thesis by simp
next
  case (OnWrite w sf)
  with assms(1) handleWrite_plain show ?thesis by simp
qed (use assms in \<open>auto simp: conn_ops plain_defs Let_def split: if_splits\<close>)

lemma chat_conn_trans:
  assumes "chat_conn cs" "plain (cs_conn cs) acts c'" "young (cs_conn cs) \<Longrightarrow> set ts \<subseteq> set (cs_tasks cs)"
  shows "chat_conn \<lparr>cs_conn = c', cs_tasks = ts @ queued_tasks acts, cs_trace = tr, cs_accepted = bs, cs_handed = fs\<rparr>"
  using assms by (auto simp: chat_conn_def plain_def list_all_iff)

interpretation chat: each_conn chat_conn
proof
  show "chat_conn cs" if "accepted_conn nm sockfd peerAddr = Some cs" for nm sockfd peerAddr cs
    using that by (auto simp: accepted_conn_def conn_do_def conn_init_def TcpConnection_new_def conn_ops chat_conn_def
        bare_def young_def)
next
  fix cs e cs' assume c: "chat_conn cs" "conn_step cs e cs'" "loop_event e"
  from c(2) show "chat_conn cs'"
  proof cases
    case (conn_event c' acts)
    with c event_plain show ?thesis by (auto intro: chat_conn_trans)
  next
    case (conn_task t ts w c' acts)
    have "plain (cs_conn cs) acts c'"
    proof (cases "young (cs_conn cs)")
      case True
      with c(1) conn_task(3) obtain m where "t = SendTask m" by (cases t) (auto simp: chat_conn_def send_task_def)
      with conn_task(5) sendInLoop_plain show ?thesis by simp
    next
      case False
      then have "\<not> young c'" using conn_task(5) handleClose_plain [of "cs_conn cs" c' acts] sendInLoop_plain [of w _ "cs_conn cs" c' acts]
        by (cases t) (auto simp: conn_ops plain_defs Let_def split: if_splits)
      then show ?thesis by (simp add: plain_def bare_def)
    qed
    with c(1) conn_task show ?thesis by (auto intro: chat_conn_trans)
  qed
next
  fix cs e cs' assume "chat_conn cs" "conn_do e cs = Some cs'" "chat_call e"
  then show "chat_conn cs'" using event_plain by (auto simp: conn_do_def intro!: chat_conn_trans)
qed

section \<open>The receiving loop\<close>

text \<open>A step of a connected connection's loop that calls nobody back.\<close>

definition ready :: "(32 word \<Rightarrow> bytes) \<Rightarrow> conn_ptr \<Rightarrow> chat_world \<Rightarrow> conn_sys \<Rightarrow> bool" where
  "ready n d s cs \<longleftrightarrow> world_ok n s \<and> cw_conn s d = Some cs \<and> tc_state (cs_conn cs) = kConnected \<and> chat_conn cs"

lemma quiet_world_step:
  assumes r: "ready n d s cs" and st: "conn_step cs e cs'" "loop_event e"
    and q: "quiet (cs_conn cs) (new_actions cs cs') (cs_conn cs')" "event_input e (cs_conn cs) = []"
    and w: "\<And>i. write_ok (ws i)" "\<And>w. e = RunTask w \<Longrightarrow> write_alive w"
  shows "\<exists>s'. world_step n s (WConn d e newTimer ws) s' \<and> ready n d s' cs' \<and> cw_sends s' = cw_sends s"
proof -
  let ?s1 = "note_event e d cs (s\<lparr>cw_conn := (cw_conn s)(d \<mapsto> cs')\<rparr>)"
  have wok: "world_ok n s" and cs: "cw_conn s d = Some cs" and con: "tc_state (cs_conn cs) = kConnected" "chat_conn cs"
    using r by (simp_all add: ready_def)
  have cb: "run_callbacks n newTimer ws d (new_actions cs cs') ?s1 = Some ?s1"
    using q(1) by (simp add: run_callbacks_def quiet_def)
  have "world_step n s (WConn d e newTimer ws) ?s1" by (rule world_conn [OF cs st(2,1) w(1) cb])
  moreover have "world_ok n ?s1" by (rule quiet_ok [OF wok cs st w(2) q])
  moreover have "tc_state (cs_conn cs') = kConnected" using q(1) con(1) by (simp add: quiet_def)
  moreover have "chat_conn cs'" by (rule chat.loop [OF con(2) st])
  ultimately show ?thesis by (intro exI [of _ ?s1]) (simp add: ready_def)
qed

lemma only_sends:
  assumes "list_all send_task ts" "send_msgs ts = []"
  shows "ts = []"
  using assms by (cases ts) (auto simp: send_task_def split: conn_task.splits)

lemma run_queue:
  assumes "ready n d s cs" "write_ok w" "write_alive w"
  shows "\<exists>s' cs'. run (world_step n) s (replicate (length (cs_tasks cs)) (WConn d (RunTask w) newTimer (\<lambda>_. w))) s'
    \<and> ready n d s' cs' \<and> cs_tasks cs' = [] \<and> cw_sends s' = cw_sends s"
  using assms(1)
proof (induction "cs_tasks cs" arbitrary: s cs)
  case Nil
  then show ?case by (metis list.size(3) replicate_0 run_nil)
next
  case (Cons t ts)
  let ?c = "cs_conn cs"
  have con: "tc_state ?c = kConnected" "chat_conn cs" using Cons.prems by (simp_all add: ready_def)
  with Cons.hyps(2) obtain m where t: "t = SendTask m" by (cases t) (auto simp: chat_conn_def send_task_def young_def simp flip: Cons.hyps(2))
  obtain c' acts where sd: "TcpConnection_sendInLoop True w m ?c = Some (c', acts)" using sendInLoop_returns by blast
  let ?cs' = "\<lparr>cs_conn = c', cs_tasks = ts @ queued_tasks acts, cs_trace = cs_trace cs @ acts,
     cs_accepted = cs_accepted cs @ task_bytes w t ?c, cs_handed = cs_handed cs\<rparr>"
  have st: "conn_step cs (RunTask w) ?cs'"
    by (rule conn_task) (use Cons.hyps(2) assms(2) t sd in simp_all)
  have q: "quiet ?c acts c'" by (rule sendInLoop_quiet [OF sd])
  obtain s1 where s1: "world_step n s (WConn d (RunTask w) newTimer (\<lambda>_. w)) s1" "ready n d s1 ?cs'" "cw_sends s1 = cw_sends s"
    using quiet_world_step [OF Cons.prems st, of "\<lambda>_. w" newTimer] q assms(2,3) by (auto simp: new_actions_def)
  have "queued_tasks acts = []"
    using sendInLoop_plain [OF sd] con q s1(2)
    by (intro only_sends) (simp_all add: plain_def chat_conn_def quiet_def young_def)
  then have "ts = cs_tasks ?cs'" by simp
  from Cons.hyps(1) [OF this s1(2)] \<open>ts = cs_tasks ?cs'\<close> obtain s' cs' where
    "run (world_step n) s1 (replicate (length ts) (WConn d (RunTask w) newTimer (\<lambda>_. w))) s'"
    "ready n d s' cs'" "cs_tasks cs' = []" "cw_sends s' = cw_sends s1" by auto
  with s1(1,3) show ?case unfolding Cons.hyps(2) [symmetric] by (auto intro: run_cons)
qed

lemma run_writes:
  assumes "ready n d s cs" "cs_tasks cs = []" "write_ok w" "write_progress w" "sendfile_progress sf"
  shows "\<exists>k s' cs'. k \<le> Suc (backlog (cs_conn cs)) \<and> run (world_step n) s (replicate k (WConn d (OnWrite w sf) newTimer (\<lambda>_. w))) s'
    \<and> ready n d s' cs' \<and> cs_tasks cs' = [] \<and> pending (cs_conn cs') = [] \<and> cs_accepted cs' = cs_accepted cs
    \<and> cw_sends s' = cw_sends s"
  using assms(1,2)
proof (induction "backlog (cs_conn cs)" arbitrary: s cs rule: less_induct)
  case less
  let ?c = "cs_conn cs"
  have con: "tc_state ?c = kConnected" "chat_conn cs" and ok: "conn_ok ?c"
    using less.prems(1) booksD(2) by (auto simp: ready_def world_ok_def entry_ok_def sys_ok_def)
  show ?case
  proof (cases "writing ?c")
    case False
    with ok con(1) have "pending ?c = []" by (simp add: conn_ok_def)
    with less.prems show ?thesis by (intro exI [of _ 0] exI [of _ s] exI [of _ cs]) (simp add: run_nil)
  next
    case True
    obtain c' acts where hw: "TcpConnection_handleWrite True w sf ?c = Some (c', acts)"
      and or: "drained c' \<or> backlog c' < backlog ?c"
      by (rule round_progress [OF ok True assms(3-5)]) blast
    have ev: "event_do (OnWrite w sf) ?c = Some (c', acts)" "event_ok (OnWrite w sf) ?c"
      using hw con assms(3) sendfile_progress_ok [OF assms(5)] by (simp_all add: chat_conn_def bare_def young_def)
    obtain cs1 where st: "conn_step cs (OnWrite w sf) cs1" and cs1: "cs_conn cs1 = c'" "cs_trace cs1 = cs_trace cs @ acts"
      "cs_tasks cs1 = cs_tasks cs @ queued_tasks acts" "cs_accepted cs1 = cs_accepted cs"
      by (rule conn_step_eventI [OF ev(2,1)]) simp
    have q: "quiet ?c acts c'" by (rule handleWrite_quiet [OF hw])
    obtain s1 where s1: "world_step n s (WConn d (OnWrite w sf) newTimer (\<lambda>_. w)) s1" "ready n d s1 cs1" "cw_sends s1 = cw_sends s"
      using quiet_world_step [OF less.prems(1) st, of "\<lambda>_. w" newTimer] q assms(3) cs1 by (auto simp: new_actions_def)
    have "queued_tasks acts = []"
      using handleWrite_plain [OF hw] con q
      by (intro only_sends) (simp_all add: plain_def chat_conn_def quiet_def young_def)
    with less.prems(2) cs1(3) have t1: "cs_tasks cs1 = []" by simp
    show ?thesis
    proof (cases "drained c'")
      case True
      with s1 t1 cs1(1,4) show ?thesis
        by (intro exI [of _ "Suc 0"] exI [of _ s1] exI [of _ cs1]) (auto simp: drained_def intro: run_cons run_nil)
    next
      case False
      with or cs1(1) have lt: "backlog (cs_conn cs1) < backlog ?c" by simp
      from less.hyps [OF lt s1(2) t1] obtain k s' cs' where k: "k \<le> Suc (backlog (cs_conn cs1))"
        "run (world_step n) s1 (replicate k (WConn d (OnWrite w sf) newTimer (\<lambda>_. w))) s'"
        "ready n d s' cs'" "cs_tasks cs' = []" "pending (cs_conn cs') = []" "cs_accepted cs' = cs_accepted cs1"
        "cw_sends s' = cw_sends s1" by blast
      from run_cons [OF s1(1) k(2)] k lt s1(3) cs1(4) show ?thesis
        by (intro exI [of _ "Suc k"] exI [of _ s'] exI [of _ cs']) simp
    qed
  qed
qed

text \<open>Together: everything ever sent to the connection is taken and on the socket.\<close>

lemma run_delivers:
  assumes r: "ready n d s cs" and w: "write_ok w" "write_alive w" "write_progress w" and sf: "sendfile_progress sf"
  shows "\<exists>k s' cs'. run (world_step n) s (replicate (length (cs_tasks cs)) (WConn d (RunTask w) newTimer (\<lambda>_. w))
        @ replicate k (WConn d (OnWrite w sf) newTimer (\<lambda>_. w))) s'
    \<and> ready n d s' cs' \<and> k \<le> Suc (length (sent_bytes (cs_trace cs')))
    \<and> sent_bytes (cs_trace cs') = concat (map snd (cw_log s' d))
    \<and> (\<forall>c. msgs_from c (cw_log s' d) = sends_to c d (cw_sends s))"
proof -
  obtain s1 cs1 where 1: "run (world_step n) s (replicate (length (cs_tasks cs)) (WConn d (RunTask w) newTimer (\<lambda>_. w))) s1"
    "ready n d s1 cs1" "cs_tasks cs1 = []" "cw_sends s1 = cw_sends s" using run_queue [OF r w(1,2)] by blast
  obtain k s' cs' where 2: "k \<le> Suc (backlog (cs_conn cs1))"
    "run (world_step n) s1 (replicate k (WConn d (OnWrite w sf) newTimer (\<lambda>_. w))) s'" "ready n d s' cs'"
    "cs_tasks cs' = []" "pending (cs_conn cs') = []" "cs_accepted cs' = cs_accepted cs1" "cw_sends s' = cw_sends s1"
    using run_writes [OF 1(2,3) w(1,3) sf] by blast
  have en: "sys_ok cx \<and> books_ok x d cx" if "ready n d x cx" for x cx
    using that booksD(2) by (auto simp: ready_def world_ok_def entry_ok_def)
  have acc: "sent_bytes (cs_trace cs1) @ pending (cs_conn cs1) = cs_accepted cs1" using en [OF 1(2)] by (simp add: sys_ok_def)
  have sent: "sent_bytes (cs_trace cs') = cs_accepted cs'" using en [OF 2(3)] 2(5) by (auto simp: sys_ok_def)
  have "backlog (cs_conn cs1) = length (pending (cs_conn cs1))"
    using 1(2) by (auto simp: ready_def chat_conn_def bare_def young_def backlog_def)
  also have "\<dots> \<le> length (sent_bytes (cs_trace cs'))" unfolding sent 2(6) acc [symmetric] by simp
  finally have k: "k \<le> Suc (length (sent_bytes (cs_trace cs')))" using 2(1) by simp
  have b: "books_ok s' d cs'" using en [OF 2(3)] by blast
  then have "cw_queue s' d = []" using 2(4) by (simp add: books_ok_def)
  with b have "msgs_from c (cw_log s' d) = sends_to c d (cw_sends s)" for c
    using 1(4) 2(7) by (auto simp: books_ok_def dest!: spec [of _ c])
  moreover have "sent_bytes (cs_trace cs') = concat (map snd (cw_log s' d))" using sent b by (simp add: books_ok_def)
  ultimately show ?thesis using run_append [OF 1(1) 2(2)] 2(3) k by blast
qed

section \<open>The sender\<close>

text \<open>A batch of well-formed requests sends its answers and broadcasts and nothing else, and leaves every connection in its state.\<close>

lemma message_sends:
  assumes b: "books s" and cs: "cw_conn s d = Some cs" and st: "tc_state (cs_conn cs) \<noteq> kConnecting"
    and sr: "stream_requests (case wc_parsers (cw_chat s) d of Some q \<Rightarrow> q | None \<Rightarrow> HttpParser_new)
      (Buffer_content (tc_inputBuffer (cs_conn cs))) [] = (False, rs, p', rest)"
    and ws: "\<And>i. write_ok (ws i)" "\<And>i. write_alive (ws i)"
    and r: "message_callback n newTimer ws d s = Some s'"
  shows "conn_state s' = conn_state s
    \<and> cw_sends s' = cw_sends s @ effect_sends d (concat (map (onMessage_respond (peer_text n cs) d (cw_chat s)) rs))"
proof (rule message_callback_eq [OF b cs sr, of n newTimer ws])
  fix w' buf' refreshed
  let ?cs2 = "cs\<lparr>cs_conn := (cs_conn cs)\<lparr>tc_inputBuffer := buf'\<rparr>\<rparr>" let ?s1 = "s\<lparr>cw_chat := w'\<rparr>"
  let ?s2 = "?s1\<lparr>cw_conn := (cw_conn ?s1)(d \<mapsto> ?cs2)\<rparr>"
  let ?es = "refreshed @ concat (map (onMessage_respond (peer_text n cs) d (cw_chat s)) rs)"
  assume eq: "message_callback n newTimer ws d s =
       world_effects ws d (refreshed @ (if False then [ChatSend d bad_request, ChatShutdown d]
           else concat (map (onMessage_respond (peer_text n cs) d (cw_chat s)) rs)))
         (s\<lparr>cw_chat := w', cw_conn := (cw_conn s)(d \<mapsto> ?cs2)\<rparr>)"
    and tm: "list_all is_timer refreshed" and buf: "Buffer_ok buf'"
    and w': "wc_parsers w' = (wc_parsers (cw_chat s))(d \<mapsto> p')" "wc_connections w' = wc_connections (cw_chat s)"
  have "conn_state s d \<noteq> kConnecting" using st cs by simp
  then have "books ?s1" by (rule books_chat [OF b w'(2)]) (simp add: w'(1))
  then have b2: "books ?s2" using books_take [OF _ _ st buf, of ?s1 d] cs by simp
  have same: "conn_state ?s2 = conn_state s" using cs by (auto simp: conn_state_def fun_eq_iff)
  then have d: "conn_state ?s2 d \<noteq> kConnecting" using st cs by simp
  have eff: "world_effects ws d ?es ?s2 = Some s'" using eq r by simp
  have "wc_connections (cw_chat s) = wc_connections (cw_chat ?s2)" using w'(2) by simp
  from world_soft [OF b2 eff ws d batch_soft [OF b2 d tm this]] same timer_effects(2) [OF tm]
  show ?thesis by simp
qed

lemma chat_broadcasts:
  assumes "finite (wc_connections w)" "d \<in> wc_connections w" "(''/chat'', body) \<in> set rs"
  shows "(c, d, broadcast_line peer body) \<in> set (effect_sends c (concat (map (onMessage_respond peer c w) rs)))"
proof -
  have "ChatSend d (broadcast_line peer body) \<in> set (onMessage_respond peer c w (''/chat'', body))"
    using assms(1,2) by (simp add: onMessage_respond_def WebChatServer_broadcast_def broadcast_line_def Let_def)
  with assms(3) have "ChatSend d (broadcast_line peer body) \<in> set (concat (map (onMessage_respond peer c w) rs))" by force
  then show ?thesis by (force simp: effect_sends_def)
qed

text \<open>A read that completes requests runs the message callback and posts their broadcasts.\<close>

lemma read_broadcasts:
  assumes wok: "world_ok n s" and cs: "cw_conn s c = Some cs" "tc_state (cs_conn cs) = kConnected"
    and st: "world_step n s (WConn c (OnRead rd) newTimer ws) s1" and ws: "\<And>i. write_alive (ws i)"
    and old: "stream_requests HttpParser_new (cw_received s c) [] = (False, rs, p, rest)"
    and new: "stream_requests HttpParser_new (cw_received s1 c) [] = (False, rs @ rs2, p2, rest2)"
    and chat: "(''/chat'', body) \<in> set rs2" and d: "conn_state s d = kConnected"
  shows "conn_state s1 d = kConnected \<and> (c, d, broadcast_line (peer_text n cs) body) \<in> set (cw_sends s1)"
proof -
  let ?e = "OnRead rd" let ?data = "event_input (OnRead rd) (cs_conn cs)"
  have b: "books s" and an: "answers_ok n s c cs" using wok cs by (auto simp: world_ok_def answered_def)
  have ok: "sys_ok cs" and cb: "tc_connectionCallback (cs_conn cs)" "tc_messageCallback (cs_conn cs)"
    using booksD(2) [OF b cs(1)] by (simp_all add: entry_ok_def)
  from st cs(1) obtain cs' where cs': "conn_step cs ?e cs'" "\<And>i. write_ok (ws i)" and
    cbs: "run_callbacks n newTimer ws c (new_actions cs cs') (note_event ?e c cs (s\<lparr>cw_conn := (cw_conn s)(c \<mapsto> cs')\<rparr>)) = Some s1"
    by cases auto
  let ?s0 = "note_event ?e c cs (s\<lparr>cw_conn := (cw_conn s)(c \<mapsto> cs')\<rparr>)" let ?acts = "new_actions cs cs'"
  have rec: "?data \<noteq> []" if "cw_received s1 = cw_received ?s0"
  proof
    assume "?data = []"
    with that old new chat show False by simp
  qed
  have same: "cw_received s1 = cw_received ?s0" if "quiet (cs_conn cs) ?acts (cs_conn cs') \<or> moves (cs_conn cs) ?acts (cs_conn cs')"
    using that cbs by (auto simp: run_callbacks_def connection_callback_eq quiet_def moves_def)
  have dl: "delivers ?data (cs_conn cs) ?acts (cs_conn cs')"
    using loop_step(1) [OF ok cs'(1) _ cb] rec same unfolding outcome_def by auto
  have "books ?s0" using dl by (intro event_books [OF b cs(1) cs'(1)]) auto
  moreover have "cw_conn ?s0 c = Some cs'" by simp
  moreover have "tc_state (cs_conn cs') \<noteq> kConnecting" using dl by (simp add: delivers_def)
  moreover have mc: "message_callback n newTimer ws c ?s0 = Some s1"
    using cbs dl by (simp add: run_callbacks_def delivers_def)
  moreover have "stream_requests (case wc_parsers (cw_chat ?s0) c of Some q \<Rightarrow> q | None \<Rightarrow> HttpParser_new)
      (Buffer_content (tc_inputBuffer (cs_conn cs'))) [] = (False, rs2, p2, rest2)"
  proof -
    have p: "wc_parsers (cw_chat ?s0) c = Some p" "Buffer_content (tc_inputBuffer (cs_conn cs)) = rest"
      using an old by (auto simp: answers_ok_def)
    have "cw_received s1 c = cw_received s c @ ?data" using deliver_ok [OF wok cs(1) cs'(1) _ _ dl cs'(2) ws mc] by simp
    with stream_requests_append [OF old, of ?data] new
    have full: "stream_requests p (rest @ ?data) rs = (False, rs @ rs2, p2, rest2)" by simp
    obtain m' rsx q r' where "stream_requests p (rest @ ?data) [] = (m', rsx, q, r')" by (metis prod_cases4)
    with stream_requests_result [OF this, of rs] full have "stream_requests p (rest @ ?data) [] = (False, rs2, p2, rest2)" by simp
    with p dl show ?thesis by (simp add: delivers_def)
  qed
  ultimately have m: "conn_state s1 = conn_state ?s0" "cw_sends s1 = cw_sends ?s0 @
      effect_sends c (concat (map (onMessage_respond (peer_text n cs') c (cw_chat ?s0)) rs2))"
    using message_sends [OF _ _ _ _ cs'(2) ws mc] by blast+
  have peer: "peer_text n cs' = peer_text n cs" using dl by (simp add: delivers_def settled_def peer_text_def)
  have "d \<in> wc_connections (cw_chat s)" using d booksD(2) [OF b, of d] conn_state_open [of s d] by (auto simp: entry_ok_def)
  from chat_broadcasts [OF booksD(1) [OF b] this chat] m(2) peer
  have "(c, d, broadcast_line (peer_text n cs) body) \<in> set (cw_sends s1)" by simp
  moreover have "conn_state s1 d = kConnected" using m(1) d cs dl by (cases "d = c") (auto simp: conn_state_def delivers_def)
  ultimately show ?thesis by simp
qed

section \<open>The property\<close>

text \<open>C2. A chat message reaches everyone. Let the server have run in any way in which no write of any client has found its peer
  gone (\<open>EPIPE\<close> or \<open>ECONNRESET\<close>), let a connected client \<open>c\<close> complete a \<open>/chat\<close> request with some body in its next read, that read
  completing no malformed request and finding no peer gone either, and let client \<open>d\<close> be connected.
  Then once \<open>d\<close>'s loop has run the tasks waiting for \<open>d\<close> after that read and handled finitely many writable events, at most one more
  than there are bytes, with a kernel that takes at least a byte at a time, \<open>d\<close> is still connected, everything its
  connection took is on its socket, and the line that carries \<open>c\<close>'s address and the body is part of it.\<close>

theorem chat_message_reaches_everyone:
  assumes "run (world_step inet_ntop) world_init es s" "list_all event_alive es"
    and "cw_conn s c = Some cs" "tc_state (cs_conn cs) = kConnected" "conn_state s d = kConnected"
    and "world_step inet_ntop s (WConn c (OnRead rd) newTimer ws) s1" "event_alive (WConn c (OnRead rd) newTimer ws)"
    and "stream_requests HttpParser_new (cw_received s c) [] = (False, rs, p, rest)"
      "stream_requests HttpParser_new (cw_received s1 c) [] = (False, rs @ rs2, p2, rest2)" "(''/chat'', body) \<in> set rs2"
    and "write_ok w" "write_alive w" "write_progress w" "sendfile_progress sf"
  shows "\<exists>ds k s' ds'. cw_conn s1 d = Some ds
    \<and> run (world_step inet_ntop) s1 (replicate (length (cs_tasks ds)) (WConn d (RunTask w) newTimer (\<lambda>_. w))
        @ replicate k (WConn d (OnWrite w sf) newTimer (\<lambda>_. w))) s'
    \<and> k \<le> Suc (length (sent_bytes (cs_trace ds')))
    \<and> cw_conn s' d = Some ds' \<and> tc_state (cs_conn ds') = kConnected
    \<and> sent_bytes (cs_trace ds') = concat (map snd (cw_log s' d))
    \<and> (c, broadcast_line (peer_text inet_ntop cs) body) \<in> set (cw_log s' d)"
proof -
  have wok: "world_ok inet_ntop s" by (rule world.inv_run [OF run_alive [OF assms(1,2)] world_init_ok])
  have ws: "write_alive (ws i)" for i using assms(7) by simp
  note posted = read_broadcasts [OF wok assms(3,4,6) ws assms(8-10,5)]
  obtain ds where ds: "cw_conn s1 d = Some ds" using posted conn_state_open [of s1 d] by auto
  have "chat_conn ds" by (rule chat.all_run [OF run_snoc [OF assms(1,6)] ds])
  with posted ds world_step_ok [OF wok assms(6,7)] have "ready inet_ntop d s1 ds" by (simp add: ready_def)
  from run_delivers [OF this assms(11-14)] obtain k s' ds' where
    "run (world_step inet_ntop) s1 (replicate (length (cs_tasks ds)) (WConn d (RunTask w) newTimer (\<lambda>_. w))
        @ replicate k (WConn d (OnWrite w sf) newTimer (\<lambda>_. w))) s'"
    and r: "ready inet_ntop d s' ds'" "k \<le> Suc (length (sent_bytes (cs_trace ds')))"
      "sent_bytes (cs_trace ds') = concat (map snd (cw_log s' d))"
      "\<forall>c. msgs_from c (cw_log s' d) = sends_to c d (cw_sends s1)" by blast
  moreover have "(c, broadcast_line (peer_text inet_ntop cs) body) \<in> set (cw_log s' d)"
    using posted r(4) by (metis in_msgs_from in_sends_to)
  ultimately show ?thesis using ds unfolding ready_def by blast
qed

text \<open>Two clients on different loops; the first posts \<open>hi\<close>.\<close>

definition hi_request :: wire_request where
  "hi_request = (''POST'', ''/chat'', ''HTTP/1.1'', [(''Content-Length'', ''2'')], ''hi'')"

lemma hi_request_parsed: "stream_requests HttpParser_new (wire hi_request) [] = (False, [(''/chat'', ''hi'')], HttpParser_new, [])"
proof -
  have pcl: "parseContentLength ''2'' = Some 2"
    by (simp add: parseContentLength_def from_chars_def decimal_def isdigit_def ord_def SIZE_MAX_def)
  have low: "toLowerAscii ''Content-Length'' = ''content-length''" by code_simp
  have "token ''POST''" "target ''/chat''" "token ''Content-Length''" "field_value ''2''" by code_simp+
  then have "list_all wire_ok [hi_request]" by (simp add: hi_request_def wire_ok_def request_ok_def low pcl)
  from stream_requests_pipeline [OF this, of "[]"] show ?thesis by (simp add: wire_chat_def) (simp add: hi_request_def)
qed

definition all_written :: "bytes \<Rightarrow> errno + nat" where
  "all_written xs = Inr (length xs)"

lemma all_written_ok: "write_ok all_written" "write_alive all_written" "write_progress all_written"
  by (simp_all add: all_written_def write_ok_def write_alive_def write_progress_def)

lemma two_clients:
  obtains s cs1 where "run (world_step n) world_init [WNew 1 0 ''a'' 7 InetAddress_zero, WNew 2 1 ''b'' 8 InetAddress_zero,
      WConn 1 Establish 5 (\<lambda>_. all_written), WConn 2 Establish 6 (\<lambda>_. all_written)] s"
    "cw_conn s 1 = Some cs1" "tc_state (cs_conn cs1) = kConnected" "ch_inEpoll (tc_channel (cs_conn cs1))"
    "conn_state s 2 = kConnected" "cw_received s 1 = []" "world_ok n s"
proof -
  obtain a b where a: "accepted_conn ''a'' 7 InetAddress_zero = Some a" and b: "accepted_conn ''b'' 8 InetAddress_zero = Some b"
    by (simp add: accepted_conn_def conn_do_def)
  define s1 where "s1 = world_init\<lparr>cw_conn := (cw_conn world_init)(1 \<mapsto> a), cw_loop := (cw_loop world_init)(1 := 0)\<rparr>"
  define s2 where "s2 = s1\<lparr>cw_conn := (cw_conn s1)(2 \<mapsto> b), cw_loop := (cw_loop s1)(2 := 1)\<rparr>"
  have 1: "world_step n world_init (WNew 1 0 ''a'' 7 InetAddress_zero) s1"
    unfolding s1_def by (rule world_new [OF _ a]) (simp add: world_init_def)
  have 2: "world_step n s1 (WNew 2 1 ''b'' 8 InetAddress_zero) s2"
    unfolding s2_def by (rule world_new [OF _ b]) (simp add: s1_def world_init_def)
  have ok2: "world_ok n s2" using world_step_ok [OF world_step_ok [OF world_init_ok 1] 2] by simp
  have c2: "cw_conn s2 1 = Some a" "cw_conn s2 2 = Some b" "cw_received s2 1 = []" by (simp_all add: s1_def s2_def world_init_def)
  obtain s3 a' where 3: "world_step n s2 (WConn 1 Establish 5 (\<lambda>_. all_written)) s3" "cw_conn s3 1 = Some a'"
    "tc_state (cs_conn a') = kConnected" "ch_inEpoll (tc_channel (cs_conn a'))" "cw_received s3 = cw_received s2" "cw_conn s3 2 = Some b"
    using establish_step [OF ok2 c2(1) accepted_conn_ok(4) [OF a] all_written_ok(1), of 5] c2(2) by auto
  have ok3: "world_ok n s3" by (rule world_step_ok [OF ok2 3(1)]) (simp add: all_written_ok)
  obtain s4 b' where 4: "world_step n s3 (WConn 2 Establish 6 (\<lambda>_. all_written)) s4" "cw_conn s4 2 = Some b'"
    "tc_state (cs_conn b') = kConnected" "cw_received s4 = cw_received s3" "cw_conn s4 1 = Some a'"
    using establish_step [OF ok3 3(6) accepted_conn_ok(4) [OF b] all_written_ok(1), of 6] 3(2) by auto
  have ok4: "world_ok n s4" by (rule world_step_ok [OF ok3 4(1)]) (simp add: all_written_ok)
  have "run (world_step n) world_init [WNew 1 0 ''a'' 7 InetAddress_zero, WNew 2 1 ''b'' 8 InetAddress_zero,
      WConn 1 Establish 5 (\<lambda>_. all_written), WConn 2 Establish 6 (\<lambda>_. all_written)] s4"
    by (rule run_cons, rule 1, rule run_cons, rule 2, rule run_cons, rule 3(1), rule run_cons, rule 4(1), rule run_nil)
  then show thesis by (rule that [OF _ 4(5) 3(3,4)]) (use 3(5) 4 c2(3) ok4 in simp_all)
qed

theorem chat_message_reaches_everyone_witness:
  "\<exists>es s ds peer. run (world_step (\<lambda>_. ''1.2.3.4'')) world_init es s \<and> cw_conn s 2 = Some ds
     \<and> sent_bytes (cs_trace ds) = concat (map snd (cw_log s 2)) \<and> (1, broadcast_line peer ''hi'') \<in> set (cw_log s 2)"
proof -
  define n :: "32 word \<Rightarrow> bytes" where "n = (\<lambda>_. ''1.2.3.4'')"
  let ?rd = "\<lambda>cap. Inr (take cap (wire hi_request)) :: errno + bytes"
  let ?ws = "\<lambda>_::nat. all_written" and ?sf = "\<lambda>f off cnt. Inr cnt :: errno + nat"
  let ?es = "[WNew 1 0 ''a'' 7 InetAddress_zero, WNew 2 1 ''b'' 8 InetAddress_zero,
      WConn 1 Establish 5 ?ws, WConn 2 Establish 6 ?ws]"
  obtain s cs1 where s: "run (world_step n) world_init ?es s" "cw_conn s 1 = Some cs1" "tc_state (cs_conn cs1) = kConnected"
    "ch_inEpoll (tc_channel (cs_conn cs1))" "conn_state s 2 = kConnected" "cw_received s 1 = []" "world_ok n s"
    by (rule two_clients)
  have "length (wire hi_request) \<le> 65536" by code_simp
  moreover have "65536 \<le> readFd_capacity b" for b by (simp add: readFd_capacity_def extrabuf_size_def Let_def)
  ultimately have "length (wire hi_request) \<le> readFd_capacity b" for b by (meson order_trans)
  then have rd: "?rd (readFd_capacity b) = Inr (wire hi_request)" for b by (simp only: take_all)
  have ro: "readv_ok ?rd" and ne: "wire hi_request \<noteq> []"
    by (simp_all add: readv_ok_def wire_def hi_request_def serialize_request_def)
  have good: "\<not> fst (stream_requests HttpParser_new (cw_received s 1 @ wire hi_request) [])"
    unfolding s(6) append_Nil hi_request_parsed by simp
  obtain s1 where s1: "world_step n s (WConn 1 (OnRead ?rd) 9 ?ws) s1" "cw_received s1 1 = wire hi_request"
    using read_step [where ws = ?ws and rd = ?rd and newTimer = 9, OF s(7,2,3,4) all_written_ok(1,2) ro rd ne good]
    unfolding s(6) append_Nil by blast
  have old: "stream_requests HttpParser_new (cw_received s 1) [] = (False, [], HttpParser_new, [])"
    unfolding s(6) by (rule stream_requests_new_empty)
  have new: "stream_requests HttpParser_new (cw_received s1 1) [] = (False, [] @ [(''/chat'', ''hi'')], HttpParser_new, [])"
    unfolding s1(2) hi_request_parsed by simp
  have hyps: "list_all event_alive ?es" "event_alive (WConn 1 (OnRead ?rd) 9 ?ws)" "(''/chat'', ''hi'') \<in> set [(''/chat'', ''hi'')]"
    "sendfile_progress ?sf" by (simp_all add: all_written_ok sendfile_progress_def)
  note chat_message_reaches_everyone [OF s(1) hyps(1) s(2,3,5) s1(1) hyps(2) old new hyps(3) all_written_ok hyps(4)]
  then show ?thesis using run_append [OF run_snoc [OF s(1) s1(1)]] unfolding n_def by blast
qed

end
