(* ===== verification/Lifetime.thy ===== *)
theory Lifetime
  imports WebChat ConnectionRuns
begin

text \<open>
  The ends of objects: the destructor of a connection (\<open>src/src/tcp/TcpConnection.cpp\<close>), of an event loop with the
  members it owns (\<open>src/src/net/EventLoop.h\<close>), and the end of \<open>main\<close> (\<open>src/main.cpp\<close>). A destructor returns
  what it does to descriptors: the \<open>epoll_ctl\<close> calls and the closes, in order.
\<close>

section \<open>Registrations of a connection\<close>

definition trace_ctls :: "conn_action list \<Rightarrow> ctl_call list" where
  "trace_ctls acts = concat (map (\<lambda>a. case a of Ctl k \<Rightarrow> [k] | _ \<Rightarrow> []) acts)"

lemma trace_ctls_simps [simp]:
  "trace_ctls [] = []" "trace_ctls (xs @ ys) = trace_ctls xs @ trace_ctls ys"
  "trace_ctls (a # xs) = (case a of Ctl k \<Rightarrow> [k] | _ \<Rightarrow> []) @ trace_ctls xs"
  by (simp_all add: trace_ctls_def)

text \<open>An operation moves the kernel's view of the socket from what the channel believed to what it believes then.\<close>

definition reg_trans :: "TcpConnection \<Rightarrow> conn_action list \<Rightarrow> TcpConnection \<Rightarrow> bool" where
  "reg_trans c acts c' \<longleftrightarrow> ch_fd (tc_channel c') = ch_fd (tc_channel c)
     \<and> ctl_replay (ch_fd (tc_channel c)) (Channel_registered (tc_channel c)) (trace_ctls acts)
         = Some (Channel_registered (tc_channel c'))"

lemma reg_trans_refl: "tc_channel c' = tc_channel c \<Longrightarrow> trace_ctls acts = [] \<Longrightarrow> reg_trans c acts c'"
  by (simp add: reg_trans_def)

lemma reg_trans_compose: "reg_trans c as c1 \<Longrightarrow> reg_trans c1 bs c2 \<Longrightarrow> reg_trans c (as @ bs) c2"
  by (simp add: reg_trans_def ctl_replay_append)

lemma reg_trans_ctl:
  "tc_channel c' = chan_regs m c \<Longrightarrow> trace_ctls acts = trace_ctls [ctl_of m c] \<Longrightarrow> reg_trans c acts c'"
  by (simp add: reg_trans_def ctl_of_def Channel_registered_def chan_regs_def)

lemma reg_trans_tie: "reg_trans (c\<lparr>tc_channel := Channel_tie (tc_channel c)\<rparr>) acts c' \<longleftrightarrow> reg_trans c acts c'"
  by (simp add: reg_trans_def Channel_tie_def Channel_registered_def)

lemma trace_ctls_ctl_of: "trace_ctls (ctl_of m c # xs) = trace_ctls [ctl_of m c] @ trace_ctls xs"
  by simp

lemma connectEstablished_reg: "TcpConnection_connectEstablished True c = Some (c', acts) \<Longrightarrow> reg_trans c acts c'"
  by (auto simp: TcpConnection_connectEstablished_def reg_trans_def Channel_tie_def Channel_registered_def
      chan_regs_def ctl_of_def Let_def split: if_splits)

lemma connectDestroyed_reg:
  "TcpConnection_connectDestroyed True c = Some (c', acts) \<Longrightarrow> reg_trans c acts c' \<and> \<not> ch_inEpoll (tc_channel c')"
  by (auto simp: TcpConnection_connectDestroyed_def reg_trans_def Channel_registered_def chan_regs_def ctl_of_def
      Let_def split: if_splits)

lemma handleClose_reg: "TcpConnection_handleClose True c = Some (c', acts) \<Longrightarrow> reg_trans c acts c'"
  by (auto simp: TcpConnection_handleClose_def reg_trans_def Channel_registered_def chan_regs_def ctl_of_def
      Let_def split: if_splits)

lemma handleRead_reg:
  assumes "TcpConnection_handleRead True rd c = Some (c', acts)"
  shows "reg_trans c acts c'"
proof -
  obtain n buf where b: "Buffer_readFd rd (tc_inputBuffer c) = (n, buf)" by fastforce
  have "reg_trans (c\<lparr>tc_inputBuffer := buf\<rparr>) acts c'"
    using assms b handleClose_reg [of "c\<lparr>tc_inputBuffer := buf\<rparr>" c' acts]
    by (cases n) (auto simp: TcpConnection_handleRead_def TcpConnection_handleError_def Let_def intro: reg_trans_refl split: if_splits)
  then show ?thesis by (simp add: reg_trans_def)
qed

lemma sendInLoop_reg:
  assumes "TcpConnection_sendInLoop True w m c = Some (c', acts)"
  shows "reg_trans c acts c'"
proof -
  obtain n k fault a1 where wr: "sendInLoop_write w m c = (n, k, fault, a1)" by (metis prod_cases4)
  have a1: "reg_trans c a1 c"
    using wr by (auto simp: sendInLoop_write_def Let_def intro!: reg_trans_refl split: if_splits sum.splits)
  obtain c1 a2 where q: "sendInLoop_queue (drop n m) c = (c1, a2)" by fastforce
  have a2: "reg_trans c a2 c1"
    using q by (auto simp: sendInLoop_queue_def reg_trans_def Channel_registered_def chan_regs_def ctl_of_def Let_def split: if_splits)
  from assms wr q consider "c' = c" "acts = []" | "c' = c" "acts = a1" | "c' = c1" "acts = a1 @ a2"
    by (auto simp: TcpConnection_sendInLoop_def split: if_splits)
  then show ?thesis using a1 reg_trans_compose [OF a1 a2] by cases (simp_all add: reg_trans_refl)
qed

lemma handleWrite_parts_reg:
  "handleWrite_output w c = (g, c', acts) \<Longrightarrow> reg_trans c acts c'"
  "handleWrite_lowMark c = (c', acts) \<Longrightarrow> reg_trans c acts c'"
  "handleWrite_done True c = Some (c', acts) \<Longrightarrow> reg_trans c acts c'"
  by (auto simp: handleWrite_output_def handleWrite_lowMark_def handleWrite_done_def TcpConnection_shutdownInLoop_def
      reg_trans_def Channel_registered_def chan_regs_def ctl_of_def Let_def split: if_splits sum.splits)

lemma handleWrite_file_reg:
  assumes "handleWrite_file sf c = (g, c', acts)"
  shows "reg_trans c acts c'"
proof -
  let ?sf = "sf (tc_fileFd c) (tc_fileOffset c) (tc_fileSize c - tc_fileOffset c)"
  show ?thesis using assms
    by (cases ?sf) (auto simp: handleWrite_file_def intro!: reg_trans_refl split: if_splits)
qed

lemma handleWrite_reg: "TcpConnection_handleWrite True w sf c = Some (c', acts) \<Longrightarrow> reg_trans c acts c'"
  by (rule handleWrite_closed [where R = reg_trans])
    (auto intro: reg_trans_compose handleWrite_parts_reg handleWrite_file_reg reg_trans_refl)

lemma task_reg:
  assumes "run_task w t c = Some (c', acts)"
  shows "reg_trans c acts c'"
proof (cases t)
  case (SendTask m)
  with assms sendInLoop_reg show ?thesis by simp
next
  case ForceCloseTask
  with assms handleClose_reg show ?thesis
    by (auto simp: TcpConnection_forceCloseInLoop_def intro: reg_trans_refl split: if_splits)
next
  case (SendFileTask f sz)
  with assms show ?thesis
    by (auto simp: TcpConnection_sendFileInLoop_def reg_trans_def Channel_registered_def chan_regs_def ctl_of_def Let_def split: if_splits)
qed (use assms in \<open>auto simp: TcpConnection_shutdownInLoop_def intro!: reg_trans_refl split: if_splits\<close>)

lemma event_reg:
  assumes "event_do e c = Some (c', acts)"
  shows "reg_trans c acts c'"
proof (cases e)
  case (CallSend inLoop w m)
  with assms sendInLoop_reg show ?thesis
    by (auto simp: TcpConnection_send_def intro: reg_trans_refl split: if_splits)
next
  case (CallSendFile inLoop f sz)
  with assms task_reg [of undefined "SendFileTask f sz" c c' acts] show ?thesis
    by (auto simp: TcpConnection_sendFile_def intro: reg_trans_refl split: if_splits)
next
  case (CallShutdown inLoop)
  with assms show ?thesis
    by (auto simp: TcpConnection_shutdown_def TcpConnection_shutdownInLoop_def Let_def intro!: reg_trans_refl split: if_splits)
next
  case CallForceClose
  with assms show ?thesis by (auto simp: TcpConnection_forceClose_def intro!: reg_trans_refl split: if_splits)
next
  case (SetWatermarks low high lowCb highCb)
  with assms show ?thesis
    by (auto simp: TcpConnection_setOutputBufferWatermarks_def intro!: reg_trans_refl split: if_splits)
next
  case (SetCallbacks conn msg wc cl)
  with assms show ?thesis by (auto simp: conn_ops intro!: reg_trans_refl)
next
  case OnError
  with assms show ?thesis by (simp add: TcpConnection_handleError_def reg_trans_refl)
qed (use assms connectEstablished_reg connectDestroyed_reg handleRead_reg handleWrite_reg handleClose_reg in
    \<open>auto intro: reg_trans_refl\<close>)

text \<open>The kernel's view of the socket along a run.\<close>

definition registered_ok :: "fd \<Rightarrow> conn_sys \<Rightarrow> bool" where
  "registered_ok sockfd s \<longleftrightarrow> ch_fd (tc_channel (cs_conn s)) = sockfd
     \<and> ctl_replay sockfd None (trace_ctls (cs_trace s)) = Some (Channel_registered (tc_channel (cs_conn s)))"

lemma registered_trans:
  assumes "registered_ok sockfd s" "reg_trans (cs_conn s) acts c'" "cs_conn s' = c'" "cs_trace s' = cs_trace s @ acts"
  shows "registered_ok sockfd s'"
  using assms by (simp add: registered_ok_def reg_trans_def ctl_replay_append)

lemma registered_step: "registered_ok sockfd s \<Longrightarrow> conn_step s e s' \<Longrightarrow> registered_ok sockfd s'"
  by (erule conn_step.cases) (auto elim: registered_trans intro: event_reg task_reg)

interpretation socket: step_invariant conn_step "registered_ok sockfd" for sockfd
  by unfold_locales (rule registered_step)

lemma registered_init: "registered_ok sockfd (conn_init nm sockfd localAddr peerAddr)"
  by (simp add: registered_ok_def conn_init_def TcpConnection_new_def Channel_setErrorCallback_def
      Channel_setCloseCallback_def Channel_setWriteCallback_def Channel_setReadCallback_def Channel_new_def
      Channel_registered_def)

text \<open>Once deregistered and disconnected a connection stays so.\<close>

definition released :: "conn_sys \<Rightarrow> bool" where
  "released s \<longleftrightarrow> tc_state (cs_conn s) = kDisconnected \<and> \<not> ch_inEpoll (tc_channel (cs_conn s))"

lemma released_step: "released s \<Longrightarrow> conn_step s e s' \<Longrightarrow> released s'"
proof (erule conn_step.cases)
  fix e' s0 c' acts
  assume r: "released s" and s: "s = s0" and ok: "event_ok e' (cs_conn s0)" and do: "event_do e' (cs_conn s0) = Some (c', acts)"
    and s': "s' = \<lparr>cs_conn = c', cs_tasks = cs_tasks s0 @ queued_tasks acts, cs_trace = cs_trace s0 @ acts,
      cs_accepted = cs_accepted s0 @ event_bytes e' (cs_conn s0), cs_handed = cs_handed s0 @ event_fds e' (cs_conn s0)\<rparr>"
  have "tc_state c' = kDisconnected \<and> \<not> ch_inEpoll (tc_channel c')"
    using r ok do unfolding s released_def
    by (cases e') (auto simp: conn_ops TcpConnection_send_def Let_def split: if_splits)
  then show "released s'" by (simp add: released_def s')
next
  fix s0 t ts w c' acts
  assume r: "released s" and s: "s = s0" and t: "run_task w t (cs_conn s0) = Some (c', acts)"
    and s': "s' = \<lparr>cs_conn = c', cs_tasks = ts @ queued_tasks acts, cs_trace = cs_trace s0 @ acts,
      cs_accepted = cs_accepted s0 @ task_bytes w t (cs_conn s0), cs_handed = cs_handed s0\<rparr>"
  have "tc_state c' = kDisconnected \<and> \<not> ch_inEpoll (tc_channel c')"
    using r t unfolding s released_def
    by (cases t) (auto simp: conn_ops TcpConnection_sendInLoop_def Let_def split: if_splits)
  then show "released s'" by (simp add: released_def s')
qed

interpretation release: step_invariant conn_step released
  by unfold_locales (rule released_step)

section \<open>The destructor of a connection\<close>

text \<open>The body only logs; then the members go in the reverse order of their declaration: the channel, whose destructor
  does nothing, and the socket, which closes the descriptor both were built with.\<close>

definition TcpConnection_destroy :: "TcpConnection \<Rightarrow> sock_call list" where
  "TcpConnection_destroy c = Socket_destroy (Socket_of_fd (TcpConnection_getFd c))"

text \<open>C3. A socket is deregistered before it is closed, and closed once: in every run of a connection in which
  \<open>connectDestroyed\<close> has been called on a connection that had been established, whatever steps of a run follow, no call on the
  epoll instance was one the kernel refuses, the kernel has no registration for the socket left, no operation has closed it,
  and the destructor closes it. The socket is not one that was itself handed to \<open>sendFile\<close>, and in a run no
  \<open>shutdown\<close> or \<open>forceClose\<close> of another thread stores its state over a close that came after its test:
  \<open>forceClose_race_registers_again\<close> of theory ConnectionRuns shows what the code does then.\<close>

theorem connection_descriptor_lifetime:
  assumes "run conn_step (conn_init nm sockfd localAddr peerAddr) es s" "tc_state (cs_conn s) \<noteq> kConnecting"
    and "conn_step s Destroy s1" "run conn_step s1 es' s2" "0 \<le> sockfd" "sockfd \<notin> set (cs_handed s2)"
  shows "ctl_replay sockfd None (trace_ctls (cs_trace s2)) = Some None \<and> CloseFd sockfd \<notin> set (cs_trace s2)
    \<and> TcpConnection_destroy (cs_conn s2) = [SockClose sockfd]"
proof -
  have all: "run conn_step (conn_init nm sockfd localAddr peerAddr) (es @ Destroy # es') s2"
    using assms(1,3,4) by (auto intro: run_append run_cons)
  have ok: "registered_ok sockfd s2" by (rule socket.inv_run [OF all registered_init])
  have "released s1"
    using assms(3)
  proof cases
    case (conn_event c' acts)
    then have d: "TcpConnection_connectDestroyed True (cs_conn s) = Some (c', acts)" by simp
    have "tc_state c' = kDisconnected"
      using d assms(2) by (cases "tc_state (cs_conn s)") (auto simp: TcpConnection_connectDestroyed_def Let_def split: if_splits)
    with connectDestroyed_reg [OF d] conn_event(1) show ?thesis by (simp add: released_def)
  qed
  then have rel: "released s2" by (rule release.inv_run [OF assms(4)])
  have "sys_ok s2" by (rule run_init_ok [OF all])
  then have "count_list (cs_trace s2) (CloseFd sockfd) \<le> count_list (cs_handed s2) sockfd"
    using assms(5) by (auto simp: sys_ok_def)
  then have "CloseFd sockfd \<notin> set (cs_trace s2)" using assms(6) by (metis count_notin le_zero_eq count_list_0_iff)
  with ok rel assms(5) show ?thesis
    by (simp add: registered_ok_def released_def Channel_registered_def TcpConnection_destroy_def TcpConnection_getFd_def
        Socket_destroy_def Socket_of_fd_def)
qed

theorem connection_descriptor_lifetime_witness:
  "\<exists>s. run conn_step (conn_init ''c'' 7 InetAddress_zero InetAddress_zero)
         [SetCallbacks True True False True, Establish, Destroy] s
     \<and> TcpConnection_destroy (cs_conn s) = [SockClose 7]"
proof -
  let ?init = "conn_init ''c'' 7 InetAddress_zero InetAddress_zero"
  obtain c1 where c1: "event_do (SetCallbacks True True False True) (cs_conn ?init) = Some (c1, [])"
    "tc_state c1 = kConnecting" "tc_connectionCallback c1"
    by (simp add: conn_ops conn_init_def TcpConnection_new_def)
  obtain s1 where s1: "conn_step ?init (SetCallbacks True True False True) s1" "cs_conn s1 = c1" "cs_handed s1 = []"
    using conn_event [OF _ c1(1)] by (fastforce simp: conn_init_def TcpConnection_new_def)
  obtain c2 a2 where c2: "event_do Establish c1 = Some (c2, a2)" "tc_state c2 = kConnected" "tc_connectionCallback c2"
    using c1(2,3) by (simp add: TcpConnection_connectEstablished_def Let_def)
  obtain s2 where s2: "conn_step s1 Establish s2" "cs_conn s2 = c2" "cs_handed s2 = []"
    using conn_event [of Establish s1 c2 a2] c2(1) s1(2,3) by fastforce
  obtain c3 a3 where c3: "event_do Destroy c2 = Some (c3, a3)"
    using c2(2,3) by (simp add: TcpConnection_connectDestroyed_def Let_def)
  obtain s3 where s3: "conn_step s2 Destroy s3" "cs_handed s3 = []"
    using conn_event [of Destroy s2 c3 a3] c3 s2(2,3) by fastforce
  have r: "run conn_step ?init [SetCallbacks True True False True, Establish] s2"
    using s1(1) s2(1) by (blast intro: run_cons run_nil)
  have "TcpConnection_destroy (cs_conn s3) = [SockClose 7]"
    using connection_descriptor_lifetime [OF r _ s3(1) run_nil] s2(2) c2(2) s3(2) by simp
  moreover have "run conn_step ?init [SetCallbacks True True False True, Establish, Destroy] s3"
    using run_snoc [OF r s3(1)] by simp
  ultimately show ?thesis by blast
qed

section \<open>The destructor of an event loop\<close>

text \<open>What a destructor does to descriptors.\<close>

datatype release = ReleaseCtl ctl_call | ReleaseClose fd

text \<open>The body, then the members in the reverse order of their declaration: the timer queue, which still uses the
  epoll instance, and at the end the epoll instance.\<close>

definition EventLoop_release :: "Epoll \<Rightarrow> EventLoop \<Rightarrow> release list" where
  "EventLoop_release ep l =
     (let (l1, calls1, wakeupFd) = EventLoop_destroy l;
          (q, calls2, fds2) = TimerQueue_destroy (el_timerQueue l1)
      in map ReleaseCtl calls1 @ [ReleaseClose wakeupFd] @ map ReleaseCtl calls2 @ map ReleaseClose fds2
         @ map ReleaseClose (Epoll_destroy ep))"

definition Acceptor_release :: "Acceptor \<Rightarrow> release list" where
  "Acceptor_release a =
     (let (a1, calls) = Acceptor_destroy a
      in map ReleaseCtl calls @ concat (map (\<lambda>k. case k of SockClose fd \<Rightarrow> [ReleaseClose fd] | _ \<Rightarrow> [])
           (Socket_destroy (ac_acceptSocket a1))))"

text \<open>A sequence of releases obeys the kernel: calls are made on an open instance and not refused, and a descriptor
  is closed when it is open and no longer registered. \<open>reg\<close> holds the registrations, \<open>open_fds\<close> the open descriptors.\<close>

fun releases_ok :: "fd \<Rightarrow> (fd \<rightharpoonup> mask) \<Rightarrow> fd set \<Rightarrow> release list \<Rightarrow> (fd \<rightharpoonup> mask) \<times> fd set \<Rightarrow> bool" where
  "releases_ok epfd reg open_fds [] final \<longleftrightarrow> final = (reg, open_fds)"
| "releases_ok epfd reg open_fds (ReleaseClose fd # rs) final \<longleftrightarrow>
     fd \<in> open_fds \<and> reg fd = None \<and> releases_ok epfd reg (open_fds - {fd}) rs final"
| "releases_ok epfd reg open_fds (ReleaseCtl (op, fd, m) # rs) final \<longleftrightarrow>
     epfd \<in> open_fds \<and> fd \<in> open_fds
     \<and> (case (op, reg fd) of
          (EPOLL_CTL_ADD, None) \<Rightarrow> releases_ok epfd (reg(fd \<mapsto> m)) open_fds rs final
        | (EPOLL_CTL_MOD, Some _) \<Rightarrow> releases_ok epfd (reg(fd \<mapsto> m)) open_fds rs final
        | (EPOLL_CTL_DEL, Some _) \<Rightarrow> releases_ok epfd (reg(fd := None)) open_fds rs final
        | _ \<Rightarrow> False)"

section \<open>The end of the process\<close>

text \<open>What happens after \<open>loop()\<close> has returned: the logger is stopped (the flag: its thread is joined), then the locals of
  \<open>main\<close> go: the server hands the destruction of its connections to their loops, its pool tells each worker
  loop to quit and joins the thread, the acceptor goes, and at last the base loop. \<open>None\<close> is the join of a
  thread that was never started.\<close>

datatype exit_action = StopLogger bool | HandOver server_action | QuitAndJoin loop_ptr | Release release

definition main_exit ::
    "EventLoopThread list \<Rightarrow> conn_ptr list \<Rightarrow> Epoll \<Rightarrow> AsyncLogging \<Rightarrow> EventLoop \<Rightarrow> TcpServer \<Rightarrow>
     (AsyncLogging \<times> exit_action list) option" where
  "main_exit threads ordered ep logging l s =
     do {
       let (logging1, joins) = AsyncLogging_stop logging;
       let (s1, acts) = TcpServer_destroy ordered s;
       destroyed \<leftarrow> those (map EventLoopThread_destroy threads);
       Some (logging1,
         [StopLogger joins] @ map HandOver acts
         @ concat (map (\<lambda>(t, quit). case quit of Some loop \<Rightarrow> [QuitAndJoin loop] | None \<Rightarrow> []) destroyed)
         @ map Release (Acceptor_release (sv_acceptor s1) @ EventLoop_release ep l))
     }"

definition releases :: "exit_action list \<Rightarrow> release list" where
  "releases acts = concat (map (\<lambda>a. case a of Release r \<Rightarrow> [r] | _ \<Rightarrow> []) acts)"

lemma releases_simps [simp]:
  "releases [] = []" "releases (xs @ ys) = releases xs @ releases ys"
  "releases (a # xs) = (case a of Release r \<Rightarrow> [r] | _ \<Rightarrow> []) @ releases xs"
  "releases (map Release rs) = rs" "releases (map (HandOver \<circ> f) as) = []"
  "releases (concat (map (\<lambda>(t, quit). case quit of Some loop \<Rightarrow> [QuitAndJoin loop] | None \<Rightarrow> []) ds)) = []"
  by (auto simp: releases_def comp_def split: option.splits)

lemma main_exit_releases:
  "main_exit threads ordered ep logging l s = Some (logging', exits) \<Longrightarrow>
   releases exits = Acceptor_release (sv_acceptor s) @ EventLoop_release ep l"
  by (auto simp: main_exit_def AsyncLogging_stop_def TcpServer_destroy_def Let_def split: bind_splits)

text \<open>The loop leaves its own channel alone while it runs, and its timers leave theirs alone.\<close>

definition same_wakeup :: "EventLoop \<Rightarrow> EventLoop \<Rightarrow> bool" where
  "same_wakeup l l' \<longleftrightarrow> el_wakeupChannel l' = el_wakeupChannel l \<and> el_wakeupFd l' = el_wakeupFd l"

lemma loop_run_wakeup: "run loop_step s es s' \<Longrightarrow> same_wakeup (lp_loop s) (lp_loop s')"
proof (induction rule: run.induct)
  case (run_cons s e s1 es s2)
  have "same_wakeup (lp_loop s) (lp_loop s1)"
    using run_cons(1) by cases (auto simp: same_wakeup_def loop_ops Let_def split: if_splits)
  with run_cons show ?case by (simp add: same_wakeup_def)
qed (simp add: same_wakeup_def)

lemma timer_ops_channel [simp]:
  "tq_timerfdChannel (set_timer a t q) = tq_timerfdChannel q"
  "tq_timerfdChannel (TimerQueue_resetTimerfd x q) = tq_timerfdChannel q"
  by (simp_all add: set_timer_def TimerQueue_resetTimerfd_def)

lemma timer_users_channel [simp]:
  "tq_timerfdChannel (TimerQueue_addTimerInLoop clock a delay q) = tq_timerfdChannel q"
  "tq_timerfdChannel (TimerQueue_cancelInLoop i q) = tq_timerfdChannel q"
  "tq_timerfdChannel (fst (snd (TimerQueue_addTimer place inLoop clock cb delay interval q))) = tq_timerfdChannel q"
  "tq_timerfdChannel (fst (TimerQueue_cancel inLoop i q)) = tq_timerfdChannel q"
  by (simp_all add: TimerQueue_addTimerInLoop_def TimerQueue_cancelInLoop_def TimerQueue_addTimer_def
      TimerQueue_cancel_def Let_def split: option.split)

lemma timer_calls_channel [simp]: "tq_timerfdChannel (fold (timer_call_do place) calls q) = tq_timerfdChannel q"
proof (induction calls arbitrary: q)
  case (Cons k calls)
  then show ?case by (cases k) simp_all
qed simp

lemma handleRead_fire_channel [simp]:
  "tq_timerfdChannel (fst (handleRead_fire place behave expired q)) = tq_timerfdChannel q"
  by (induction expired arbitrary: q) (simp_all add: split_def Let_def)

lemma handleRead_restart_channel [simp]:
  "tq_timerfdChannel (handleRead_restart restart expired q) = tq_timerfdChannel q"
  by (induction expired arbitrary: q) (simp_all add: Let_def)

lemma timer_handleRead_channel [simp]:
  "tq_timerfdChannel (fst (TimerQueue_handleRead place clock behave restart q)) = tq_timerfdChannel q"
  by (simp add: TimerQueue_handleRead_def Let_def split_def)

lemma timer_task_channel [simp]: "tq_timerfdChannel (timer_task_do clock t q) = tq_timerfdChannel q"
  by (cases t) simp_all

lemma timer_run_channel:
  "run (timer_step place) s es s' \<Longrightarrow> tq_timerfdChannel (ts_queue s') = tq_timerfdChannel (ts_queue s)"
proof (induction rule: run.induct)
  case (run_cons s e s1 es s2)
  from run_cons(1) have "tq_timerfdChannel (ts_queue s1) = tq_timerfdChannel (ts_queue s)"
  proof cases
    case step_add
    then show ?thesis by simp (metis timer_users_channel(3) fst_conv snd_conv)
  next
    case step_cancel
    then show ?thesis by simp (metis timer_users_channel(4) fst_conv)
  next
    case step_expire
    then show ?thesis by simp (metis timer_handleRead_channel fst_conv)
  qed simp
  with run_cons.IH show ?case by simp
qed simp

text \<open>C4. The process gives back what it took: \<open>main\<close> boots, the acceptor listens, the base loop and its timers
  run in any way, the loop returns and \<open>main\<close> ends. Then of all \<open>epoll_ctl\<close> calls on the base loop's
  instance none is refused, each of the four descriptors (epoll instance, eventfd, timerfd, listening socket) is closed exactly once, only after its registration is deleted, and the
  instance only after the last call on it.\<close>

theorem process_teardown:
  assumes "main_boot inet_pton inet_ntop startLoop logging tid loop (Inr wakeupFd) (Inr timerfd) listenFd True
      = Some (logging1, el, calls, w, s, acts)"
    and "Acceptor_listen True (sv_acceptor s) = Some (acceptor, socks, ctls)"
    and "run loop_step \<lparr>lp_loop = el, lp_pc = Idle, lp_owed = 0, lp_queued = [], lp_done = []\<rparr> es ls" "lp_pc ls = Stopped"
    and "run (timer_step place) (timer_init timerfd) us ts" "l = (lp_loop ls)\<lparr>el_timerQueue := ts_queue ts\<rparr>"
    and "main_exit threads ordered (Epoll_new (Inr epfd)) logging2 l s' = Some (logging3, exits)"
      "sv_acceptor s' = acceptor"
    and "distinct [epfd, wakeupFd, timerfd, listenFd]" "list_all (\<lambda>fd. 0 \<le> fd) [epfd, wakeupFd, timerfd, listenFd]"
  shows "releases_ok epfd Map.empty (set [epfd, wakeupFd, timerfd, listenFd])
           (map ReleaseCtl (calls @ ctls) @ releases exits) (Map.empty, {})"
proof -
  have el: "EventLoop_new tid wakeupFd timerfd = (el, calls)"
    using assms(1) by (auto simp: main_boot_def createEventfd_def createTimerfd_def Let_def split: prod.splits bind_splits)
  have ac: "ac_acceptSocket (sv_acceptor s) = \<lparr>so_fd = listenFd\<rparr>"
    "ac_acceptChannel (sv_acceptor s) = Channel_setReadCallback (Channel_new listenFd) True"
    using assms(1)
    by (auto simp: main_boot_def WebChatServer_new_def WebChatServer_start_def TcpServer_start_def TcpServer_new_def
        TcpServer_setThreadNum_def TcpServer_setCallbacks_def Acceptor_new_def Socket_new_def Socket_bindAddress_def
        Acceptor_setNewConnectionCallback_def createEventfd_def Let_def split: prod.splits bind_splits if_splits)
  have same: "same_wakeup el (lp_loop ls)" using loop_run_wakeup [OF assms(3)] by simp
  have rel: "releases exits = Acceptor_release acceptor @ EventLoop_release (Epoll_new (Inr epfd)) l"
    using main_exit_releases [OF assms(7)] assms(8) by simp
  have calls: "calls = [(EPOLL_CTL_ADD, timerfd, EPOLLIN), (EPOLL_CTL_ADD, wakeupFd, EPOLLIN)]"
    and chans: "ch_fd (el_wakeupChannel el) = wakeupFd" "ch_inEpoll (el_wakeupChannel el)" "el_wakeupFd el = wakeupFd"
      "ch_fd (tq_timerfdChannel (ts_queue ts)) = timerfd" "ch_inEpoll (tq_timerfdChannel (ts_queue ts))"
    using el timer_run_channel [OF assms(5)] by (auto simp: timer_init_def EventLoop_new_def TimerQueue_new_def channel_ops Channel_new_def Channel_setReadCallback_def)
  have ctls: "ctls = [(EPOLL_CTL_ADD, listenFd, EPOLLIN)]"
    and acs: "ch_fd (ac_acceptChannel acceptor) = listenFd" "ch_inEpoll (ac_acceptChannel acceptor)"
      "ac_acceptSocket acceptor = \<lparr>so_fd = listenFd\<rparr>"
    using assms(2) ac by (auto simp: Acceptor_listen_def Socket_listen_def channel_ops Channel_new_def Channel_setReadCallback_def)
  have a: "Acceptor_release acceptor = [ReleaseCtl (EPOLL_CTL_MOD, listenFd, 0), ReleaseCtl (EPOLL_CTL_MOD, listenFd, 0),
      ReleaseCtl (EPOLL_CTL_DEL, listenFd, 0), ReleaseClose listenFd]"
    using acs assms(10) by (simp add: Acceptor_release_def Acceptor_destroy_def Socket_destroy_def channel_ops)
  have l: "EventLoop_release (Epoll_new (Inr epfd)) l =
      [ReleaseCtl (EPOLL_CTL_MOD, wakeupFd, 0), ReleaseCtl (EPOLL_CTL_MOD, wakeupFd, 0), ReleaseCtl (EPOLL_CTL_DEL, wakeupFd, 0),
       ReleaseClose wakeupFd, ReleaseCtl (EPOLL_CTL_MOD, timerfd, 0), ReleaseCtl (EPOLL_CTL_MOD, timerfd, 0),
       ReleaseCtl (EPOLL_CTL_DEL, timerfd, 0), ReleaseClose timerfd, ReleaseClose epfd]"
    using chans same assms(6,10)
    by (simp add: EventLoop_release_def EventLoop_destroy_def TimerQueue_destroy_def Epoll_destroy_def Epoll_new_def
        same_wakeup_def channel_ops)
  show ?thesis unfolding rel a l calls ctls using assms(9) by auto
qed

theorem process_teardown_witness:
  "\<exists>logging1 el calls w s acts acceptor socks ctls ls logging3 exits.
     main_boot (\<lambda>_. Some 0) (\<lambda>_. ''127.0.0.1'') (\<lambda>i. i) (AsyncLogging_new [] [] 0 ''log'' 3) 1 0 (Inr 4) (Inr 5) 6 True
       = Some (logging1, el, calls, w, s, acts)
     \<and> Acceptor_listen True (sv_acceptor s) = Some (acceptor, socks, ctls)
     \<and> run loop_step \<lparr>lp_loop = el, lp_pc = Idle, lp_owed = 0, lp_queued = [], lp_done = []\<rparr> [Enter, OtherQuit, Test] ls
     \<and> main_exit [] [] (Epoll_new (Inr 3)) logging1 ((lp_loop ls)\<lparr>el_timerQueue := ts_queue (timer_init 5)\<rparr>) (s\<lparr>sv_acceptor := acceptor\<rparr>) = Some (logging3, exits)
     \<and> releases_ok 3 Map.empty (set [3, 4, 5, 6]) (map ReleaseCtl (calls @ ctls) @ releases exits) (Map.empty, {})"
proof -
  obtain x where "main_boot (\<lambda>_. Some 0) (\<lambda>_. ''127.0.0.1'') (\<lambda>i. i)
      (AsyncLogging_new [] [] 0 ''log'' 3) 1 0 (Inr 4) (Inr 5) 6 True = Some x"
    by (simp add: main_boot_def createEventfd_def WebChatServer_new_def TcpServer_new_def Acceptor_new_def Socket_new_def
        Socket_bindAddress_def Let_def split_def)
  then obtain logging1 el calls w s acts where boot: "main_boot (\<lambda>_. Some 0) (\<lambda>_. ''127.0.0.1'') (\<lambda>i. i)
      (AsyncLogging_new [] [] 0 ''log'' 3) 1 0 (Inr 4) (Inr 5) 6 True = Some (logging1, el, calls, w, s, acts)"
    by (cases x) auto
  obtain acceptor socks ctls where listen: "Acceptor_listen True (sv_acceptor s) = Some (acceptor, socks, ctls)"
    by (simp add: Acceptor_listen_def Socket_listen_def Let_def split_def)
  let ?s0 = "\<lparr>lp_loop = el, lp_pc = Idle, lp_owed = 0, lp_queued = [], lp_done = []\<rparr>"
  let ?s1 = "?s0\<lparr>lp_loop := EventLoop_loop_enter el, lp_pc := AtTest\<rparr>"
  let ?s2 = "?s1\<lparr>lp_loop := quit_set (lp_loop ?s1), lp_owed := 1\<rparr>"
  let ?s3 = "?s2\<lparr>lp_loop := EventLoop_loop_leave (lp_loop ?s2), lp_pc := Stopped\<rparr>"
  have "loop_step ?s0 Enter ?s1" using enter [of ?s0] by simp
  moreover have "loop_step ?s1 OtherQuit ?s2" using other_quit [of ?s1] by simp
  moreover have "loop_step ?s2 Test ?s3" by (rule test_stop) (simp_all add: quit_set_def)
  ultimately have r: "run loop_step ?s0 [Enter, OtherQuit, Test] ?s3" by (blast intro: run_cons run_nil)
  let ?l = "(lp_loop ?s3)\<lparr>el_timerQueue := ts_queue (timer_init 5)\<rparr>"
  obtain logging3 exits where exit: "main_exit [] [] (Epoll_new (Inr 3)) logging1 ?l (s\<lparr>sv_acceptor := acceptor\<rparr>)
      = Some (logging3, exits)"
    by (simp add: main_exit_def Let_def split_def)
  have "releases_ok 3 Map.empty (set [3, 4, 5, 6]) (map ReleaseCtl (calls @ ctls) @ releases exits) (Map.empty, {})"
    by (rule process_teardown [OF boot listen r _ run_nil refl exit]) simp_all
  with boot listen r exit show ?thesis by blast
qed

section \<open>Behaviours to know about\<close>

text \<open>\<open>connectDestroyed\<close> on a connection that is up does not close a file that is being sent, and neither does the
  destructor: a server that goes away during a \<open>sendFile\<close> leaks the descriptor.\<close>

lemma connectDestroyed_leaks_file:
  assumes "tc_state c = kConnected" "tc_connectionCallback c" "0 \<le> tc_fileFd c" "tc_fileFd c \<noteq> TcpConnection_getFd c"
  shows "\<exists>c' acts. TcpConnection_connectDestroyed True c = Some (c', acts) \<and> tc_state c' = kDisconnected
    \<and> CloseFd (tc_fileFd c) \<notin> set acts \<and> SockClose (tc_fileFd c) \<notin> set (TcpConnection_destroy c')"
  using assms
  by (auto simp: TcpConnection_connectDestroyed_def TcpConnection_destroy_def TcpConnection_getFd_def Socket_destroy_def
      Socket_of_fd_def chan_regs_def Let_def)

text \<open>\<open>main\<close> stops the logger before the server and the loop are destroyed, whose destructors still log: once the
  writer has ended nothing appended reaches a file.\<close>

lemma nothing_logged_after_stop:
  assumes "run log_step s es s'" "as_pc s = WriterEnded"
  shows "as_pc s' = WriterEnded \<and> as_taken s' = as_taken s \<and> as_calls s' = as_calls s"
  using assms
proof (induction rule: run.induct)
  case (run_cons s e s1 es s2)
  have "as_pc s1 = WriterEnded \<and> as_taken s1 = as_taken s \<and> as_calls s1 = as_calls s"
    using run_cons(1,4) by cases simp_all
  with run_cons.IH show ?case by simp
qed simp

text \<open>A functor queued from another thread right before \<open>quit\<close> may never run: the loop has just swapped its queue and
  then finds \<open>quit_\<close> set. So the \<open>connectDestroyed\<close> calls that the destructor of \<open>TcpServer\<close> queues on its
  worker loops may be dropped when the pool is destroyed next.\<close>

lemma quit_drops_queued_functors:
  "\<exists>s. run loop_step (loop_init tid fd timerfd)
       [Enter, Test, PollReturns, DispatchDone, Swap, OtherQueue f, OtherWakes, OtherQuit, OtherWakes, FunctorsDone, Test] s
     \<and> lp_pc s = Stopped \<and> lp_done s = [] \<and> el_pendingFunctors (lp_loop s) = [f]"
proof -
  define s0 where "s0 = loop_init tid fd timerfd"
  define s1 where "s1 = s0\<lparr>lp_loop := EventLoop_loop_enter (lp_loop s0), lp_pc := AtTest\<rparr>"
  define s2 where "s2 = s1\<lparr>lp_pc := Blocked\<rparr>"
  define s3 where "s3 = s2\<lparr>lp_pc := Dispatching (0 < el_eventfd (lp_loop s2))\<rparr>"
  define s4 where "s4 = s3\<lparr>lp_pc := AtSwap\<rparr>"
  define s5 where "s5 = s4\<lparr>lp_loop := snd (doPendingFunctors_swap (lp_loop s4)), lp_pc := Running (fst (doPendingFunctors_swap (lp_loop s4)))\<rparr>"
  define s6 where "s6 = s5\<lparr>lp_loop := queueInLoop_push f (lp_loop s5), lp_owed := lp_owed s5 + 1, lp_queued := lp_queued s5 @ [f]\<rparr>"
  define s7 where "s7 = s6\<lparr>lp_loop := EventLoop_wakeup (lp_loop s6), lp_owed := lp_owed s6 - 1\<rparr>"
  define s8 where "s8 = s7\<lparr>lp_loop := quit_set (lp_loop s7), lp_owed := lp_owed s7 + 1\<rparr>"
  define s9 where "s9 = s8\<lparr>lp_loop := EventLoop_wakeup (lp_loop s8), lp_owed := lp_owed s8 - 1\<rparr>"
  define s10 where "s10 = s9\<lparr>lp_loop := doPendingFunctors_end (lp_loop s9), lp_pc := AtTest\<rparr>"
  define s11 where "s11 = s10\<lparr>lp_loop := EventLoop_loop_leave (lp_loop s10), lp_pc := Stopped\<rparr>"
  note early = s4_def s3_def s2_def s1_def s0_def loop_init_def EventLoop_new_def split_def Let_def
  have pcs: "lp_pc s0 = Idle" "lp_pc s1 = AtTest" "\<not> el_quit (lp_loop s1)" "lp_pc s2 = Blocked" "lp_pc s3 = Dispatching False"
    "lp_pc s4 = AtSwap" "lp_done s4 = []" "el_pendingFunctors (lp_loop s4) = []"
    by (simp_all add: early EventLoop_loop_enter_def)
  have late: "0 < lp_owed s6" "0 < lp_owed s8" "lp_pc s9 = Running []" "lp_pc s10 = AtTest" "el_quit (lp_loop s10)"
    "lp_pc s11 = Stopped" "lp_done s11 = []" "el_pendingFunctors (lp_loop s11) = [f]"
    using pcs(7,8) by (simp_all add: s11_def s10_def s9_def s8_def s7_def s6_def s5_def loop_ops Let_def)
  have "loop_step s0 Enter s1" unfolding s1_def by (rule enter [OF pcs(1)])
  moreover have "loop_step s1 Test s2" unfolding s2_def by (rule test_poll [OF pcs(2,3)])
  moreover have "loop_step s2 PollReturns s3" unfolding s3_def by (rule poll_returns [OF pcs(4)])
  moreover have "loop_step s3 DispatchDone s4" unfolding s4_def by (rule dispatch_done [OF pcs(5)])
  moreover have "loop_step s4 Swap s5" unfolding s5_def by (rule swap [OF pcs(6)]) simp
  moreover have "loop_step s5 (OtherQueue f) s6" unfolding s6_def by (rule other_queue)
  moreover have "loop_step s6 OtherWakes s7" unfolding s7_def by (rule other_wakes [OF late(1)])
  moreover have "loop_step s7 OtherQuit s8" unfolding s8_def by (rule other_quit)
  moreover have "loop_step s8 OtherWakes s9" unfolding s9_def by (rule other_wakes [OF late(2)])
  moreover have "loop_step s9 FunctorsDone s10" unfolding s10_def by (rule functors_done [OF late(3)])
  moreover have "loop_step s10 Test s11" unfolding s11_def by (rule test_stop [OF late(4,5)])
  ultimately have "run loop_step s0
       [Enter, Test, PollReturns, DispatchDone, Swap, OtherQueue f, OtherWakes, OtherQuit, OtherWakes, FunctorsDone, Test] s11"
    by (blast intro: run_cons run_nil)
  with late(6-8) show ?thesis unfolding s0_def by blast
qed

end
