(* ===== verification/UnitTests.thy ===== *)
theory UnitTests
  imports WebChat ConnectionRuns "HOL-Library.Code_Target_Nat"
begin

text \<open>
  The unit tests of \<open>src/tests\<close> replayed on the model: each test program is a definition whose value says whether
  all its \<open>REQUIRE\<close>s hold, with the same calls on the same values. What the tests obtain from the kernel
  (a socket pair, its readiness, the progress of its reader) is given as outcomes of the system calls.
\<close>

section \<open>\<open>buffer_tests.cpp\<close>\<close>

text \<open>Several members return a value and the new buffer, or nothing on a failed assertion.\<close>

definition returns :: "('a \<times> 'b) option \<Rightarrow> 'a \<Rightarrow> ('b \<Rightarrow> bool) \<Rightarrow> bool" where
  "returns r v P \<longleftrightarrow> (case r of Some (x, b) \<Rightarrow> x = v \<and> P b | None \<Rightarrow> False)"

definition buffer_tests_strings :: "Buffer \<Rightarrow> (Buffer \<Rightarrow> bool) \<Rightarrow> bool" where
  "buffer_tests_strings buffer P \<longleftrightarrow>
     (let b1 = Buffer_append buffer ''hello'' in
      readableBytes b1 = 5 \<and> Buffer_text b1 (peek b1) (peek b1 + readableBytes b1) = ''hello''
      \<and> returns (Buffer_retrieveAsString b1 2) ''he'' (\<lambda>b2.
          readableBytes b2 = 3 \<and> returns (Buffer_retrieveAllAsString b2) ''llo'' (\<lambda>b3. readableBytes b3 = 0 \<and> P b3)))"

definition buffer_tests_line :: "Buffer \<Rightarrow> (Buffer \<Rightarrow> bool) \<Rightarrow> bool" where
  "buffer_tests_line buffer P \<longleftrightarrow>
     (let b1 = Buffer_append buffer (''a line'' @ kCRLF @ ''next'') in
      case Buffer_findCRLF b1 of
        None \<Rightarrow> False
      | Some crlf \<Rightarrow>
          Buffer_text b1 (peek b1) crlf = ''a line''
          \<and> (case Buffer_retrieveUntil b1 (crlf + 2) of
               None \<Rightarrow> False
             | Some b2 \<Rightarrow> returns (Buffer_retrieveAllAsString b2) ''next'' P))"

definition buffer_tests_int32 :: "Buffer \<Rightarrow> (Buffer \<Rightarrow> bool) \<Rightarrow> bool" where
  "buffer_tests_int32 buffer P \<longleftrightarrow>
     (case Buffer_prependInt32 (Buffer_append buffer ''payload'') 42 of
        None \<Rightarrow> False
      | Some b1 \<Rightarrow>
          Buffer_peekInt32 b1 = Some 42
          \<and> returns (Buffer_readInt32 b1) 42 (\<lambda>b2. returns (Buffer_retrieveAllAsString b2) ''payload'' P))"

definition buffer_tests :: bool where
  "buffer_tests \<longleftrightarrow>
     buffer_tests_strings (Buffer_new 8) (\<lambda>b1. buffer_tests_line b1 (\<lambda>b2. buffer_tests_int32 b2 (\<lambda>b3.
       returns (Buffer_retrieveAllAsString (Buffer_append b3 ''abcdefghijk'')) ''abcdefghijk'' (\<lambda>_. True))))"

lemma buffer_tests_pass: buffer_tests
  by code_simp

section \<open>\<open>channel_tests.cpp\<close>\<close>

definition channel_tests :: "fd \<Rightarrow> bool" where
  "channel_tests socket \<longleftrightarrow>
     (let (c1, calls1) = Channel_enableReading (Channel_new socket);
          (c2, calls2) = Channel_enableWriting c1;
          (c3, calls3) = Channel_remove c2
      in Channel_isReading c2 \<and> Channel_isWriting c2 \<and> ch_events c2 AND EPOLLET = 0)"

lemma channel_tests_pass: "channel_tests socket"
  by (simp add: channel_tests_def channel_ops Channel_new_def Channel_isReading_def Channel_isWriting_def epoll_bits Let_def)

section \<open>\<open>http_parser_tests.cpp\<close>\<close>

definition parses :: "HttpParser \<Rightarrow> Buffer \<Rightarrow> (bool \<Rightarrow> HttpParser \<Rightarrow> Buffer \<Rightarrow> bool) \<Rightarrow> bool" where
  "parses parser buffer P \<longleftrightarrow>
     (case HttpParser_parseRequest parser buffer of Some (ok, parser1, buffer1) \<Rightarrow> P ok parser1 buffer1 | None \<Rightarrow> False)"

abbreviation fresh_buffer :: Buffer where "fresh_buffer \<equiv> Buffer_new kInitialSize"

definition parser_test_get :: bool where
  "parser_test_get \<longleftrightarrow>
     parses HttpParser_new (Buffer_append fresh_buffer
         (''GET /health HTTP/1.1'' @ kCRLF @ ''Host: localhost'' @ kCRLF @ ''X-Trace: request-1'' @ kCRLF @ kCRLF))
       (\<lambda>ok p b. ok \<and> HttpParser_gotAll p \<and> hp_method p = ''GET'' \<and> hp_path p = ''/health''
          \<and> HttpParser_getHeader p ''Host'' = ''localhost'' \<and> HttpParser_getHeader p ''host'' = ''localhost''
          \<and> readableBytes b = 0)"

definition parser_test_post :: bool where
  "parser_test_post \<longleftrightarrow>
     parses HttpParser_new (Buffer_append fresh_buffer
         (''POST /chat HTTP/1.1'' @ kCRLF @ ''Content-Length: 5'' @ kCRLF @ kCRLF @ ''hello''))
       (\<lambda>ok p b. ok \<and> HttpParser_gotAll p \<and> hp_method p = ''POST'' \<and> hp_path p = ''/chat''
          \<and> hp_body p = ''hello'' \<and> readableBytes b = 0)"

definition parser_test_split :: bool where
  "parser_test_split \<longleftrightarrow>
     parses HttpParser_new (Buffer_append fresh_buffer (''GET /split HTTP/1.1'' @ [CR])) (\<lambda>ok1 p1 b1.
       ok1 \<and> \<not> HttpParser_gotAll p1
       \<and> parses p1 (Buffer_append b1 ([LF] @ ''Host: local'')) (\<lambda>ok2 p2 b2.
           ok2 \<and> \<not> HttpParser_gotAll p2
           \<and> parses p2 (Buffer_append b2 (''host'' @ kCRLF @ kCRLF)) (\<lambda>ok3 p3 b3.
               ok3 \<and> HttpParser_gotAll p3 \<and> hp_path p3 = ''/split''
               \<and> HttpParser_getHeader p3 ''Host'' = ''localhost'' \<and> readableBytes b3 = 0)))"

definition parser_test_partial_body :: bool where
  "parser_test_partial_body \<longleftrightarrow>
     parses HttpParser_new (Buffer_append fresh_buffer
         (''POST /partial-body HTTP/1.1'' @ kCRLF @ ''Content-Length: 5'' @ kCRLF @ kCRLF @ ''he'')) (\<lambda>ok1 p1 b1.
       ok1 \<and> \<not> HttpParser_gotAll p1 \<and> Buffer_text b1 (peek b1) (peek b1 + readableBytes b1) = ''he''
       \<and> parses p1 (Buffer_append b1 ''llo'') (\<lambda>ok2 p2 b2. ok2 \<and> HttpParser_gotAll p2 \<and> hp_body p2 = ''hello''))"

definition parser_test_pipeline :: bool where
  "parser_test_pipeline \<longleftrightarrow>
     (let two = ''GET /two HTTP/1.1'' @ kCRLF @ ''Host: local'' @ kCRLF @ kCRLF in
      parses HttpParser_new (Buffer_append fresh_buffer
          (''GET /one HTTP/1.1'' @ kCRLF @ ''Host: local'' @ kCRLF @ kCRLF @ two)) (\<lambda>ok1 p1 b1.
        ok1 \<and> HttpParser_gotAll p1 \<and> hp_path p1 = ''/one'' \<and> readableBytes b1 = length two
        \<and> parses (HttpParser_reset p1) b1 (\<lambda>ok2 p2 b2.
            ok2 \<and> HttpParser_gotAll p2 \<and> hp_path p2 = ''/two'' \<and> HttpParser_getHeader p2 ''host'' = ''local'')))"

definition rejects :: "bytes list \<Rightarrow> bool" where
  "rejects pieces \<longleftrightarrow>
     parses HttpParser_new (fold (\<lambda>x b. Buffer_append b x) pieces fresh_buffer)
       (\<lambda>ok p b. \<not> ok \<and> \<not> HttpParser_gotAll p)"

definition parser_test_bad :: bool where
  "parser_test_bad \<longleftrightarrow>
     rejects [''GET /bad HTTP/1.1 extra'' @ kCRLF @ kCRLF]
     \<and> rejects [''GET /bad HTTP/1.1'' @ kCRLF @ ''MissingColon'' @ kCRLF @ kCRLF]
     \<and> list_all (\<lambda>contentLength. rejects [''POST /bad HTTP/1.1'' @ kCRLF @ ''Content-Length: '', contentLength, kCRLF @ kCRLF])
         ['''', ''-1'', ''+1'', ''1x'', ''999999999999999999999999999999'']
     \<and> list_all (\<lambda>headers. rejects [''POST /bad HTTP/1.1'' @ kCRLF, headers, kCRLF])
         [''Transfer-Encoding: chunked'' @ kCRLF, ''Content-Length: 1'' @ kCRLF @ ''Content-Length: 1'' @ kCRLF]"

text \<open>The tests are evaluated on the byte stream the buffers stand for.\<close>

definition stream_parses :: "HttpParser \<Rightarrow> bytes \<Rightarrow> (bool \<Rightarrow> HttpParser \<Rightarrow> bytes \<Rightarrow> bool) \<Rightarrow> bool" where
  "stream_parses parser cs Q \<longleftrightarrow> (case parse_stream parser cs of (ok, p, rest) \<Rightarrow> Q ok p rest)"

lemma parses_stream:
  assumes "Buffer_ok b" "stream_parses p (Buffer_content b) Q"
    and "\<And>ok p' b'. Buffer_ok b' \<Longrightarrow> Q ok p' (Buffer_content b') \<Longrightarrow> P ok p' b'"
  shows "parses p b P"
  using parseRequest_refines [OF assms(1), of p] assms(2,3) by (fastforce simp: parses_def stream_parses_def)

lemma fresh_append: "Buffer_ok (Buffer_append fresh_buffer xs)" "Buffer_content (Buffer_append fresh_buffer xs) = xs"
  using append_correct [OF Buffer_ok_new [of kInitialSize], of xs] by simp_all

lemma parses_text:
  assumes "stream_parses p cs Q" "\<And>ok p' b'. Buffer_ok b' \<Longrightarrow> Q ok p' (Buffer_content b') \<Longrightarrow> P ok p' b'"
  shows "parses p (Buffer_append fresh_buffer cs) P"
  using parses_stream [OF fresh_append(1), of p cs Q P] fresh_append(2) assms by simp

lemma parses_more:
  assumes "Buffer_ok b" "stream_parses p (Buffer_content b @ cs) Q"
    and "\<And>ok p' b'. Buffer_ok b' \<Longrightarrow> Q ok p' (Buffer_content b') \<Longrightarrow> P ok p' b'"
  shows "parses p (Buffer_append b cs) P"
  using parses_stream [OF append_correct(1) [OF assms(1)], of p cs Q P] append_correct(2) [OF assms(1)] assms(2,3) by simp

lemma readable_nothing: "Buffer_ok b \<Longrightarrow> readableBytes b = 0 \<longleftrightarrow> Buffer_content b = []"
  by (simp flip: length_content)

lemma text_all: "Buffer_ok b \<Longrightarrow> Buffer_text b (peek b) (peek b + readableBytes b) = Buffer_content b"
  using text_peek [of b "readableBytes b"] length_content [of b] by simp

lemma parser_test_get_passes: parser_test_get
  unfolding parser_test_get_def
proof (rule parses_text)
  show "stream_parses HttpParser_new
      (''GET /health HTTP/1.1'' @ kCRLF @ ''Host: localhost'' @ kCRLF @ ''X-Trace: request-1'' @ kCRLF @ kCRLF)
      (\<lambda>ok p rest. ok \<and> HttpParser_gotAll p \<and> hp_method p = ''GET'' \<and> hp_path p = ''/health''
        \<and> HttpParser_getHeader p ''Host'' = ''localhost'' \<and> HttpParser_getHeader p ''host'' = ''localhost'' \<and> rest = [])"
    by code_simp
qed (simp add: readable_nothing)

lemma parser_test_post_passes: parser_test_post
  unfolding parser_test_post_def
proof (rule parses_text)
  show "stream_parses HttpParser_new (''POST /chat HTTP/1.1'' @ kCRLF @ ''Content-Length: 5'' @ kCRLF @ kCRLF @ ''hello'')
      (\<lambda>ok p rest. ok \<and> HttpParser_gotAll p \<and> hp_method p = ''POST'' \<and> hp_path p = ''/chat'' \<and> hp_body p = ''hello'' \<and> rest = [])"
    by code_simp
qed (simp add: readable_nothing)

lemma parser_test_split_passes: parser_test_split
  unfolding parser_test_split_def
proof (rule parses_text)
  let ?Q3 = "\<lambda>ok p rest. ok \<and> HttpParser_gotAll p \<and> hp_path p = ''/split''
    \<and> HttpParser_getHeader p ''Host'' = ''localhost'' \<and> rest = []"
  let ?Q2 = "\<lambda>ok p rest. ok \<and> \<not> HttpParser_gotAll p \<and> stream_parses p (rest @ ''host'' @ kCRLF @ kCRLF) ?Q3"
  show "stream_parses HttpParser_new (''GET /split HTTP/1.1'' @ [CR]) (\<lambda>ok p rest. ok \<and> \<not> HttpParser_gotAll p
      \<and> stream_parses p (rest @ [LF] @ ''Host: local'') ?Q2)" by code_simp
qed (auto elim!: parses_more simp: readable_nothing)

lemma parser_test_partial_body_passes: parser_test_partial_body
  unfolding parser_test_partial_body_def
proof (rule parses_text)
  show "stream_parses HttpParser_new (''POST /partial-body HTTP/1.1'' @ kCRLF @ ''Content-Length: 5'' @ kCRLF @ kCRLF @ ''he'')
      (\<lambda>ok p rest. ok \<and> \<not> HttpParser_gotAll p \<and> rest = ''he''
        \<and> stream_parses p (rest @ ''llo'') (\<lambda>ok p rest. ok \<and> HttpParser_gotAll p \<and> hp_body p = ''hello''))" by code_simp
qed (auto elim!: parses_more simp: text_all)

lemma parser_test_pipeline_passes: parser_test_pipeline
  unfolding parser_test_pipeline_def Let_def
proof (rule parses_text)
  let ?two = "''GET /two HTTP/1.1'' @ kCRLF @ ''Host: local'' @ kCRLF @ kCRLF"
  show "stream_parses HttpParser_new (''GET /one HTTP/1.1'' @ kCRLF @ ''Host: local'' @ kCRLF @ kCRLF @ ?two)
      (\<lambda>ok p rest. ok \<and> HttpParser_gotAll p \<and> hp_path p = ''/one'' \<and> rest = ?two
        \<and> stream_parses (HttpParser_reset p) rest (\<lambda>ok p rest.
            ok \<and> HttpParser_gotAll p \<and> hp_path p = ''/two'' \<and> HttpParser_getHeader p ''host'' = ''local''))" by code_simp
qed (auto elim!: parses_stream simp flip: length_content)

lemma rejects_stream:
  assumes "stream_parses HttpParser_new (concat pieces) (\<lambda>ok p rest. \<not> ok \<and> \<not> HttpParser_gotAll p)"
  shows "rejects pieces"
proof -
  have "Buffer_ok (fold (\<lambda>x b. Buffer_append b x) xs b)
      \<and> Buffer_content (fold (\<lambda>x b. Buffer_append b x) xs b) = Buffer_content b @ concat xs" if "Buffer_ok b" for xs b
    using that by (induction xs arbitrary: b) (simp_all add: append_correct)
  from this [of fresh_buffer pieces] assms show ?thesis
    unfolding rejects_def by (intro parses_stream [where Q = "\<lambda>ok p rest. \<not> ok \<and> \<not> HttpParser_gotAll p"]) simp_all
qed

lemma parser_test_bad_passes: parser_test_bad
proof -
  let ?bad = "\<lambda>pieces. stream_parses HttpParser_new (concat pieces) (\<lambda>ok p rest. \<not> ok \<and> \<not> HttpParser_gotAll p)"
  have "?bad [''GET /bad HTTP/1.1 extra'' @ kCRLF @ kCRLF]" by code_simp
  moreover have "?bad [''GET /bad HTTP/1.1'' @ kCRLF @ ''MissingColon'' @ kCRLF @ kCRLF]" by code_simp
  moreover have "list_all (\<lambda>contentLength. ?bad [''POST /bad HTTP/1.1'' @ kCRLF @ ''Content-Length: '', contentLength, kCRLF @ kCRLF])
      ['''', ''-1'', ''+1'', ''1x'', ''999999999999999999999999999999'']" by code_simp
  moreover have "list_all (\<lambda>headers. ?bad [''POST /bad HTTP/1.1'' @ kCRLF, headers, kCRLF])
      [''Transfer-Encoding: chunked'' @ kCRLF, ''Content-Length: 1'' @ kCRLF @ ''Content-Length: 1'' @ kCRLF]" by code_simp
  ultimately show ?thesis unfolding parser_test_bad_def list_all_iff using rejects_stream by blast
qed

definition http_parser_tests :: bool where
  "http_parser_tests \<longleftrightarrow> parser_test_get \<and> parser_test_post \<and> parser_test_split \<and> parser_test_partial_body
     \<and> parser_test_pipeline \<and> parser_test_bad"

section \<open>\<open>tcp_connection_tests.cpp\<close>\<close>

text \<open>A socket whose peer has written \<open>data\<close>, and one that takes everything.\<close>

definition socket_read :: "bytes \<Rightarrow> nat \<Rightarrow> errno + bytes" where
  "socket_read data cap = Inr (take cap data)"

definition socket_write :: "bytes \<Rightarrow> errno + nat" where
  "socket_write xs = Inr (length xs)"

definition test_connection :: "bytes \<Rightarrow> fd \<Rightarrow> TcpConnection" where
  "test_connection nm socket =
     TcpConnection_setConnectionCallback True (fst (TcpConnection_new nm socket InetAddress_zero InetAddress_zero))"

text \<open>The message callback of the test, on the connection that called it: whether the request was the expected
  one, and what it does.\<close>

definition ping_callback :: "(bytes \<Rightarrow> errno + nat) \<Rightarrow> TcpConnection \<Rightarrow> (bool \<times> TcpConnection \<times> conn_action list) option" where
  "ping_callback write c =
     do {
       (request, buf) \<leftarrow> Buffer_retrieveAllAsString (tc_inputBuffer c);
       let receivedRequest = (request = ''ping'');
       let c1 = c\<lparr>tc_inputBuffer := buf\<rparr>;
       (c2, acts) \<leftarrow> (if receivedRequest then TcpConnection_send True write ''pong'' c1 else Some (c1, []));
       Some (receivedRequest, c2, acts)
     }"

definition tcp_round_trip :: "fd \<Rightarrow> (nat \<Rightarrow> errno + bytes) \<Rightarrow> (bytes \<Rightarrow> errno + nat) \<Rightarrow> bool option" where
  "tcp_round_trip socket readv write =
     do {
       let c0 = TcpConnection_setMessageCallback True (test_connection ''socketpair-test'' socket);
       (c1, acts1) \<leftarrow> TcpConnection_connectEstablished True c0;
       (c2, acts2) \<leftarrow> TcpConnection_handleRead True readv c1;
       (receivedRequest, c3, acts3) \<leftarrow> (if CallMessage \<in> set acts2 then ping_callback write c2 else Some (False, c2, []));
       let responseMatches = (sent_bytes (acts1 @ acts2 @ acts3) = ''pong'');
       (c4, acts4) \<leftarrow> TcpConnection_connectDestroyed True c3;
       Some (receivedRequest \<and> responseMatches)
     }"

text \<open>The second part: another thread queues the destruction of the connection, then a message, a file and a
  half-close; the loop runs them in that order.\<close>

fun run_tasks :: "(bytes \<Rightarrow> errno + nat) \<Rightarrow> conn_task list \<Rightarrow> TcpConnection \<Rightarrow> conn_result" where
  "run_tasks write [] c = Some (c, [])"
| "run_tasks write (t # ts) c =
     do {
       (c1, acts1) \<leftarrow> run_task write t c;
       (c2, acts2) \<leftarrow> run_tasks write ts c1;
       Some (c2, acts1 @ acts2)
     }"

definition tcp_queued_lifetime :: "fd \<Rightarrow> fd \<Rightarrow> (bytes \<Rightarrow> errno + nat) \<Rightarrow> conn_result" where
  "tcp_queued_lifetime socket queuedFile write =
     do {
       (c1, acts1) \<leftarrow> TcpConnection_connectEstablished True (test_connection ''queued-lifetime-test'' socket);
       (c2, acts2) \<leftarrow> TcpConnection_send False write ''queued after close'' c1;
       (c3, acts3) \<leftarrow> TcpConnection_sendFile False queuedFile 1 c2;
       (c4, acts4) \<leftarrow> TcpConnection_shutdown False c3;
       (c5, acts5) \<leftarrow> TcpConnection_connectDestroyed True c4;
       (c6, acts6) \<leftarrow> run_tasks write (queued_tasks (acts2 @ acts3 @ acts4)) c5;
       Some (c6, acts1 @ acts2 @ acts3 @ acts4 @ acts5 @ acts6)
     }"

lemmas test_connection_defs =
  test_connection_def TcpConnection_new_def TcpConnection_setConnectionCallback_def TcpConnection_setMessageCallback_def
  Channel_setErrorCallback_def Channel_setCloseCallback_def Channel_setWriteCallback_def Channel_setReadCallback_def
  Channel_new_def

lemma tcp_queued_lifetime_passes:
  "\<exists>c acts. tcp_queued_lifetime socket queuedFile write = Some (c, acts) \<and> tc_state c = kDisconnected
     \<and> sent_bytes acts = [] \<and> count_list acts (CloseFd queuedFile) = 1"
  by (simp add: tcp_queued_lifetime_def test_connection_defs TcpConnection_connectEstablished_def TcpConnection_send_def
      TcpConnection_sendFile_def TcpConnection_shutdown_def TcpConnection_connectDestroyed_def
      TcpConnection_sendInLoop_def TcpConnection_sendFileInLoop_def TcpConnection_shutdownInLoop_def Let_def)

lemma tcp_round_trip_passes: "tcp_round_trip socket (socket_read ''ping'') socket_write = Some True"
proof -
  let ?c0 = "TcpConnection_setMessageCallback True (test_connection ''socketpair-test'' socket)"
  obtain c1 acts1 where e: "TcpConnection_connectEstablished True ?c0 = Some (c1, acts1)" "sent_bytes acts1 = []"
    "tc_state c1 = kConnected" "\<not> Channel_isWriting (tc_channel c1)" "readableBytes (tc_outputBuffer c1) = 0"
    "tc_inputBuffer c1 = fresh_buffer" "tc_messageCallback c1" "tc_connectionCallback c1" "\<not> tc_writeCompleteCallback c1"
    by (simp add: TcpConnection_connectEstablished_def test_connection_defs Channel_tie_def Channel_isWriting_def
        readableBytes_def Buffer_new_def epoll_bits Let_def)
  have cap: "65536 \<le> readFd_capacity fresh_buffer" by (simp add: readFd_capacity_def extrabuf_size_def Let_def)
  then have rd: "socket_read ''ping'' (readFd_capacity fresh_buffer) = Inr ''ping''" by (simp add: socket_read_def)
  have "length ''ping'' \<le> readFd_capacity fresh_buffer" using cap by simp
  then obtain buf where buf: "Buffer_readFd (socket_read ''ping'') fresh_buffer = (Inr (length ''ping''), buf)" "Buffer_ok buf"
    "Buffer_content buf = ''ping''"
    by (rule readFd_correct [OF Buffer_ok_new [of kInitialSize], of "socket_read ''ping''" "''ping''",
          unfolded Buffer_content_new append_Nil, OF rd])
  let ?c2 = "c1\<lparr>tc_inputBuffer := buf\<rparr>"
  have r: "TcpConnection_handleRead True (socket_read ''ping'') c1 = Some (?c2, [CallMessage])"
    using buf(1) e(6,7) by (simp add: TcpConnection_handleRead_def)
  have "\<exists>buf'. Buffer_retrieveAllAsString buf = Some (''ping'', buf')"
    using buf(2,3) text_peek [OF buf(2), of "readableBytes buf"] length_content [OF buf(2)]
    by (auto simp: Buffer_retrieveAllAsString_def Buffer_retrieveAsString_def Buffer_ok_def buffer_access)
  then obtain buf' where s: "Buffer_retrieveAllAsString buf = Some (''ping'', buf')" ..
  let ?c3 = "?c2\<lparr>tc_inputBuffer := buf'\<rparr>"
  have "TcpConnection_send True socket_write ''pong'' ?c3 = Some (?c3, [Sent ''pong''])"
    using e by (simp add: TcpConnection_send_def TcpConnection_sendInLoop_def sendInLoop_write_def socket_write_def)
  then have cb: "ping_callback socket_write ?c2 = Some (True, ?c3, [Sent ''pong''])" using s by (simp add: ping_callback_def)
  obtain c4 acts4 where "TcpConnection_connectDestroyed True ?c3 = Some (c4, acts4)"
    using e by (simp add: TcpConnection_connectDestroyed_def)
  with e r cb show ?thesis by (simp add: tcp_round_trip_def)
qed

section \<open>\<open>backpressure_tests.cpp\<close>\<close>

definition bp_payload :: bytes where
  "bp_payload = replicate (1024 * 1024) (CHR ''x'')"

text \<open>The connection of the test after \<open>send(payload)\<close>, with the outcome of the direct write.\<close>

definition backpressure_send :: "fd \<Rightarrow> (bytes \<Rightarrow> errno + nat) \<Rightarrow> conn_result" where
  "backpressure_send socket write =
     do {
       (c1, acts1) \<leftarrow> TcpConnection_setOutputBufferWatermarks (8 * 1024) (32 * 1024) True True
                        (test_connection ''backpressure-test'' socket);
       (c2, acts2) \<leftarrow> TcpConnection_connectEstablished True (TcpConnection_setWriteCompleteCallback True c1);
       (c3, acts3) \<leftarrow> TcpConnection_send True write bp_payload c2;
       Some (c3, acts1 @ acts2 @ acts3)
     }"

text \<open>The loop: a turn handles a writable event and then runs the tasks that are queued, which are callbacks only; the
  first turn also runs the high-water callback that \<open>send\<close> queued before \<open>loop()\<close>. The write-complete callback
  quits the loop. \<open>None\<close> is a loop that has not ended within the given number of turns.\<close>

record bp_flags =
  highWaterMarkReached :: bool
  lowWaterMarkReached :: bool
  writeCompleted :: bool

fun bp_callback :: "conn_task \<Rightarrow> bp_flags \<Rightarrow> bp_flags" where
  "bp_callback (HighWaterTask n) fl = fl\<lparr>highWaterMarkReached := True\<rparr>"
| "bp_callback (LowWaterTask n) fl = fl\<lparr>lowWaterMarkReached := True\<rparr>"
| "bp_callback WriteCompleteTask fl = fl\<lparr>writeCompleted := True\<rparr>"
| "bp_callback _ fl = fl"

fun backpressure_loop ::
    "nat \<Rightarrow> (bytes \<Rightarrow> errno + nat) \<Rightarrow> conn_task list \<Rightarrow> bp_flags \<Rightarrow> TcpConnection \<Rightarrow>
     (bp_flags \<times> TcpConnection \<times> conn_action list) option" where
  "backpressure_loop 0 write tasks fl c = None"
| "backpressure_loop (Suc turns) write tasks fl c =
     do {
       (c1, acts1) \<leftarrow> TcpConnection_handleWrite True write (\<lambda>f off cnt. Inr cnt) c;
       let fl1 = fold bp_callback (tasks @ queued_tasks acts1) fl;
       if writeCompleted fl1 then Some (fl1, c1, acts1)
       else do {
         (fl2, c2, acts2) \<leftarrow> backpressure_loop turns write [] fl1 c1;
         Some (fl2, c2, acts1 @ acts2)
       }
     }"

text \<open>The consumer thread on the other socket of the pair: whether it failed, and what it received. \<open>stream\<close> is
  what was written to the first socket and not yet read, \<open>reads\<close> the outcomes of its calls of \<open>read\<close>.\<close>

definition EINTR :: errno where "EINTR = 4"

fun backpressure_consumer :: "(errno + nat) list \<Rightarrow> bytes \<Rightarrow> bytes \<Rightarrow> (bool \<times> bytes) option" where
  "backpressure_consumer [] stream received =
     (if length received < length bp_payload then None else Some (False, received))"
| "backpressure_consumer (r # reads) stream received =
     (if length received < length bp_payload then
        (case r of
           Inr n \<Rightarrow>
             if 0 < n then backpressure_consumer reads (drop n stream) (received @ take n stream)
             else Some (True, received)
         | Inl err \<Rightarrow>
             if err = EAGAIN \<or> err = EWOULDBLOCK \<or> err = EINTR then backpressure_consumer reads stream received
             else Some (True, received))
      else Some (False, received))"

definition backpressure_tests ::
    "fd \<Rightarrow> (bytes \<Rightarrow> errno + nat) \<Rightarrow> (bytes \<Rightarrow> errno + nat) \<Rightarrow> (errno + nat) list \<Rightarrow> nat \<Rightarrow> bool option" where
  "backpressure_tests socket write0 write reads turns =
     do {
       (c1, acts1) \<leftarrow> backpressure_send socket write0;
       (fl, c2, acts2) \<leftarrow> backpressure_loop turns write (queued_tasks acts1)
          \<lparr>highWaterMarkReached = False, lowWaterMarkReached = False, writeCompleted = False\<rparr> c1;
       (consumerFailed, received) \<leftarrow> backpressure_consumer reads (sent_bytes (acts1 @ acts2)) [];
       (c3, acts3) \<leftarrow> TcpConnection_connectDestroyed True c2;
       Some (highWaterMarkReached fl \<and> lowWaterMarkReached fl \<and> writeCompleted fl
             \<and> \<not> consumerFailed \<and> received = bp_payload)
     }"

text \<open>What the kernel promises the reader of a socket whose peer stays open and has written \<open>m\<close> bytes in all: a read
  takes some of the bytes that are left, at most 8192, or is to be tried again, until all are read.\<close>

fun socket_reads :: "(errno + nat) list \<Rightarrow> nat \<Rightarrow> bool" where
  "socket_reads [] m \<longleftrightarrow> m = 0"
| "socket_reads (Inr n # reads) m \<longleftrightarrow> 0 < n \<and> n \<le> 8192 \<and> n \<le> m \<and> socket_reads reads (m - n)"
| "socket_reads (Inl err # reads) m \<longleftrightarrow> (err = EAGAIN \<or> err = EINTR) \<and> socket_reads reads m"

lemma consumer_receives:
  assumes "socket_reads reads (length stream)" "received @ stream = bp_payload"
  shows "backpressure_consumer reads stream received = Some (False, bp_payload)"
  using assms
proof (induction reads stream received rule: backpressure_consumer.induct)
  case (2 r reads stream received)
  show ?case
  proof (cases "length received < length bp_payload")
    case True
    with 2 show ?thesis by (cases r) auto
  next
    case False
    then have "stream = []" using 2(4) by (metis add_diff_cancel_left' diff_is_0_eq length_0_conv length_append not_less)
    with 2(4) False show ?thesis by simp
  qed
qed auto

lemma callbacks_run:
  "highWaterMarkReached (fold bp_callback ts fl) \<longleftrightarrow> highWaterMarkReached fl \<or> (\<exists>n. HighWaterTask n \<in> set ts)"
  "lowWaterMarkReached (fold bp_callback ts fl) \<longleftrightarrow> lowWaterMarkReached fl \<or> (\<exists>n. LowWaterTask n \<in> set ts)"
  "writeCompleted (fold bp_callback ts fl) \<longleftrightarrow> writeCompleted fl \<or> WriteCompleteTask \<in> set ts"
proof (induction ts arbitrary: fl)
  case (Cons t ts)
  { case 1 show ?case by (cases t) (auto simp: Cons) }
  { case 2 show ?case by (cases t) (auto simp: Cons) }
  { case 3 show ?case by (cases t) (auto simp: Cons) }
qed simp_all

text \<open>A writable event leaves the connection above its high mark only with more than the low mark queued, and turns
  \<open>EPOLLOUT\<close> off only with the completion callback.\<close>

lemma handleWrite_file_frame:
  assumes "handleWrite_file sf c = (g, c', acts)"
  shows "tc_aboveHighWaterMark c' = tc_aboveHighWaterMark c" "tc_lowWaterMark c' = tc_lowWaterMark c"
    "tc_outputBuffer c' = tc_outputBuffer c" "tc_channel c' = tc_channel c"
    "tc_writeCompleteCallback c' = tc_writeCompleteCallback c" "tc_connectionCallback c' = tc_connectionCallback c"
    "QueueInLoop t \<notin> set acts"
proof -
  let ?sf = "sf (tc_fileFd c) (tc_fileOffset c) (tc_fileSize c - tc_fileOffset c)"
  show "tc_aboveHighWaterMark c' = tc_aboveHighWaterMark c" "tc_lowWaterMark c' = tc_lowWaterMark c"
    "tc_outputBuffer c' = tc_outputBuffer c" "tc_channel c' = tc_channel c"
    "tc_writeCompleteCallback c' = tc_writeCompleteCallback c" "tc_connectionCallback c' = tc_connectionCallback c"
    "QueueInLoop t \<notin> set acts"
    using assms by (cases ?sf; auto simp: handleWrite_file_def split: if_splits)+
qed

lemma handleWrite_output_frame:
  assumes "handleWrite_output w c = (g, c', acts)"
  shows "tc_channel c' = tc_channel c" "tc_writeCompleteCallback c' = tc_writeCompleteCallback c"
    "tc_connectionCallback c' = tc_connectionCallback c" "QueueInLoop t \<notin> set acts"
  using assms by (auto simp: handleWrite_output_def Let_def split: if_splits sum.splits)

lemma handleWrite_lowMark_frame:
  assumes "handleWrite_lowMark c = (c', acts)"
  shows "tc_channel c' = tc_channel c" "tc_writeCompleteCallback c' = tc_writeCompleteCallback c"
    "tc_connectionCallback c' = tc_connectionCallback c" "QueueInLoop WriteCompleteTask \<notin> set acts"
    "tc_aboveHighWaterMark c' \<Longrightarrow> tc_lowWaterMark c' < readableBytes (tc_outputBuffer c')"
  using assms by (auto simp: handleWrite_lowMark_def Let_def split: if_splits)

lemma handleWrite_done_frame:
  assumes "handleWrite_done True c = Some (c', acts)"
  shows "tc_aboveHighWaterMark c' = tc_aboveHighWaterMark c" "tc_lowWaterMark c' = tc_lowWaterMark c"
    "tc_outputBuffer c' = tc_outputBuffer c" "tc_writeCompleteCallback c' = tc_writeCompleteCallback c"
    "tc_connectionCallback c' = tc_connectionCallback c"
    "Channel_isWriting (tc_channel c') \<or> \<not> Channel_isWriting (tc_channel c)
     \<or> \<not> tc_writeCompleteCallback c \<or> QueueInLoop WriteCompleteTask \<in> set acts"
    "Channel_isWriting (tc_channel c') \<Longrightarrow> acts = []"
  using assms
  by (auto simp: handleWrite_done_def TcpConnection_shutdownInLoop_def Let_def Channel_isWriting_def split: if_splits)

lemma writable_event:
  assumes ok: "conn_ok c" and wr: "writing c" and w: "write_progress w" and sf: "sendfile_progress sf"
    and r: "TcpConnection_handleWrite True w sf c = Some (c', acts)" and cb: "tc_writeCompleteCallback c"
  shows "tc_writeCompleteCallback c'" "tc_connectionCallback c' = tc_connectionCallback c"
    and "tc_aboveHighWaterMark c' \<Longrightarrow> tc_lowWaterMark c' < readableBytes (tc_outputBuffer c')"
    and "\<not> writing c' \<Longrightarrow> QueueInLoop WriteCompleteTask \<in> set acts"
    and "writing c' \<Longrightarrow> QueueInLoop WriteCompleteTask \<notin> set acts"
proof -
  obtain g1 c1 a1 where o: "handleWrite_output w c = (g1, c1, a1)" by (metis prod_cases3)
  obtain c2 a2 where l: "handleWrite_lowMark c1 = (c2, a2)" by fastforce
  obtain g3 c3 a3 where f: "handleWrite_file sf c2 = (g3, c3, a3)" by (metis prod_cases3)
  have g: "g1" using output_progress [OF ok w o] by simp
  have g3: "g3"
  proof (cases "readableBytes (tc_outputBuffer c2) = 0 \<and> 0 \<le> tc_fileFd c2")
    case True
    obtain n where "sf (tc_fileFd c2) (tc_fileOffset c2) (tc_fileSize c2 - tc_fileOffset c2) = Inr n"
      using sf unfolding sendfile_progress_def by blast
    with f True show ?thesis by (auto simp: handleWrite_file_def split: if_splits)
  qed (use f in \<open>auto simp: handleWrite_file_def split: if_splits\<close>)
  from r o l f g g3 wr obtain a4 where d: "handleWrite_done True c3 = Some (c', a4)" and acts: "acts = a1 @ a2 @ a3 @ a4"
    by (auto simp: TcpConnection_handleWrite_def writing_def split: prod.splits)
  note frames = handleWrite_output_frame [OF o] handleWrite_lowMark_frame [OF l] handleWrite_file_frame [OF f] handleWrite_done_frame [OF d]
  show "tc_writeCompleteCallback c'" "tc_connectionCallback c' = tc_connectionCallback c" using frames cb by simp_all
  show "tc_aboveHighWaterMark c' \<Longrightarrow> tc_lowWaterMark c' < readableBytes (tc_outputBuffer c')" using frames by simp
  show "\<not> writing c' \<Longrightarrow> QueueInLoop WriteCompleteTask \<in> set acts"
    using frames wr cb by (auto simp: acts writing_def)
  show "writing c' \<Longrightarrow> QueueInLoop WriteCompleteTask \<notin> set acts"
    using handleWrite_output_frame(4) [OF o] handleWrite_lowMark_frame(4) [OF l] handleWrite_file_frame(7) [OF f]
      handleWrite_done_frame(7) [OF d] by (simp add: acts writing_def)
qed

lemma length_bp_payload: "length bp_payload = 1024 * 1024"
  unfolding bp_payload_def by (rule length_replicate)

text \<open>The connection of the test when it is established.\<close>

lemma backpressure_established:
  obtains c1 c2 acts2 where
    "TcpConnection_setOutputBufferWatermarks (8 * 1024) (32 * 1024) True True (test_connection nm socket) = Some (c1, [])"
    "TcpConnection_connectEstablished True (TcpConnection_setWriteCompleteCallback True c1) = Some (c2, acts2)"
    "conn_ok c2" "tc_state c2 = kConnected" "\<not> Channel_isWriting (tc_channel c2)" "\<not> tc_aboveHighWaterMark c2"
    "marks_set (8 * 1024) (32 * 1024) c2" "tc_writeCompleteCallback c2" "tc_connectionCallback c2" "sent_bytes acts2 = []"
    "tc_outputBuffer c2 = fresh_buffer" "QueueInLoop WriteCompleteTask \<notin> set acts2"
proof -
  let ?c1 = "(test_connection nm socket)\<lparr>tc_lowWaterMark := 8 * 1024, tc_highWaterMark := 32 * 1024,
      tc_lowWaterMarkCallback := True, tc_highWaterMarkCallback := True\<rparr>"
  let ?c = "TcpConnection_setWriteCompleteCallback True ?c1"
  have 1: "TcpConnection_setOutputBufferWatermarks (8 * 1024) (32 * 1024) True True (test_connection nm socket) = Some (?c1, [])"
    by (simp add: TcpConnection_setOutputBufferWatermarks_def)
  have st: "tc_state ?c = kConnecting" "tc_connectionCallback ?c"
    by (simp_all add: TcpConnection_setWriteCompleteCallback_def test_connection_defs)
  then obtain c2 acts2 where 2: "TcpConnection_connectEstablished True ?c = Some (c2, acts2)"
    by (simp add: TcpConnection_connectEstablished_def Let_def)
  have "conn_ok ?c"
    by (simp add: conn_ok_def pending_def TcpConnection_setWriteCompleteCallback_def test_connection_defs)
  from connectEstablished_trans [OF this 2] have "conn_ok c2" by (rule conn_trans_ok)
  with 1 2 that show thesis
    by (auto simp: TcpConnection_connectEstablished_def TcpConnection_setWriteCompleteCallback_def test_connection_defs
        Channel_tie_def Channel_isWriting_def marks_set_def epoll_bits Let_def)
qed

lemma backpressure_send_queues:
  assumes "write_ok w" "w bp_payload = Inr n" "n + 32 * 1024 \<le> 1024 * 1024"
  obtains c acts where "backpressure_send socket w = Some (c, acts)" "conn_ok c" "writing c" "tc_state c = kConnected"
    "tc_aboveHighWaterMark c" "marks_set (8 * 1024) (32 * 1024) c" "tc_writeCompleteCallback c" "tc_connectionCallback c"
    "sent_bytes acts @ pending c = bp_payload" "QueueInLoop (HighWaterTask (1024 * 1024 - n)) \<in> set acts"
    "QueueInLoop WriteCompleteTask \<notin> set acts"
proof -
  obtain c1 c2 acts2 where e: "TcpConnection_setOutputBufferWatermarks (8 * 1024) (32 * 1024) True True
      (test_connection ''backpressure-test'' socket) = Some (c1, [])"
    "TcpConnection_connectEstablished True (TcpConnection_setWriteCompleteCallback True c1) = Some (c2, acts2)"
    and c2: "conn_ok c2" "tc_state c2 = kConnected" "\<not> Channel_isWriting (tc_channel c2)" "\<not> tc_aboveHighWaterMark c2"
    "marks_set (8 * 1024) (32 * 1024) c2" "tc_writeCompleteCallback c2" "tc_connectionCallback c2"
    and a2: "sent_bytes acts2 = []" and out: "tc_outputBuffer c2 = fresh_buffer"
    and nw: "QueueInLoop WriteCompleteTask \<notin> set acts2"
    by (rule backpressure_established)
  let ?rest = "drop n bp_payload"
  have len: "length ?rest = 1024 * 1024 - n" by (simp add: length_bp_payload)
  have pend: "readableBytes (tc_outputBuffer c2) = 0" by (simp add: out readableBytes_def Buffer_new_def)
  have pending: "pending c2 = []" by (simp add: out pending_def)
  have wr: "sendInLoop_write w bp_payload c2 = (n, 1024 * 1024 - n, False, [Sent (take n bp_payload)])"
    using c2(3) pend assms(2,3) by (simp add: sendInLoop_write_def length_bp_payload)
  have app: "readableBytes (Buffer_append fresh_buffer ?rest) = 1024 * 1024 - n"
    using length_content [OF fresh_append(1), of ?rest] fresh_append(2) [of ?rest] len by simp
  obtain c3 acts3 where q: "sendInLoop_queue ?rest c2 = (c3, acts3)" by fastforce
  have c3: "writing c3" "tc_state c3 = kConnected" "tc_aboveHighWaterMark c3" "marks_set (8 * 1024) (32 * 1024) c3"
    "tc_writeCompleteCallback c3" "tc_connectionCallback c3" "QueueInLoop (HighWaterTask (1024 * 1024 - n)) \<in> set acts3"
    "QueueInLoop WriteCompleteTask \<notin> set acts3"
    using q c2 assms(3) out app
    by (auto simp: sendInLoop_queue_def Let_def marks_set_def writing_def Channel_isWriting_def split: if_splits)
  have send: "TcpConnection_sendInLoop True w bp_payload c2 = Some (c3, [Sent (take n bp_payload)] @ acts3)"
    using wr q c2(2) assms(3) by (simp add: TcpConnection_sendInLoop_def)
  have "takes_message w bp_payload c2" using c2(2) assms(2) by (simp add: takes_message_def)
  with sendInLoop_trans [OF c2(1) _ assms(1) send] c2(2)
  have tr: "conn_trans bp_payload [] c2 ([Sent (take n bp_payload)] @ acts3) c3" by simp
  show thesis
  proof (rule that [OF _ _ c3(1-6)])
    show "backpressure_send socket w = Some (c3, acts2 @ [Sent (take n bp_payload)] @ acts3)"
      using e send c2(2) by (simp add: backpressure_send_def TcpConnection_send_def)
    show "conn_ok c3" by (rule conn_trans_ok [OF tr])
    show "sent_bytes (acts2 @ [Sent (take n bp_payload)] @ acts3) @ pending c3 = bp_payload"
      using tr pending a2 by (simp add: conn_trans_def)
  qed (use c3(7,8) nw in simp_all)
qed

lemma in_queued_tasks: "t \<in> set (queued_tasks acts) \<longleftrightarrow> QueueInLoop t \<in> set acts"
  by (induction acts) (auto simp: queued_tasks_def split: conn_action.splits)

lemma in_marks_low: "(False, n) \<in> set (marks acts) \<Longrightarrow> QueueInLoop (LowWaterTask n) \<in> set acts"
proof (induction acts)
  case (Cons a acts)
  then show ?case
  proof (cases a)
    case (QueueInLoop t)
    with Cons show ?thesis by (cases t) (auto simp: marks_cons)
  qed (auto simp: marks_cons)
qed simp

lemma low_mark_reached:
  assumes "alternates low high True (marks acts) False"
  shows "\<exists>n. LowWaterTask n \<in> set (queued_tasks acts)"
proof -
  have "\<exists>n. (False, n) \<in> set (marks acts)" using assms by (cases "(low, high, True, marks acts, False)" rule: alternates.cases) auto
  then show ?thesis using in_marks_low in_queued_tasks by blast
qed

lemma loop_delivers:
  assumes "conn_ok c" "writing c" "write_ok w" "write_progress w" "tc_writeCompleteCallback c" "marks_set low high c"
    and "WriteCompleteTask \<notin> set tasks" "\<not> writeCompleted fl"
  shows "\<exists>turns fl' c' acts. backpressure_loop turns w tasks fl c = Some (fl', c', acts)
    \<and> sent_bytes acts = pending c \<and> tc_state c' = tc_state c \<and> tc_connectionCallback c' = tc_connectionCallback c
    \<and> writeCompleted fl' \<and> (highWaterMarkReached fl \<or> (\<exists>n. HighWaterTask n \<in> set tasks) \<longrightarrow> highWaterMarkReached fl')
    \<and> (lowWaterMarkReached fl \<or> tc_aboveHighWaterMark c \<longrightarrow> lowWaterMarkReached fl')"
  using assms(1,2,5-8)
proof (induction "backlog c" arbitrary: c tasks fl rule: less_induct)
  case less
  let ?sf = "\<lambda>f off cnt. Inr cnt :: errno + nat"
  have sf: "sendfile_progress ?sf" by (simp add: sendfile_progress_def)
  obtain c1 a1 where r: "TcpConnection_handleWrite True w ?sf c = Some (c1, a1)" "conn_ok c1" "tc_state c1 = tc_state c"
    "pending c = sent_bytes a1 @ pending c1" and step: "drained c1 \<or> writing c1 \<and> backlog c1 < backlog c"
    by (rule round_progress [OF less.prems(1,2) assms(3,4) sf]) blast
  note ev = writable_event [OF less.prems(1,2) assms(4) sf r(1) less.prems(3)]
  have m: "marks_set low high c1" "alternates low high (tc_aboveHighWaterMark c) (marks a1) (tc_aboveHighWaterMark c1)"
    using handleWrite_marks [OF less.prems(4) r(1)] by (simp_all add: marks_trans_def)
  define fl1 where "fl1 = fold bp_callback (tasks @ queued_tasks a1) fl"
  have wc: "writeCompleted fl1 \<longleftrightarrow> \<not> writing c1"
    using less.prems(5,6) ev(4,5) by (auto simp: fl1_def callbacks_run(3) in_queued_tasks simp del: fold_append)
  have high: "highWaterMarkReached fl1" if "highWaterMarkReached fl \<or> (\<exists>n. HighWaterTask n \<in> set tasks)"
    using that by (auto simp: fl1_def callbacks_run(1) simp del: fold_append)
  have low: "lowWaterMarkReached fl1 \<or> tc_aboveHighWaterMark c1" if "lowWaterMarkReached fl \<or> tc_aboveHighWaterMark c"
    using that low_mark_reached [of low high a1] m(2)
    by (cases "tc_aboveHighWaterMark c"; cases "tc_aboveHighWaterMark c1") (auto simp: fl1_def callbacks_run(2) simp del: fold_append)
  show ?case
  proof (cases "writing c1")
    case False
    with step have d: "pending c1 = []" by (auto simp: drained_def)
    then have "\<not> tc_aboveHighWaterMark c1" using ev(3) r(2) by (auto simp: readable_pending conn_ok_def)
    moreover have "backpressure_loop 1 w tasks fl c = Some (fl1, c1, a1)"
      using r(1) wc False by (simp add: fl1_def)
    ultimately show ?thesis using r(3,4) d ev(2) wc False high low by fastforce
  next
    case True
    with step have lt: "backlog c1 < backlog c" by (auto simp: drained_def)
    obtain turns fl' c' acts where IH: "backpressure_loop turns w [] fl1 c1 = Some (fl', c', acts)"
      "sent_bytes acts = pending c1" "tc_state c' = tc_state c1" "tc_connectionCallback c' = tc_connectionCallback c1"
      "writeCompleted fl'" "highWaterMarkReached fl1 \<longrightarrow> highWaterMarkReached fl'"
      "lowWaterMarkReached fl1 \<or> tc_aboveHighWaterMark c1 \<longrightarrow> lowWaterMarkReached fl'"
      using less.hyps [OF lt r(2) True ev(1) m(1), of "[]" fl1] wc True by auto
    have "backpressure_loop (Suc turns) w tasks fl c = Some (fl', c', a1 @ acts)"
      using r(1) wc True IH(1) by (simp add: fl1_def)
    then show ?thesis using IH r(3,4) ev(2) high low by (intro exI [of _ "Suc turns"] exI [of _ fl'] exI [of _ c'] exI [of _ "a1 @ acts"]) auto
  qed
qed

text \<open>The four deterministic test programs pass on the model: every requirement of \<open>buffer_tests.cpp\<close>,
  \<open>channel_tests.cpp\<close> and \<open>http_parser_tests.cpp\<close> holds; in \<open>tcp_connection_tests.cpp\<close> a peer's \<open>ping\<close> reaches
  the message callback and exactly \<open>pong\<close> goes out, and a message, a file and a half-close queued behind the
  destruction of their connection put nothing on the socket and close the queued file exactly once.\<close>

lemma unit_tests_pass:
  "buffer_tests \<and> channel_tests socket \<and> http_parser_tests
   \<and> tcp_round_trip socket (socket_read ''ping'') socket_write = Some True
   \<and> (\<exists>c acts. tcp_queued_lifetime socket queuedFile write = Some (c, acts) \<and> tc_state c = kDisconnected
        \<and> sent_bytes acts = [] \<and> count_list acts (CloseFd queuedFile) = 1)"
  unfolding http_parser_tests_def
  by (intro conjI buffer_tests_pass channel_tests_pass parser_test_get_passes parser_test_post_passes
      parser_test_split_passes parser_test_partial_body_passes parser_test_pipeline_passes parser_test_bad_passes
      tcp_round_trip_passes tcp_queued_lifetime_passes)

text \<open>C39. The back-pressure test returns and succeeds: when the direct write of the megabyte takes few enough bytes that
  32K stay queued, every later write of the writable connection makes progress, and the consumer's reads return what was written
  or are to be tried again, then the loop ends after finitely many turns, the high-water, low-water and
  write-complete callbacks have run, the consumer has not failed and has received exactly the payload.\<close>

theorem backpressure_tests_pass:
  assumes "write_ok write0" "write0 bp_payload = Inr n" "n + 32 * 1024 \<le> 1024 * 1024" "write_ok write" "write_progress write"
    and "socket_reads reads (1024 * 1024)"
  shows "\<exists>turns. backpressure_tests socket write0 write reads turns = Some True"
proof -
  obtain c1 acts1 where s: "backpressure_send socket write0 = Some (c1, acts1)" "conn_ok c1" "writing c1" "tc_state c1 = kConnected"
    "tc_aboveHighWaterMark c1" "marks_set (8 * 1024) (32 * 1024) c1" "tc_writeCompleteCallback c1" "tc_connectionCallback c1"
    "sent_bytes acts1 @ pending c1 = bp_payload" "QueueInLoop (HighWaterTask (1024 * 1024 - n)) \<in> set acts1"
    "QueueInLoop WriteCompleteTask \<notin> set acts1"
    by (rule backpressure_send_queues [OF assms(1-3)])
  let ?fl = "\<lparr>highWaterMarkReached = False, lowWaterMarkReached = False, writeCompleted = False\<rparr>"
  obtain turns fl c2 acts2 where l: "backpressure_loop turns write (queued_tasks acts1) ?fl c1 = Some (fl, c2, acts2)"
    "sent_bytes acts2 = pending c1" "tc_state c2 = kConnected" "tc_connectionCallback c2"
    "writeCompleted fl" "highWaterMarkReached fl" "lowWaterMarkReached fl"
    using loop_delivers [OF s(2,3) assms(4,5) s(7,6), of "queued_tasks acts1" ?fl] s(4,5,8,10,11)
    by (auto simp: in_queued_tasks)
  have sent: "sent_bytes (acts1 @ acts2) = bp_payload" using s(9) l(2) by simp
  have "backpressure_consumer reads bp_payload [] = Some (False, bp_payload)"
    by (rule consumer_receives) (use assms(6) in \<open>simp_all add: length_bp_payload\<close>)
  moreover obtain c3 acts3 where "TcpConnection_connectDestroyed True c2 = Some (c3, acts3)"
    using l(3,4) by (simp add: TcpConnection_connectDestroyed_def)
  ultimately have "backpressure_tests socket write0 write reads turns = Some True"
    using s(1) l(1,5-7) sent by (simp add: backpressure_tests_def)
  then show ?thesis ..
qed

lemma min_write: "write_ok (\<lambda>xs. Inr (min n (length xs)))" "0 < n \<Longrightarrow> write_progress (\<lambda>xs. Inr (min n (length xs)))"
  by (simp_all add: write_ok_def write_progress_def)

lemma full_reads: "socket_reads (replicate k (Inr 8192)) (k * 8192)"
  by (induction k) simp_all

text \<open>A kernel that takes 64K at first and then 4K at a time, and a reader that has to try again once.\<close>

theorem backpressure_tests_pass_witness:
  "\<exists>turns. backpressure_tests 5 (\<lambda>xs. Inr (min 65536 (length xs))) (\<lambda>xs. Inr (min 4096 (length xs)))
     (Inl EAGAIN # replicate 128 (Inr 8192)) turns = Some True"
proof (rule backpressure_tests_pass [where n = 65536])
  show "Inr (min 65536 (length bp_payload)) = Inr 65536" unfolding length_bp_payload by simp
  show "socket_reads (Inl EAGAIN # replicate 128 (Inr 8192)) (1024 * 1024)" using full_reads [of 128] by simp
qed (simp_all add: min_write)

end
