(* ===== verification/TimerTests.thy ===== *)
theory TimerTests
  imports EventLoop
begin

text \<open>
  \<open>src/tests/timer_tests.cpp\<close> replayed on the model of the loop's timer interface. Every reading of the clock and the
  moments at which the loop wakes are parameters; a turn of the loop is a call of the timer queue's \<open>handleRead\<close>.
\<close>

section \<open>The test\<close>

text \<open>The doubles of the test, and a steady clock that shows a number of microseconds.\<close>

definition s_005 :: f64 where "s_005 = Finite 3602879701896397 (-56)"
definition s_002 :: f64 where "s_002 = Finite 5764607523034235 (-58)"
definition s_0125 :: f64 where "s_0125 = Finite 1 (-3)"
definition s_018 :: f64 where "s_018 = Finite 3242591731706757 (-54)"
definition s_001 :: f64 where "s_001 = Finite 5764607523034235 (-59)"

definition steady :: "int \<Rightarrow> clock" where
  "steady now = Some (now div 1000000, now mod 1000000 * 1000)"

text \<open>The calls before \<open>loop()\<close> on the loop's thread 1, the \<open>i\<close>-th of which reads \<open>clock i\<close>: the answer to the repetition without an interval, the ids of the
  two repeating timers, of the early check and of the two one-shot timers that cancel and quit, and the loop.\<close>

definition timer_tests_setup :: "(nat \<Rightarrow> int) \<Rightarrow> TimerId \<times> TimerId \<times> TimerId \<times> TimerId \<times> TimerId \<times> TimerId \<times> EventLoop" where
  "timer_tests_setup clock =
     (let l0 = fst (EventLoop_new 1 5 6);
          (zero, l1, _) = EventLoop_runEvery unat 1 (steady (clock 0)) (Finite 0 0) (Some 0) l0;
          (repeatingTimer, l2, _) = EventLoop_runEvery unat 1 (steady (clock 1)) s_005 (Some 1) l1;
          (canceledTimer, l3, _) = EventLoop_runEvery unat 1 (steady (clock 2)) s_002 (Some 2) l2;
          (early, l4, _) = EventLoop_runAfter unat 1 (steady (clock 3)) s_002 (Some 3) l3;
          (cancels, l5, _) = EventLoop_runAfter unat 1 (steady (clock 4)) s_0125 (Some 4) l4;
          (quits, l6, _) = EventLoop_runAfter unat 1 (steady (clock 5)) s_018 (Some 5) l5
      in (zero, repeatingTimer, canceledTimer, early, cancels, quits, l6))"

text \<open>The second thread queues the cancellation and a new timer; the loop runs both at the time \<open>now\<close>.\<close>

definition timer_tests_submit :: "int \<Rightarrow> TimerId \<Rightarrow> EventLoop \<Rightarrow> TimerId \<times> EventLoop" where
  "timer_tests_submit now canceledTimer l =
     (let (l1, ts1) = EventLoop_cancel 2 canceledTimer l;
          (i, l2, ts2) = EventLoop_runAfter unat 2 (steady now) s_001 (Some 6) l1
      in (i, l2\<lparr>el_timerQueue := fold (timer_task_do (steady now)) (ts1 @ ts2) (el_timerQueue l2)\<rparr>))"

text \<open>The loop: a turn \<open>(late, busy)\<close> wakes \<open>late\<close> microseconds after the earliest expiration and runs \<open>handleRead\<close>,
  which sees the clock \<open>busy\<close> microseconds later when it starts a repeating timer again; the callback of \<open>cancels\<close> cancels the repeating timer and that of \<open>quits\<close> ends the loop. The result is the time of the
  last turn and the timers fired.\<close>

fun timer_tests_loop ::
    "(int \<times> int) list \<Rightarrow> TimerId \<Rightarrow> TimerId \<Rightarrow> TimerId \<Rightarrow> TimerQueue \<Rightarrow> (int \<times> TimerId list) option" where
  "timer_tests_loop [] repeatingTimer cancels quits q = None"
| "timer_tests_loop ((late, busy) # lates) repeatingTimer cancels quits q =
     (case tq_timers q of
        [] \<Rightarrow> None
      | (expiration, _) # _ \<Rightarrow>
          let now = expiration + late;
              behave = (\<lambda>timer. if timer = unat cancels then [CancelTimer repeatingTimer] else []);
              (q1, fired) = TimerQueue_handleRead unat (steady now) behave (\<lambda>_. steady (now + busy)) q
          in if quits \<in> set fired then Some (now, fired)
             else map_option (\<lambda>(finished, more). (finished, fired @ more)) (timer_tests_loop lates repeatingTimer cancels quits q1))"

definition timer_tests :: "int \<Rightarrow> (nat \<Rightarrow> int) \<Rightarrow> int \<Rightarrow> (int \<times> int) list \<Rightarrow> bool" where
  "timer_tests startedAt clock late lates \<longleftrightarrow>
     (case timer_tests_setup clock of
        (zero, repeatingTimer, canceledTimer, early, cancels, quits, l1) \<Rightarrow>
          (let (crossThread, l2) = timer_tests_submit (startedAt + 5000 + late) canceledTimer l1 in
           case timer_tests_loop lates repeatingTimer cancels quits (el_timerQueue l2) of
             None \<Rightarrow> False
           | Some (finished, fired) \<Rightarrow>
               zero = 0
               \<and> early \<in> set fired \<and> repeatingTimer \<notin> set (takeWhile (\<lambda>i. i \<noteq> early) fired)
               \<and> crossThread \<in> set fired \<and> canceledTimer \<notin> set fired
               \<and> count_list fired repeatingTimer = 2 \<and> 170000 \<le> finished - startedAt))"

section \<open>Steps of the run\<close>

lemma bit_len_eq: "2 ^ k \<le> n \<Longrightarrow> n < 2 ^ Suc k \<Longrightarrow> bit_len n = Suc k"
proof (induction k arbitrary: n)
  case 0
  then have "n = 1" by simp
  then show ?case by (simp add: bit_len.simps)
next
  case (Suc k)
  have "2 ^ k \<le> n div 2" "n div 2 < 2 ^ Suc k" using Suc.prems by (auto simp: less_mult_imp_div_less)
  then have "bit_len (n div 2) = Suc k" by (rule Suc.IH)
  moreover have "n \<noteq> 0" using Suc.prems(1) by (metis le_zero_eq power_not_zero zero_neq_numeral)
  ultimately show ?case by (subst bit_len.simps) simp
qed

lemma test_bit_lens:
  "bit_len 3602879701896397000000 = Suc 71" "bit_len 5764607523034235000000 = Suc 72" "bit_len 1000000 = Suc 19"
  "bit_len 3242591731706757000000 = Suc 71"
  by (rule bit_len_eq; simp)+

lemmas f64_eval = secondsToMicroseconds_def f64_le_0_def f64_ge_int_def f64_mul_int_def f64_trunc_def round_at_def
  INT64_MAX_def kMicrosecondsPerSecond_def test_bit_lens

lemma test_micros:
  "secondsToMicroseconds s_005 = 50000" "secondsToMicroseconds s_002 = 20000" "secondsToMicroseconds s_0125 = 125000"
  "secondsToMicroseconds s_018 = 180000" "secondsToMicroseconds s_001 = 10000" "secondsToMicroseconds (Finite 0 0) = 0"
  by (simp_all add: s_005_def s_002_def s_0125_def s_018_def s_001_def f64_eval)

lemma test_signs:
  "isfinite s_005" "isfinite s_002" "isfinite s_0125" "isfinite s_018" "isfinite s_001"
  "f64_greater_0 s_005" "f64_greater_0 s_002"
  "\<not> f64_less_0 s_005" "\<not> f64_less_0 s_002" "\<not> f64_less_0 s_0125" "\<not> f64_less_0 s_018" "\<not> f64_less_0 s_001"
  "\<not> f64_le_0 s_005" "\<not> f64_le_0 s_002"
  "isfinite (Finite 0 0)" "f64_le_0 (Finite 0 0)" "\<not> f64_less_0 (Finite 0 0)" "\<not> f64_greater_0 (Finite 0 0)"
  by (simp_all add: s_005_def s_002_def s_0125_def s_018_def s_001_def isfinite_def f64_greater_0_def f64_less_0_def f64_le_0_def)

lemma steady_now: "monotonicMicroseconds (steady now) = now"
proof -
  have "now mod 1000000 * 1000 div 1000 = now mod 1000000" by simp
  then show ?thesis by (simp add: steady_def monotonicMicroseconds_def kMicrosecondsPerSecond_def)
qed

text \<open>The members of a queue, and what adding a timer on the loop thread does to them.\<close>

definition queue_is ::
    "TimerQueue \<Rightarrow> TimerId \<Rightarrow> (int \<times> addr) list \<Rightarrow> (addr \<rightharpoonup> Timer) \<Rightarrow> (TimerId \<rightharpoonup> addr) \<Rightarrow> bool" where
  "queue_is q n timers heap active \<longleftrightarrow>
     tq_nextTimerId q = n \<and> tq_timers q = timers \<and> tq_heap q = heap \<and> tq_active q = active"

abbreviation test_timer :: "TimerId \<Rightarrow> f64 \<Rightarrow> int \<Rightarrow> Timer" where
  "test_timer i interval e \<equiv> (Timer_new i (unat i) interval)\<lparr>tm_expiration := e\<rparr>"

lemma addTimer_on_loop:
  assumes "queue_is q i timers heap active" "active i = None" "now < 2 ^ 62" "secondsToMicroseconds delay < 2 ^ 61"
    "isfinite delay" "\<not> f64_less_0 delay" "isfinite iv" "\<not> f64_less_0 iv"
  obtains q' where "TimerQueue_addTimer unat True (steady now) (Some (unat i)) delay iv q = (i, q', [])"
    "queue_is q' (i + 1) (insort_insert (now + secondsToMicroseconds delay, unat i) timers)
       (heap(unat i \<mapsto> test_timer i iv (now + secondsToMicroseconds delay))) (active(i \<mapsto> unat i))"
proof -
  have "saturating_after now (secondsToMicroseconds delay) = now + secondsToMicroseconds delay"
    using assms(3,4) by (simp add: saturating_after_def INT64_MAX_def)
  with assms that show thesis
    by (simp add: TimerQueue_addTimer_def TimerQueue_addTimerInLoop_def TimerQueue_resetTimerfd_def steady_now Let_def
        Timer_new_def timer_at_def set_timer_def queue_is_def)
qed

text \<open>What a turn does in which only the first timer is due: a one-shot timer, one whose callback cancels another, a
  repeating timer.\<close>

lemma only_first_due:
  assumes "tq_timers q = (e, a) # rest" "e \<le> now" "\<forall>x\<in>set rest. now < fst x"
  shows "TimerQueue_handleRead unat (steady now) behave restart q =
    (let (q2, fired) = handleRead_fire unat behave [a] (q\<lparr>tq_timers := rest\<rparr>); q3 = handleRead_restart restart [a] q2
     in (if tq_timers q3 \<noteq> [] then TimerQueue_resetTimerfd (fst (hd (tq_timers q3))) q3 else q3, fired))"
proof -
  have "takeWhile (\<lambda>x. fst x \<le> now) rest = []" "dropWhile (\<lambda>x. fst x \<le> now) rest = rest"
    using assms(3) by (cases rest; simp)+
  then show ?thesis unfolding TimerQueue_handleRead_def assms(1) steady_now Let_def using assms(2) by simp
qed

lemma timers_reset:
  "tq_timers (TimerQueue_resetTimerfd e q) = tq_timers q" "tq_heap (TimerQueue_resetTimerfd e q) = tq_heap q"
  "tq_active (TimerQueue_resetTimerfd e q) = tq_active q"
  by (simp_all add: TimerQueue_resetTimerfd_def)

lemmas turn_simps = timers_reset timer_at_def set_timer_def Let_def

lemma turn_one_shot:
  assumes "tq_timers q = (e, a) # rest" "e \<le> now" "\<forall>x\<in>set rest. now < fst x" "tq_heap q a = Some t"
    "\<not> tm_canceled t" "\<not> tm_repeating t" "tq_active q (tm_id t) = Some a" "behave a = []"
  obtains q' where "TimerQueue_handleRead unat (steady now) behave restart q = (q', [tm_id t])" "tq_timers q' = rest"
    "tq_heap q' = tq_heap q" "tq_active q' = (tq_active q)(tm_id t := None)"
proof (rule that)
  let ?r = "TimerQueue_handleRead unat (steady now) behave restart q"
  have "snd ?r = [tm_id t]" using assms(4-) by (simp add: only_first_due [OF assms(1-3)] turn_simps)
  then show "?r = (fst ?r, [tm_id t])" by (metis prod.collapse)
  show "tq_timers (fst ?r) = rest" "tq_heap (fst ?r) = tq_heap q" "tq_active (fst ?r) = (tq_active q)(tm_id t := None)"
    using assms(4-) by (simp_all add: only_first_due [OF assms(1-3)] turn_simps)
qed

lemma turn_repeating:
  assumes "tq_timers q = (e, a) # rest" "e \<le> now" "\<forall>x\<in>set rest. now < fst x" "tq_heap q a = Some t"
    "\<not> tm_canceled t" "tm_repeating t" "tq_active q (tm_id t) = Some a" "behave a = []"
    "again < 2 ^ 62" "tm_interval t < 2 ^ 61"
  obtains q' where "TimerQueue_handleRead unat (steady now) behave (\<lambda>_. steady again) q = (q', [tm_id t])"
    "tq_timers q' = insort_insert (again + tm_interval t, a) rest"
    "tq_heap q' = (tq_heap q)(a \<mapsto> t\<lparr>tm_expiration := again + tm_interval t\<rparr>)" "tq_active q' = tq_active q"
proof (rule that)
  let ?r = "TimerQueue_handleRead unat (steady now) behave (\<lambda>_. steady again) q"
  have sat: "saturating_after again (tm_interval t) = again + tm_interval t"
    using assms(9,10) by (simp add: saturating_after_def INT64_MAX_def)
  have "snd ?r = [tm_id t]" using assms(4-8) by (simp add: only_first_due [OF assms(1-3)] turn_simps)
  then show "?r = (fst ?r, [tm_id t])" by (metis prod.collapse)
  show "tq_timers (fst ?r) = insort_insert (again + tm_interval t, a) rest" "tq_active (fst ?r) = tq_active q"
    "tq_heap (fst ?r) = (tq_heap q)(a \<mapsto> t\<lparr>tm_expiration := again + tm_interval t\<rparr>)"
    using assms(4-8) by (simp_all add: only_first_due [OF assms(1-3)] turn_simps steady_now sat)
qed

lemma cancel_effect:
  assumes "tq_active q i = Some b" "tq_heap q b = Some u" "(tm_expiration u, b) \<in> set (tq_timers q)"
  shows "tq_timers (TimerQueue_cancelInLoop i q) = remove1 (tm_expiration u, b) (tq_timers q)"
    "tq_heap (TimerQueue_cancelInLoop i q) = (tq_heap q)(b \<mapsto> u\<lparr>tm_canceled := True\<rparr>)"
    "tq_active (TimerQueue_cancelInLoop i q) = (tq_active q)(i := None)"
    "tq_nextTimerId (TimerQueue_cancelInLoop i q) = tq_nextTimerId q"
  using assms by (auto simp: TimerQueue_cancelInLoop_def turn_simps TimerQueue_resetTimerfd_def)

lemma turn_cancels:
  assumes "tq_timers q = (e, a) # rest" "e \<le> now" "\<forall>x\<in>set rest. now < fst x" "tq_heap q a = Some t"
    "\<not> tm_canceled t" "\<not> tm_repeating t" "tq_active q (tm_id t) = Some a" "behave a = [CancelTimer i]"
    "i \<noteq> 0" "i \<noteq> tm_id t" "tq_active q i = Some b" "b \<noteq> a" "tq_heap q b = Some u" "(tm_expiration u, b) \<in> set rest"
  obtains q' where "TimerQueue_handleRead unat (steady now) behave restart q = (q', [tm_id t])"
    "tq_timers q' = remove1 (tm_expiration u, b) rest"
    "tq_heap q' = (tq_heap q)(b \<mapsto> u\<lparr>tm_canceled := True\<rparr>)" "tq_active q' = (tq_active q)(i := None, tm_id t := None)"
proof (rule that)
  let ?r = "TimerQueue_handleRead unat (steady now) behave restart q"
  have "tq_active (q\<lparr>tq_timers := rest\<rparr>) i = Some b" "tq_heap (q\<lparr>tq_timers := rest\<rparr>) b = Some u"
    "(tm_expiration u, b) \<in> set (tq_timers (q\<lparr>tq_timers := rest\<rparr>))"
    using assms(11,13,14) by simp_all
  note c = cancel_effect [OF this]
  have "snd ?r = [tm_id t]"
    using assms(4-10,12) c by (simp add: only_first_due [OF assms(1-3)] turn_simps TimerQueue_cancel_def)
  then show "?r = (fst ?r, [tm_id t])" by (metis prod.collapse)
  show "tq_timers (fst ?r) = remove1 (tm_expiration u, b) rest"
    "tq_heap (fst ?r) = (tq_heap q)(b \<mapsto> u\<lparr>tm_canceled := True\<rparr>)"
    "tq_active (fst ?r) = (tq_active q)(i := None, tm_id t := None)"
    using assms(4-10,12) c by (simp_all add: only_first_due [OF assms(1-3)] turn_simps TimerQueue_cancel_def)
qed

lemma setup_state:
  assumes "mono clock" "0 \<le> clock 1" "clock 5 < 2 ^ 61" "clock 5 \<le> clock 1 + 1000"
  obtains l where "timer_tests_setup clock = (0, 1, 2, 3, 4, 5, l)" "el_threadId l = 1"
    "queue_is (el_timerQueue l) 6
       [(clock 2 + 20000, 2), (clock 3 + 20000, 3), (clock 1 + 50000, 1), (clock 4 + 125000, 4), (clock 5 + 180000, 5)]
       [1 \<mapsto> test_timer 1 s_005 (clock 1 + 50000), 2 \<mapsto> test_timer 2 s_002 (clock 2 + 20000),
        3 \<mapsto> test_timer 3 (Finite 0 0) (clock 3 + 20000), 4 \<mapsto> test_timer 4 (Finite 0 0) (clock 4 + 125000),
        5 \<mapsto> test_timer 5 (Finite 0 0) (clock 5 + 180000)]
       [1 \<mapsto> 1, 2 \<mapsto> 2, 3 \<mapsto> 3, 4 \<mapsto> 4, 5 \<mapsto> 5]"
proof -
  let ?l0 = "fst (EventLoop_new 1 5 6)"
  let ?add = "\<lambda>i. TimerQueue_addTimer unat True (steady (clock i)) (Some i)"
  have mono: "clock 1 \<le> clock 2" "clock 2 \<le> clock 3" "clock 3 \<le> clock 4" "clock 4 \<le> clock 5" by (simp_all add: monoD [OF assms(1)])
  have start: "clock 1 < 2 ^ 62" "clock 2 < 2 ^ 62" "clock 3 < 2 ^ 62" "clock 4 < 2 ^ 62" "clock 5 < 2 ^ 62"
    using mono assms(3) by simp_all
  have 0: "queue_is (el_timerQueue ?l0) 1 [] Map.empty Map.empty"
    by (simp add: EventLoop_new_def TimerQueue_new_def split_def Let_def queue_is_def)
  obtain q1 where 1: "?add 1 s_005 s_005 (el_timerQueue ?l0) = (1, q1, [])"
    "queue_is q1 2 [(clock 1 + 50000, 1)] [1 \<mapsto> test_timer 1 s_005 (clock 1 + 50000)] [1 \<mapsto> 1]"
    using addTimer_on_loop [OF 0 _ start(1), of s_005 s_005] mono assms(4)
    by (auto simp: test_signs test_micros insort_insert_key_def)
  obtain q2 where 2: "?add 2 s_002 s_002 q1 = (2, q2, [])"
    "queue_is q2 3 [(clock 2 + 20000, 2), (clock 1 + 50000, 1)]
      [1 \<mapsto> test_timer 1 s_005 (clock 1 + 50000), 2 \<mapsto> test_timer 2 s_002 (clock 2 + 20000)] [1 \<mapsto> 1, 2 \<mapsto> 2]"
    using addTimer_on_loop [OF 1(2) _ start(2), of s_002 s_002] mono assms(4)
    by (auto simp: test_signs test_micros insort_insert_key_def)
  obtain q3 where 3: "?add 3 s_002 (Finite 0 0) q2 = (3, q3, [])"
    "queue_is q3 4 [(clock 2 + 20000, 2), (clock 3 + 20000, 3), (clock 1 + 50000, 1)]
      [1 \<mapsto> test_timer 1 s_005 (clock 1 + 50000), 2 \<mapsto> test_timer 2 s_002 (clock 2 + 20000),
       3 \<mapsto> test_timer 3 (Finite 0 0) (clock 3 + 20000)] [1 \<mapsto> 1, 2 \<mapsto> 2, 3 \<mapsto> 3]"
    using addTimer_on_loop [OF 2(2) _ start(3), of s_002 "Finite 0 0"] mono assms(4)
    by (auto simp: test_signs test_micros insort_insert_key_def)
  obtain q4 where 4: "?add 4 s_0125 (Finite 0 0) q3 = (4, q4, [])"
    "queue_is q4 5 [(clock 2 + 20000, 2), (clock 3 + 20000, 3), (clock 1 + 50000, 1), (clock 4 + 125000, 4)]
      [1 \<mapsto> test_timer 1 s_005 (clock 1 + 50000), 2 \<mapsto> test_timer 2 s_002 (clock 2 + 20000),
       3 \<mapsto> test_timer 3 (Finite 0 0) (clock 3 + 20000), 4 \<mapsto> test_timer 4 (Finite 0 0) (clock 4 + 125000)]
      [1 \<mapsto> 1, 2 \<mapsto> 2, 3 \<mapsto> 3, 4 \<mapsto> 4]"
    using addTimer_on_loop [OF 3(2) _ start(4), of s_0125 "Finite 0 0"] mono assms(4)
    by (auto simp: test_signs test_micros insort_insert_key_def)
  obtain q5 where 5: "?add 5 s_018 (Finite 0 0) q4 = (5, q5, [])"
    "queue_is q5 6 [(clock 2 + 20000, 2), (clock 3 + 20000, 3), (clock 1 + 50000, 1), (clock 4 + 125000, 4), (clock 5 + 180000, 5)]
      [1 \<mapsto> test_timer 1 s_005 (clock 1 + 50000), 2 \<mapsto> test_timer 2 s_002 (clock 2 + 20000),
       3 \<mapsto> test_timer 3 (Finite 0 0) (clock 3 + 20000), 4 \<mapsto> test_timer 4 (Finite 0 0) (clock 4 + 125000),
       5 \<mapsto> test_timer 5 (Finite 0 0) (clock 5 + 180000)] [1 \<mapsto> 1, 2 \<mapsto> 2, 3 \<mapsto> 3, 4 \<mapsto> 4, 5 \<mapsto> 5]"
    using addTimer_on_loop [OF 4(2) _ start(5), of s_018 "Finite 0 0"] mono assms(4)
    by (auto simp: test_signs test_micros insort_insert_key_def)
  have tid: "el_threadId ?l0 = 1" by (simp add: EventLoop_new_def split_def Let_def)
  show thesis
  proof (rule that)
    show "timer_tests_setup clock = (0, 1, 2, 3, 4, 5, ?l0\<lparr>el_timerQueue := q5\<rparr>)"
      using 1(1) 2(1) 3(1) 4(1) 5(1) tid
      by (simp add: timer_tests_setup_def EventLoop_runEvery_def EventLoop_runAfter_def EventLoop_isInLoopThread_def test_signs)
  qed (use tid 5(2) in simp_all)
qed

lemma submit_state:
  assumes l: "el_threadId l = 1" "queue_is (el_timerQueue l) 6 timers heap active"
    and t: "active 2 = Some 2" "heap 2 = Some u" "(tm_expiration u, 2) \<in> set timers" "active 6 = None" and now: "now < 2 ^ 62"
  obtains l' where "timer_tests_submit now 2 l = (6, l')"
    "queue_is (el_timerQueue l') 7 (insort_insert (now + 10000, 6) (remove1 (tm_expiration u, 2) timers))
       (heap(6 \<mapsto> test_timer 6 (Finite 0 0) (now + 10000), 2 \<mapsto> u\<lparr>tm_canceled := True\<rparr>)) (active(2 := None, 6 \<mapsto> 6))"
proof -
  let ?q = "el_timerQueue l"
  let ?q1 = "set_timer 6 (Timer_new 6 6 (Finite 0 0)) (?q\<lparr>tq_nextTimerId := 7\<rparr>)"
  let ?q2 = "TimerQueue_addTimerInLoop (steady now) 6 s_001 (TimerQueue_cancelInLoop 2 ?q1)"
  have q: "tq_nextTimerId ?q = 6" "tq_timers ?q = timers" "tq_heap ?q = heap" "tq_active ?q = active"
    using l(2) by (simp_all add: queue_is_def)
  have "tq_active ?q1 2 = Some 2" "tq_heap ?q1 2 = Some u" "(tm_expiration u, 2) \<in> set (tq_timers ?q1)"
    using q t by (simp_all add: set_timer_def)
  note c = cancel_effect [OF this]
  have sat: "saturating_after now 10000 = now + 10000" using now by (simp add: saturating_after_def INT64_MAX_def)
  have "queue_is ?q2 7 (insort_insert (now + 10000, 6) (remove1 (tm_expiration u, 2) timers))
       (heap(6 \<mapsto> test_timer 6 (Finite 0 0) (now + 10000), 2 \<mapsto> u\<lparr>tm_canceled := True\<rparr>)) (active(2 := None, 6 \<mapsto> 6))"
    using c q t(4) sat
    by (simp add: queue_is_def TimerQueue_addTimerInLoop_def timers_reset addTimerInLoop_sel set_timer_def timer_at_def
        steady_now test_micros Timer_new_def Let_def fun_upd_twist TimerQueue_resetTimerfd_def)
  moreover have "timer_tests_submit now 2 l = (6, l\<lparr>el_timerQueue := ?q2\<rparr>)"
    using l(1) q(1) by (simp add: timer_tests_submit_def EventLoop_cancel_def EventLoop_runAfter_def EventLoop_isInLoopThread_def
        TimerQueue_cancel_def TimerQueue_addTimer_def test_signs Let_def)
  ultimately show thesis using that [of "l\<lparr>el_timerQueue := ?q2\<rparr>"] by simp
qed

lemma tests_loop_turn:
  assumes "tq_timers q = (e, a) # rest"
    "TimerQueue_handleRead unat (steady (e + late)) (\<lambda>timer. if timer = unat cancels then [CancelTimer r] else []) (\<lambda>_. steady (e + late + busy)) q
       = (q1, [i])"
  shows "timer_tests_loop ((late, busy) # lates) r cancels quits q =
    (if quits = i then Some (e + late, [i])
     else map_option (\<lambda>(finished, more). (finished, i # more)) (timer_tests_loop lates r cancels quits q1))"
  using assms by (auto simp: Let_def intro!: option.map_cong)

section \<open>The run\<close>

text \<open>A timer of the test that is waiting.\<close>

definition live :: "TimerQueue \<Rightarrow> TimerId \<Rightarrow> f64 \<Rightarrow> int \<Rightarrow> bool" where
  "live q i iv e \<longleftrightarrow> tq_heap q (unat i) = Some (test_timer i iv e) \<and> tq_active q i = Some (unat i)"

lemma one_shot_turn:
  assumes "tq_timers q = (e, unat i) # rest" "0 \<le> late" "\<forall>x\<in>set rest. e + late < fst x" "live q i (Finite 0 0) e" "i \<noteq> cancels"
  obtains q' where "timer_tests_loop ((late, busy) # lates) r cancels quits q =
      (if quits = i then Some (e + late, [i])
       else map_option (\<lambda>(finished, more). (finished, i # more)) (timer_tests_loop lates r cancels quits q'))"
    "tq_timers q' = rest" "\<And>j iv f. j \<noteq> i \<Longrightarrow> live q j iv f \<Longrightarrow> live q' j iv f"
proof -
  let ?behave = "\<lambda>timer. if timer = unat cancels then [CancelTimer r] else []"
  have t: "tq_heap q (unat i) = Some (test_timer i (Finite 0 0) e)" "\<not> tm_canceled (test_timer i (Finite 0 0) e)"
    "\<not> tm_repeating (test_timer i (Finite 0 0) e)" "tq_active q (tm_id (test_timer i (Finite 0 0) e)) = Some (unat i)"
    using assms(4) by (simp_all add: live_def Timer_new_def test_signs)
  have b: "?behave (unat i) = []" "e \<le> e + late" using assms(2,5) by (simp_all add: word_unat_eq_iff)
  obtain q' where q': "TimerQueue_handleRead unat (steady (e + late)) ?behave (\<lambda>_. steady (e + late + busy)) q
      = (q', [tm_id (test_timer i (Finite 0 0) e)])" "tq_timers q' = rest" "tq_heap q' = tq_heap q"
    "tq_active q' = (tq_active q)(tm_id (test_timer i (Finite 0 0) e) := None)"
    by (rule turn_one_shot [where behave = ?behave, OF assms(1) b(2) assms(3) t b(1)])
  show thesis
  proof (rule that)
    show "timer_tests_loop ((late, busy) # lates) r cancels quits q =
      (if quits = i then Some (e + late, [i])
       else map_option (\<lambda>(finished, more). (finished, i # more)) (timer_tests_loop lates r cancels quits q'))"
      using tests_loop_turn [OF assms(1) q'(1)] by (simp add: Timer_new_def)
    show "tq_timers q' = rest" by (rule q'(2))
    show "live q' j iv f" if "j \<noteq> i" "live q j iv f" for j iv f
      using that q'(3,4) by (simp add: live_def Timer_new_def)
  qed
qed

lemma repeating_turn:
  assumes "tq_timers q = (e, unat i) # rest" "0 \<le> late" "\<forall>x\<in>set rest. e + late < fst x" "live q i iv e" "i \<noteq> cancels"
    "f64_greater_0 iv" "e + late + busy < 2 ^ 62" "secondsToMicroseconds iv < 2 ^ 61" "quits \<noteq> i"
  obtains q' where "timer_tests_loop ((late, busy) # lates) r cancels quits q =
      map_option (\<lambda>(finished, more). (finished, i # more)) (timer_tests_loop lates r cancels quits q')"
    "tq_timers q' = insort_insert (e + late + busy + secondsToMicroseconds iv, unat i) rest"
    "live q' i iv (e + late + busy + secondsToMicroseconds iv)" "\<And>j iv f. j \<noteq> i \<Longrightarrow> live q j iv f \<Longrightarrow> live q' j iv f"
proof -
  let ?behave = "\<lambda>timer. if timer = unat cancels then [CancelTimer r] else []"
  let ?t = "test_timer i iv e"
  have t: "tq_heap q (unat i) = Some ?t" "\<not> tm_canceled ?t" "tm_repeating ?t" "tq_active q (tm_id ?t) = Some (unat i)"
    and iv: "tm_interval ?t < 2 ^ 61" "tm_interval ?t = secondsToMicroseconds iv" "tm_id ?t = i"
    using assms(4,6,8) by (simp_all add: live_def Timer_new_def)
  have b: "?behave (unat i) = []" "e \<le> e + late" using assms(2,5) by (simp_all add: word_unat_eq_iff)
  obtain q' where q': "TimerQueue_handleRead unat (steady (e + late)) ?behave (\<lambda>_. steady (e + late + busy)) q = (q', [tm_id ?t])"
    "tq_timers q' = insort_insert (e + late + busy + tm_interval ?t, unat i) rest"
    "tq_heap q' = (tq_heap q)(unat i \<mapsto> ?t\<lparr>tm_expiration := e + late + busy + tm_interval ?t\<rparr>)" "tq_active q' = tq_active q"
    by (rule turn_repeating [where behave = ?behave, OF assms(1) b(2) assms(3) t b(1) assms(7) iv(1)])
  show thesis
  proof (rule that)
    show "timer_tests_loop ((late, busy) # lates) r cancels quits q =
      map_option (\<lambda>(finished, more). (finished, i # more)) (timer_tests_loop lates r cancels quits q')"
      using tests_loop_turn [OF assms(1) q'(1)] assms(9) by (simp add: iv)
    show "tq_timers q' = insort_insert (e + late + busy + secondsToMicroseconds iv, unat i) rest" using q'(2) by (simp only: iv)
    show "live q' i iv (e + late + busy + secondsToMicroseconds iv)" using q'(3,4) assms(4) by (simp add: live_def Timer_new_def)
    show "live q' j iv f" if "j \<noteq> i" "live q j iv f" for j iv f
      using that q'(3,4) by (simp add: live_def word_unat_eq_iff)
  qed
qed

lemma cancelling_turn:
  assumes "tq_timers q = (e, unat i) # rest" "0 \<le> late" "\<forall>x\<in>set rest. e + late < fst x" "live q i (Finite 0 0) e" "quits \<noteq> i"
    "r \<noteq> 0" "r \<noteq> i" "live q r iv f" "(f, unat r) \<in> set rest"
  obtains q' where "timer_tests_loop ((late, busy) # lates) r i quits q =
      map_option (\<lambda>(finished, more). (finished, i # more)) (timer_tests_loop lates r i quits q')"
    "tq_timers q' = remove1 (f, unat r) rest" "\<And>j iv f. j \<noteq> i \<Longrightarrow> j \<noteq> r \<Longrightarrow> live q j iv f \<Longrightarrow> live q' j iv f"
proof -
  let ?behave = "\<lambda>timer. if timer = unat i then [CancelTimer r] else []"
  let ?t = "test_timer i (Finite 0 0) e" let ?u = "test_timer r iv f"
  have t: "tq_heap q (unat i) = Some ?t" "\<not> tm_canceled ?t" "\<not> tm_repeating ?t" "tq_active q (tm_id ?t) = Some (unat i)"
    and u: "r \<noteq> tm_id ?t" "tq_active q r = Some (unat r)" "unat r \<noteq> unat i" "tq_heap q (unat r) = Some ?u"
      "(tm_expiration ?u, unat r) \<in> set rest" "tm_expiration ?u = f" "tm_id ?t = i"
    using assms(4,7,8,9) by (simp_all add: live_def Timer_new_def test_signs word_unat_eq_iff)
  have b: "?behave (unat i) = [CancelTimer r]" "e \<le> e + late" using assms(2) by simp_all
  obtain q' where q': "TimerQueue_handleRead unat (steady (e + late)) ?behave (\<lambda>_. steady (e + late + busy)) q = (q', [tm_id ?t])"
    "tq_timers q' = remove1 (tm_expiration ?u, unat r) rest"
    "tq_heap q' = (tq_heap q)(unat r \<mapsto> ?u\<lparr>tm_canceled := True\<rparr>)" "tq_active q' = (tq_active q)(r := None, tm_id ?t := None)"
    by (rule turn_cancels [where behave = ?behave, OF assms(1) b(2) assms(3) t b(1) assms(6) u(1-5)])
  show thesis
  proof (rule that)
    show "timer_tests_loop ((late, busy) # lates) r i quits q =
      map_option (\<lambda>(finished, more). (finished, i # more)) (timer_tests_loop lates r i quits q')"
      using tests_loop_turn [OF assms(1) q'(1)] assms(5) by (simp add: u)
    show "tq_timers q' = remove1 (f, unat r) rest" using q'(2) by (simp only: u)
    show "live q' j iv f" if "j \<noteq> i" "j \<noteq> r" "live q j iv f" for j iv f
      using that q'(3,4) by (simp add: live_def u word_unat_eq_iff)
  qed
qed

text \<open>The queue when the loop starts: the second thread's timer first, the cancelled one gone.\<close>

lemma start_state:
  assumes "mono clock" "0 \<le> start" "start \<le> clock 1" "clock 5 \<le> start + 1000" "start < 2 ^ 60" "0 \<le> late" "late \<le> 2000"
  obtains l l' where "timer_tests_setup clock = (0, 1, 2, 3, 4, 5, l)"
    "timer_tests_submit (start + 5000 + late) 2 l = (6, l')"
    "tq_timers (el_timerQueue l') = [(start + 15000 + late, unat (6::TimerId)), (clock 3 + 20000, unat (3::TimerId)),
       (clock 1 + 50000, unat (1::TimerId)), (clock 4 + 125000, unat (4::TimerId)), (clock 5 + 180000, unat (5::TimerId))]"
    "live (el_timerQueue l') 1 s_005 (clock 1 + 50000)" "live (el_timerQueue l') 3 (Finite 0 0) (clock 3 + 20000)"
    "live (el_timerQueue l') 4 (Finite 0 0) (clock 4 + 125000)" "live (el_timerQueue l') 5 (Finite 0 0) (clock 5 + 180000)"
    "live (el_timerQueue l') 6 (Finite 0 0) (start + 15000 + late)"
proof -
  have mono: "clock 1 \<le> clock 3" "clock 3 \<le> clock 5" "clock 1 \<le> clock 4" "clock 1 \<le> clock 5" by (simp_all add: monoD [OF assms(1)])
  let ?timers = "[(clock 2 + 20000, 2::nat), (clock 3 + 20000, 3), (clock 1 + 50000, 1), (clock 4 + 125000, 4), (clock 5 + 180000, 5)]"
  let ?heap = "[1::addr \<mapsto> test_timer 1 s_005 (clock 1 + 50000), 2 \<mapsto> test_timer 2 s_002 (clock 2 + 20000),
        3 \<mapsto> test_timer 3 (Finite 0 0) (clock 3 + 20000), 4 \<mapsto> test_timer 4 (Finite 0 0) (clock 4 + 125000),
        5 \<mapsto> test_timer 5 (Finite 0 0) (clock 5 + 180000)]"
  let ?active = "[1::TimerId \<mapsto> 1, 2 \<mapsto> 2, 3 \<mapsto> 3, 4 \<mapsto> 4, 5 \<mapsto> 5 :: nat]"
  let ?u = "test_timer 2 s_002 (clock 2 + 20000)"
  obtain l where l: "timer_tests_setup clock = (0, 1, 2, 3, 4, 5, l)" "el_threadId l = 1"
    "queue_is (el_timerQueue l) 6 ?timers ?heap ?active" by (rule setup_state [OF assms(1)]) (use assms mono in auto)
  have t: "?active 2 = Some 2" "?heap 2 = Some ?u" "(tm_expiration ?u, 2) \<in> set ?timers" "?active 6 = None"
    and now: "start + 5000 + late < 2 ^ 62" using assms by simp_all
  obtain l' where l': "timer_tests_submit (start + 5000 + late) 2 l = (6, l')"
    "queue_is (el_timerQueue l') 7 (insort_insert (start + 5000 + late + 10000, 6) (remove1 (tm_expiration ?u, 2) ?timers))
       (?heap(6 \<mapsto> test_timer 6 (Finite 0 0) (start + 5000 + late + 10000), 2 \<mapsto> ?u\<lparr>tm_canceled := True\<rparr>))
       (?active(2 := None, 6 \<mapsto> 6))" by (rule submit_state [OF l(2,3) t now])
  show thesis
  proof (rule that [OF l(1) l'(1)])
    show "tq_timers (el_timerQueue l') = [(start + 15000 + late, unat (6::TimerId)), (clock 3 + 20000, unat (3::TimerId)),
       (clock 1 + 50000, unat (1::TimerId)), (clock 4 + 125000, unat (4::TimerId)), (clock 5 + 180000, unat (5::TimerId))]"
      using l'(2) assms mono by (auto simp: queue_is_def insort_insert_key_def)
  qed (use l'(2) in \<open>simp_all add: queue_is_def live_def\<close>)
qed

text \<open>The last four turns: two rounds of the repeating timer, its cancellation, and the end.\<close>

lemma last_turns:
  assumes q: "tq_timers q = [(e1, unat (1::TimerId)), (e4, unat (4::TimerId)), (e5, unat (5::TimerId))]"
    "live q 1 s_005 e1" "live q 4 (Finite 0 0) e4" "live q 5 (Finite 0 0) e5"
    and e: "e1 < 2 ^ 61" "e1 + 75000 \<le> e4" "e4 \<le> e1 + 76000" "e1 + 129000 \<le> e5"
    and d: "0 \<le> d1" "d1 \<le> 2000" "0 \<le> d2" "d2 \<le> 2000" "0 \<le> d3" "d3 \<le> 2000" "0 \<le> d4"
    and b: "0 \<le> b1" "b1 \<le> 1000" "0 \<le> b2" "b2 \<le> 1000"
  shows "timer_tests_loop [(d1, b1), (d2, b2), (d3, b3), (d4, b4)] 1 4 5 q = Some (e5 + d4, [1, 1, 4, 5])"
proof -
  let ?more = "\<lambda>i (finished, more). (finished, i # more)"
  let ?loop = "\<lambda>ds. timer_tests_loop ds 1 4 5"
  let ?e2 = "e1 + d1 + b1 + 50000" let ?e3 = "e1 + d1 + b1 + d2 + b2 + 100000"
  from repeating_turn [OF q(1) d(1) _ q(2), where busy = b1 and cancels = 4 and quits = 5 and r = 1
      and lates = "[(d2, b2), (d3, b3), (d4, b4)]"] d b e
  obtain q1 where 1: "?loop [(d1, b1), (d2, b2), (d3, b3), (d4, b4)] q = map_option (?more 1) (?loop [(d2, b2), (d3, b3), (d4, b4)] q1)"
    "tq_timers q1 = insort_insert (?e2, unat (1::TimerId)) [(e4, unat (4::TimerId)), (e5, unat (5::TimerId))]"
    and l1: "live q1 1 s_005 ?e2" and k1: "\<And>j iv f. j \<noteq> 1 \<Longrightarrow> live q j iv f \<Longrightarrow> live q1 j iv f"
    by (auto simp: test_signs test_micros)
  have t1: "tq_timers q1 = [(?e2, unat (1::TimerId)), (e4, unat (4::TimerId)), (e5, unat (5::TimerId))]"
    using 1(2) d b e by (simp add: insort_insert_key_def)
  from repeating_turn [OF t1 d(3) _ l1, where busy = b2 and cancels = 4 and quits = 5 and r = 1
      and lates = "[(d3, b3), (d4, b4)]"] d b e
  obtain q2 where 2: "?loop [(d2, b2), (d3, b3), (d4, b4)] q1 = map_option (?more 1) (?loop [(d3, b3), (d4, b4)] q2)"
    "tq_timers q2 = insort_insert (?e2 + d2 + b2 + 50000, unat (1::TimerId)) [(e4, unat (4::TimerId)), (e5, unat (5::TimerId))]"
    and l2: "live q2 1 s_005 (?e2 + d2 + b2 + 50000)" and k2: "\<And>j iv f. j \<noteq> 1 \<Longrightarrow> live q1 j iv f \<Longrightarrow> live q2 j iv f"
    by (auto simp: test_signs test_micros)
  have e3: "?e2 + d2 + b2 + 50000 = ?e3" by simp
  have t2: "tq_timers q2 = [(e4, unat (4::TimerId)), (?e3, unat (1::TimerId)), (e5, unat (5::TimerId))]"
    using 2(2) d b e unfolding e3 by (simp add: insort_insert_key_def)
  have l4: "live q2 4 (Finite 0 0) e4" using k1 k2 q(3) by simp
  from cancelling_turn [OF t2 d(5) _ l4 _ _ _ l2 [unfolded e3], where busy = b3 and quits = 5 and lates = "[(d4, b4)]"] d b e
  obtain q3 where 3: "?loop [(d3, b3), (d4, b4)] q2 = map_option (?more 4) (?loop [(d4, b4)] q3)" "tq_timers q3 = [(e5, unat (5::TimerId))]"
    and k3: "\<And>j iv f. j \<noteq> 4 \<Longrightarrow> j \<noteq> 1 \<Longrightarrow> live q2 j iv f \<Longrightarrow> live q3 j iv f" by auto
  have "live q3 5 (Finite 0 0) e5" using q(4) k1 k2 k3 by simp
  from one_shot_turn [OF 3(2) d(7) _ this, where cancels = 4 and quits = 5 and lates = "[]" and r = 1 and busy = b4]
  have "?loop [(d4, b4)] q3 = Some (e5 + d4, [5])" by auto
  with 1(1) 2(1) 3(1) show ?thesis by simp
qed

text \<open>C40. The timer test succeeds when the five timers of the main thread are set within one millisecond, the second thread's
  two calls take effect at most two milliseconds late, the loop wakes at most two milliseconds after each
  expiration and starts a repeating timer again at most one millisecond after that: the repetition
  without an interval is refused, the early check runs before the repeating timer, the timer added by the other
  thread fires, the one it cancelled never does, the repeating timer fires exactly twice before its
  cancellation, and the loop ends 170 milliseconds after the start at the earliest.\<close>

theorem timer_tests_pass:
  assumes "0 \<le> startedAt" "startedAt < 2 ^ 60" "mono clock" "startedAt \<le> clock 1" "clock 5 \<le> startedAt + 1000"
    and "length lates = 6" "0 \<le> late" "late \<le> 2000" "\<forall>(d, b)\<in>set lates. 0 \<le> d \<and> d \<le> 2000 \<and> 0 \<le> b \<and> b \<le> 1000"
  shows "timer_tests startedAt clock late lates"
proof -
  let ?s = startedAt
  let ?more = "\<lambda>i (finished, more). (finished, i # more)"
  obtain d1 b1 d2 b2 d3 b3 d4 b4 d5 b5 d6 b6
    where lates: "lates = [(d1, b1), (d2, b2), (d3, b3), (d4, b4), (d5, b5), (d6, b6)]"
    using assms(6) by (auto simp: numeral_eq_Suc length_Suc_conv)
  have d: "0 \<le> d1" "d1 \<le> 2000" "0 \<le> d2" "d2 \<le> 2000" "0 \<le> d3" "d3 \<le> 2000" "0 \<le> d4" "d4 \<le> 2000"
    "0 \<le> d5" "d5 \<le> 2000" "0 \<le> d6" and b: "0 \<le> b3" "b3 \<le> 1000" "0 \<le> b4" "b4 \<le> 1000"
    using assms(9) by (simp_all add: lates)
  have mono: "clock 1 \<le> clock 3" "clock 3 \<le> clock 4" "clock 4 \<le> clock 5" by (simp_all add: monoD [OF assms(3)])
  let ?e1 = "clock 1 + 50000" let ?e3 = "clock 3 + 20000" let ?e4 = "clock 4 + 125000" let ?e5 = "clock 5 + 180000"
  obtain l l' where l: "timer_tests_setup clock = (0, 1, 2, 3, 4, 5, l)" "timer_tests_submit (?s + 5000 + late) 2 l = (6, l')"
    and q: "tq_timers (el_timerQueue l') = [(?s + 15000 + late, unat (6::TimerId)), (?e3, unat (3::TimerId)),
       (?e1, unat (1::TimerId)), (?e4, unat (4::TimerId)), (?e5, unat (5::TimerId))]"
    "live (el_timerQueue l') 1 s_005 ?e1" "live (el_timerQueue l') 3 (Finite 0 0) ?e3"
    "live (el_timerQueue l') 4 (Finite 0 0) ?e4" "live (el_timerQueue l') 5 (Finite 0 0) ?e5"
    "live (el_timerQueue l') 6 (Finite 0 0) (?s + 15000 + late)"
    by (rule start_state [OF assms(3,1,4,5,2,7,8)])
  let ?loop = "\<lambda>ds. timer_tests_loop ds 1 4 5"
  let ?last = "[(d3, b3), (d4, b4), (d5, b5), (d6, b6)]"
  obtain q1 where 1: "?loop ((d1, b1) # (d2, b2) # ?last) (el_timerQueue l') = map_option (?more 6) (?loop ((d2, b2) # ?last) q1)"
    "tq_timers q1 = [(?e3, unat (3::TimerId)), (?e1, unat (1::TimerId)), (?e4, unat (4::TimerId)), (?e5, unat (5::TimerId))]"
    "\<And>j iv f. j \<noteq> 6 \<Longrightarrow> live (el_timerQueue l') j iv f \<Longrightarrow> live q1 j iv f"
    by (rule one_shot_turn [OF q(1) d(1) _ q(6), where cancels = 4 and quits = 5 and r = 1 and busy = b1
        and lates = "(d2, b2) # ?last"])
      (use d mono assms in simp_all)
  have "live q1 3 (Finite 0 0) ?e3" using 1(3) q(3) by simp
  from one_shot_turn [OF 1(2) d(3) _ this, where cancels = 4 and quits = 5 and lates = ?last and r = 1 and busy = b2] d mono assms
  obtain q2 where 2: "?loop ((d2, b2) # ?last) q1 = map_option (?more 3) (?loop ?last q2)"
    "tq_timers q2 = [(?e1, unat (1::TimerId)), (?e4, unat (4::TimerId)), (?e5, unat (5::TimerId))]"
    "\<And>j iv f. j \<noteq> 3 \<Longrightarrow> live q1 j iv f \<Longrightarrow> live q2 j iv f" by auto
  have "?loop ?last q2 = Some (?e5 + d6, [1, 1, 4, 5])"
    by (rule last_turns [OF 2(2) _ _ _ _ _ _ _ d(5-11) b]) (use 1(3) 2(3) q mono assms in simp_all)
  with 1(1) 2(1) have "?loop lates (el_timerQueue l') = Some (?e5 + d6, [6, 3, 1, 1, 4, 5])" by (simp add: lates)
  with l d(11) assms(4) mono show ?thesis by (simp add: timer_tests_def)
qed

theorem timer_tests_pass_witness:
  "timer_tests 7000000 (\<lambda>i. 7000000 + 100 * int i) 300 [(0, 1), (2000, 0), (15, 1000), (700, 20), (0, 0), (1, 4)]"
  by (rule timer_tests_pass) (simp_all add: mono_def)

end
