(* ===== verification/Spec2Isabelle.thy ===== *)
theory Spec2Isabelle
  imports ConnectionRuns HttpContext HttpResponse WebChat BaseTypes Delivery Lifetime UnitTests TimerTests
begin

text \<open>
  AegisNet: a verification of the reactor library and its chat server.

  \<^bold>\<open>The program.\<close> AegisNet is a multi-reactor TCP library for Linux in C++17 (directory \<open>src/src\<close>) with a web chat
  server on top (\<open>src/main.cpp\<close>). A \<open>TcpServer\<close> accepts connections on its base \<open>EventLoop\<close> through an
  \<open>Acceptor\<close> and deals them out to the loops of an \<open>EventLoopThreadPool\<close>, one loop per thread. Each loop waits
  in epoll, dispatches events to \<open>Channel\<close> objects, runs the functors other threads queued, and fires the
  timers of its \<open>TimerQueue\<close>. A \<open>TcpConnection\<close> reads into an input \<open>Buffer\<close>, calls the user's message
  callback, and writes through an output \<open>Buffer\<close> with watermarks and \<open>sendfile\<close>. The chat server parses
  requests with one \<open>HttpParser\<close> per connection and keeps idle timers. Every part logs through \<open>Logger\<close>, whose
  records \<open>AsyncLogging\<close> collects in double buffers and writes to rolling \<open>LogFile\<close>s in a thread of its own.

  \<^bold>\<open>Theories and the code they model\<close> (in dependency order):
  \<^item> \<open>AegisPrelude\<close>: bytes, byte ranges, decimal numbers, runs of step relations and the locales
    \<open>step_invariant\<close> and \<open>op_invariant\<close>, which every state machine below interprets.
  \<^item> \<open>Float64\<close>: the \<open>double\<close> operations the sources use. \<open>BaseTypes\<close>: \<open>base/Timestamp.h\<close>, \<open>base/Any.h\<close>,
    \<open>base/Singleton.h\<close>.
  \<^item> \<open>Buffer\<close>: \<open>tcp/Buffer.h\<close>, \<open>Buffer.cpp\<close>. The vector and the two indices; \<open>readFd\<close> gets the bytes the kernel
    delivers.
  \<^item> \<open>Channel\<close>: \<open>net/Channel.*\<close> and \<open>net/Epoll.*\<close>. Operations return the \<open>epoll_ctl\<close> calls they issue.
  \<^item> \<open>InetAddress\<close>: \<open>net/InetAddress.*\<close>.
  \<^item> \<open>TcpConnection\<close>: \<open>tcp/TcpConnection.*\<close>, every member function on a record of the data members; results
    list the actions on the socket, on epoll, on the loop's task queue and on the user's callbacks.
    \<open>ConnectionRuns\<close>: runs of a connection under events, queued tasks and calls from any thread.
  \<^item> \<open>HttpParser\<close>: \<open>tcp/HttpParser.*\<close>. \<open>HttpContext\<close>: \<open>tcp/HttpContext.*\<close>, \<open>HttpRequest.h\<close>.
    \<open>HttpResponse\<close>: \<open>tcp/HttpResponse.*\<close>.
  \<^item> \<open>TimerQueue\<close>: \<open>net/TimerQueue.*\<close>. \<open>EventLoop\<close>: \<open>net/EventLoop.*\<close>, with the loop thread and its clients
    interleaved. \<open>ThreadPool\<close>: \<open>base/Thread.*\<close>, \<open>base/CurrentThread.*\<close>, \<open>pool/EventLoopThread.*\<close>,
    \<open>pool/EventLoopThreadPool.*\<close>.
  \<^item> \<open>TcpServer\<close>: \<open>net/Socket.*\<close>, \<open>tcp/Acceptor.*\<close>, \<open>tcp/TcpServer.*\<close>.
  \<^item> \<open>Logging\<close>: \<open>base/LogStream.h\<close>, \<open>base/Logger.*\<close>. \<open>LogFile\<close>: \<open>base/LogFile.*\<close>. \<open>AsyncLogging\<close>:
    \<open>base/AsyncLogging.*\<close>.
  \<^item> \<open>WebChat\<close>: \<open>main.cpp\<close>, each callback by itself. \<open>ChatServer\<close>: the same callbacks called by, and sending through, any
    number of connections of theory \<open>TcpConnection\<close> on several loops. \<open>Delivery\<close>: a posted message on its way to a
    receiving client.
  \<^item> \<open>Lifetime\<close>: the destructors of connections, acceptor and loops with their members, and the end of \<open>main\<close>.
  \<^item> \<open>UnitTests\<close>, \<open>TimerTests\<close>: the test programs of \<open>src/tests\<close>, run on the model.

  \<^bold>\<open>Conventions.\<close> A class is a record whose fields are its data members (prefixed), a member function
  \<open>C::f\<close> is the definition \<open>C_f\<close>, a constructor \<open>C_new\<close>, a destructor \<open>C_destroy\<close>. A callback member is whether
  it is set. \<open>None\<close> as a result is \<open>abort()\<close>, \<open>exit(1)\<close>, an access outside an object, or, for the loops defined as partial
  functions (\<open>HttpParser_loop\<close>, \<open>HttpContext_loop\<close>, \<open>onMessage_loop\<close>), a loop that does not end; the properties show when it cannot
  happen. Outcomes of system calls, clock readings, the addresses of new objects and the contents of fresh
  memory are arguments. Sizes are natural numbers, subtractions are proved not to go below zero; timer ids, event masks,
  ports and addresses are machine words; \<open>int64_t\<close> times are integers proved to stay in range.
  Threads interleave in inductive step relations. In \<open>EventLoop\<close>, \<open>ThreadPool\<close> and \<open>AsyncLogging\<close> a step is a critical
  section, an atomic access or a system call. In \<open>ConnectionRuns\<close> a step is a whole operation of the loop thread; a user call from
  another thread is one step too or, where the code does so, a test with its store and its push on the loop's queue as later
  steps. One interleaving is left out of the runs: a \<open>shutdown\<close> or \<open>forceClose\<close> that tests its state, loses the
  processor while the loop closes the connection, and then stores \<open>kDisconnecting\<close> over \<open>kDisconnected\<close>. What the code
  does then is proved separately (\<open>forceClose_race_closes_twice\<close>, \<open>forceClose_race_registers_again\<close>,
  \<open>shutdown_race_down_twice\<close>), and the properties of runs of connections are to be read without it. In \<open>TimerQueue\<close> a batch of
  expired timers is one step, whose callbacks may add and cancel timers.

  \<^bold>\<open>What is shown.\<close>
  \<^item> Connections: in every run the bytes written followed by the bytes queued are the accepted messages in order;
    as long as the connection is not closed, the write side is shut down only after everything is written; states move
    forward; descriptors are closed at most once per hand-over; a connection destroyed after it was established is
    registered nowhere and its socket is closed once, by the destructor; watermark callbacks alternate while the marks stay set;
    queued output and the rest of a file drain when the kernel makes progress.
  \<^item> HTTP: both parsers refine an abstract parser of the byte stream, end, do not depend on how the stream is cut,
    and read back serialised requests (the context as long as its request is not complete); complete requests are well
    formed; errors are final; printed responses with headers of one line are framed by their content length.
  \<^item> Chat: pipelines are served completely and in order however they are cut, the page for \<open>/\<close> and the broadcast and an
    acknowledgement for \<open>/chat\<close>; timers follow connections and idle connections are reaped. End to end, what a client's
    socket gets is made of whole messages: the answers
    to its own requests in order and the broadcasts of the others, each sender's in the order it sent them; and
    a posted message is on every connected client's socket after finitely many turns of that client's loop, as long as no
    write finds its peer gone and the read that completes it holds no malformed request.
  \<^item> Teardown: from boot to the end of \<open>main\<close> the base loop's four descriptors are registered and unregistered without a
    refused call and closed once each.
  \<^item> Tests: the requirements of all six test programs hold on the model, for \<open>backpressure_tests.cpp\<close> when the first write
    leaves 32K queued and kernel and consumer make progress, and for \<open>timer_tests.cpp\<close> when the timers are set within a
    millisecond and the loop wakes at most two milliseconds late.
  \<^item> Loops and timers: no wakeup is lost, with the exceptions of a functor the loop thread queues before \<open>loop()\<close> and of a
    signal on the loop thread; functors run at most once and in order, a turn runs everything queued; the timer set, the id map and the armed descriptor agree, cancelled timers stay silent even within the batch that cancels them, only due timers
    fire, expirations stay in range.
  \<^item> Servers: connection names are unique and the map is exact, accepted bursts are spread over the loops in turn, the
    start-up handshake of a loop thread does not miss its notification while the loop is published.
  \<^item> Logging: streams never overflow, records that fit are complete, the double buffer loses and reorders nothing and never
    runs out of buffers, a file holds at most the roll size and one record for each
    time it is opened; the first theorem below composes the
    front end with the back end.
  \<^item> Buffers, channels, epoll: buffer operations are a queue of bytes for any sequence of operations; the kernel's
    registration always agrees with the channel's belief.
  Sections \<open>Behaviours to know about\<close> prove concrete consequences of the code that its users should know, such as
  a connection that is never closed after a malformed request or log records lost by \<open>stop\<close>.

  \<^bold>\<open>Bounds.\<close> Names of connections are shown unique for fewer than \<open>2 ^ 31 - 1\<close> accepted connections and printed
  addresses of at most 15 characters; the counter of connections is an integer, so that the names of \<open>TcpServer_accept_burst\<close>
  are those of the code below that number too; timer ids for fewer than \<open>2 ^ 64\<close> timers. Fuel is used in the tests only, as
  the number of turns of a loop, and the properties show that some number of turns is enough.

  \<^bold>\<open>Not modelled.\<close> The kernel beyond the outcomes of its calls; the memory model (accesses are sequentially consistent)
  and the reference counts of shared pointers (objects stay in their heap; a tied channel knows whether its owner is
  alive: that the last reference to a connection goes after its last queued task is taken from the code);
  diagnostics on the standard streams; \<open>base/noncopyable.h\<close> and \<open>tcp/Callbacks.h\<close>, which have no behaviour of their own. In \<open>ChatServer\<close> a
  loop event and the callbacks it runs are one step, and the timers of connections may fire at any time; of the tests, the socket
  pairs and the release of shared pointers are left out, and their threads are the order in which their effects arrive.
\<close>

section \<open>From a log statement to the log file\<close>

text \<open>Everything a log statement outputs fits into a buffer of the background writer.\<close>

lemma log_statement_fits:
  assumes "length st = kSmallBuffer" "Output l \<in> set (log_statement mudebug global st now file line level args)"
  shows "length l < kLargeBuffer"
proof -
  have "log_enabled mudebug global level" using assms(2) by (simp add: log_statement_def split: if_splits)
  from assms(2) log_statement_fit [OF assms(1) this]
  have "l = fit kSmallBuffer [] (map log_arg_text (record_pieces now file line level args))" by (auto split: if_splits)
  moreover have "length (fit kSmallBuffer [] ps) < kSmallBuffer" for ps by (rule fit_less) (simp add: kSmallBuffer_def)
  ultimately have "length l < kSmallBuffer" by simp
  then show ?thesis by (simp add: kSmallBuffer_def kLargeBuffer_def)
qed

text \<open>C31. No log record is dropped on the way to the writer: when every line appended is the output of some log
  statement, as the output function of \<open>main.cpp\<close> arranges, the bytes handed to the log file, those in the
  writer's hands and those in the front buffers are together exactly all records, in order, in every
  interleaving of producers and writer; records are only lost when the writer ends.\<close>

theorem logged_records_survive:
  assumes "length storage1 = kLargeBuffer" "length storage2 = kLargeBuffer"
    and "run log_step (log_init storage1 storage2 num basename flushInterval) es s"
    and "\<And>l. l \<in> set (as_lines s) \<Longrightarrow>
      \<exists>mudebug global st now file line level args. length st = kSmallBuffer
        \<and> Output l \<in> set (log_statement mudebug global st now file line level args)"
  shows "as_taken s @ pc_pending (as_pc s) @ front_content (as_log s) = concat (as_lines s)"
proof -
  have "length l < kLargeBuffer" if "l \<in> set (as_lines s)" for l
    using assms(4) [OF that] log_statement_fits by blast
  then have "filter (\<lambda>l. length l < kLargeBuffer) (as_lines s) = as_lines s" by (simp add: filter_id_conv)
  with log_run_ok [OF assms(1-3)] show ?thesis by (simp add: log_ok_def kept_lines_def)
qed

definition sample_record :: bytes where
  "sample_record = fit kSmallBuffer [] (map log_arg_text (record_pieces epoch ''a.cpp'' 7 INFO [LInt 42]))"

theorem logged_records_survive_witness:
  "\<exists>s. run log_step (log_init (replicate kLargeBuffer NUL) (replicate kLargeBuffer NUL) 0 ''log'' 3)
         [LAppend (replicate kLargeBuffer NUL) sample_record] s
     \<and> as_taken s @ pc_pending (as_pc s) @ front_content (as_log s) = sample_record"
proof -
  let ?st = "replicate kLargeBuffer NUL" and ?sm = "replicate kSmallBuffer NUL"
  let ?init = "log_init ?st ?st 0 ''log'' 3"
  have l: "length ?st = kLargeBuffer" and sm: "length ?sm = kSmallBuffer" by simp_all
  have "log_enabled False INFO INFO" by simp
  from log_statement_fit [OF sm this, of epoch "''a.cpp''" 7 "[LInt 42]"]
  have out: "Output sample_record \<in> set (log_statement False INFO ?sm epoch ''a.cpp'' 7 INFO [LInt 42])"
    by (simp add: sample_record_def)
  have "front_ok (as_log ?init)" using log_init_ok [OF l l] by (simp add: log_ok_def)
  from append_front [OF this l, of sample_record] obtain a n where
    "AsyncLogging_append ?st sample_record (as_log ?init) = Some (a, n)" by blast
  let ?fin = "?init\<lparr>as_log := a, as_lines := as_lines ?init @ [sample_record]\<rparr>"
  have "log_step ?init (LAppend ?st sample_record) ?fin" by (rule log_append [OF l]) fact
  from run_cons [of log_step, OF this run_nil] have r: "run log_step ?init [LAppend ?st sample_record] ?fin" .
  have lines: "as_lines ?fin = [sample_record]" by (simp add: log_init_def)
  have "as_taken ?fin @ pc_pending (as_pc ?fin) @ front_content (as_log ?fin) = concat (as_lines ?fin)"
  proof (rule logged_records_survive [OF l l r])
    fix x assume "x \<in> set (as_lines ?fin)"
    then have "x = sample_record" using lines by simp
    with sm out show "\<exists>mudebug global st now file line level args. length st = kSmallBuffer
        \<and> Output x \<in> set (log_statement mudebug global st now file line level args)" by blast
  qed
  then have "as_taken ?fin @ pc_pending (as_pc ?fin) @ front_content (as_log ?fin) = sample_record" unfolding lines by simp
  with r show ?thesis by blast
qed

section \<open>The page as an HTTP message\<close>

text \<open>The answer to \<open>/\<close>, read by the response reader of theory \<open>HttpResponse\<close>, is a head whose content length is the
  size of the page, and the page.\<close>

lemma chat_page_framed:
  "\<exists>text. onMessage_respond peer conn w (''/'', body) = [ChatSend conn text]
     \<and> head_lines text = Some ([''HTTP/1.1 200 OK'', ''Content-Type: text/html; charset=utf-8'',
         ''Content-Length: '' @ to_string (length g_chat_html), ''Connection: Keep-Alive''], g_chat_html)"
proof -
  let ?ls = "[''HTTP/1.1 200 OK'', ''Content-Type: text/html; charset=utf-8'',
         ''Content-Length: '' @ to_string (length g_chat_html), ''Connection: Keep-Alive'']"
  have "list_all (\<lambda>l. one_line l \<and> l \<noteq> []) ?ls" using digits_one_line [of "length g_chat_html"] by (simp add: one_line_def CR_def)
  then show ?thesis
    using head_lines_block [of ?ls g_chat_html]
    by (simp add: onMessage_respond_def WebChatServer_sendHttpResponse_def)
qed

end
